(* ===== verification/Prelude.thy ===== *)
theory Prelude
  imports Main "HOL-Library.Word" "HOL-Library.Monad_Syntax"
begin

text \<open>
  What every component of the development shares: the machine types of the C++ code, the
  memory a pointer can read, slices of byte lists, decimal printing (\<^verbatim>\<open>sprintf "%d"\<close>,
  \<^verbatim>\<open>inet_ntoa\<close>), and the facts that move 32-bit sequence-number arithmetic to the naturals
  when it does not wrap.

  An operation that can leave the defined behaviour of C++ (a read outside the buffer a
  pointer points into, an iterator or a map entry that is not there, an exception of the
  standard library that nothing catches) returns an option: \<open>None\<close> is "the program has no
  defined continuation", \<open>Some\<close> the state and the value of the normal return.
\<close>

unbundle bit_operations_syntax

section \<open>Machine types\<close>

type_synonym byte = "8 word"
type_synonym u16 = "16 word"
type_synonym u32 = "32 word"
type_synonym u64 = "64 word"
type_synonym bytes = "byte list"

text \<open>\<^verbatim>\<open>tcp_seq\<close> is \<^verbatim>\<open>u_int\<close>: 32 bits, unsigned, wrapping.\<close>

type_synonym tcp_seq = "32 word"

named_theorems word_nat \<open>sequence-number arithmetic read as natural-number arithmetic\<close>
named_theorems slice_simps \<open>slices of byte lists\<close>

section \<open>Slices\<close>

definition slice :: "'a list \<Rightarrow> nat \<Rightarrow> nat \<Rightarrow> 'a list" where
  "slice xs a n = take n (drop a xs)"

lemma length_slice [slice_simps]: "a + n \<le> length xs \<Longrightarrow> length (slice xs a n) = n"
  by (simp add: slice_def)

lemma slice_append [slice_simps]: "slice xs a m @ slice xs (a + m) n = slice xs a (m + n)"
  by (simp add: slice_def take_add add.commute)

lemma slice_append':
  "b = a + m \<Longrightarrow> k = m + n \<Longrightarrow> slice xs a m @ slice xs b n = slice xs a k"
  by (simp add: slice_append)

lemma take_slice [slice_simps]: "take m (slice xs a n) = slice xs a (min m n)"
  by (simp add: slice_def)

lemma drop_slice [slice_simps]: "drop m (slice xs a n) = slice xs (a + m) (n - m)"
  by (simp add: slice_def drop_take add.commute)

lemma slice_0 [slice_simps]: "slice xs a 0 = []"
  by (simp add: slice_def)

lemma slice_full: "slice xs 0 n = take n xs"
  by (simp add: slice_def)

lemma nth_slice [slice_simps]: "a + n \<le> length xs \<Longrightarrow> i < n \<Longrightarrow> slice xs a n ! i = xs ! (a + i)"
  by (simp add: slice_def)

section \<open>Memory a pointer can read\<close>

text \<open>
  A \<^verbatim>\<open>const u_char *\<close> is the buffer it points into and an offset, which pointer arithmetic
  moves in either direction. \<open>load p k n\<close> reads \<open>n\<close> bytes at \<open>p + k\<close>; it is \<open>None\<close> when a
  byte read lies outside the buffer, and when \<open>n\<close> is negative (as a \<^verbatim>\<open>size_t\<close> it is then larger than
  any buffer, and \<^verbatim>\<open>std::string\<close> throws \<^verbatim>\<open>length_error\<close>).
\<close>

type_synonym cptr = "bytes \<times> int"

definition padd :: "cptr \<Rightarrow> int \<Rightarrow> cptr" where
  "padd p k = (fst p, snd p + k)"

definition load :: "cptr \<Rightarrow> int \<Rightarrow> int \<Rightarrow> bytes option" where
  "load p k n =
     (let a = snd p + k
      in if 0 \<le> a \<and> 0 \<le> n \<and> a + n \<le> int (length (fst p))
         then Some (take (nat n) (drop (nat a) (fst p)))
         else None)"

definition load8 :: "cptr \<Rightarrow> int \<Rightarrow> byte option" where
  "load8 p k =
     (let a = snd p + k
      in if 0 \<le> a \<and> a < int (length (fst p)) then Some (fst p ! nat a) else None)"

text \<open>\<^verbatim>\<open>std::string::c_str()\<close>: the bytes and the terminating NUL, which may be read.\<close>

definition c_str :: "bytes \<Rightarrow> cptr" where
  "c_str s = (s @ [0], 0)"

lemma load_Some_iff:
  "load p k n = Some bs \<longleftrightarrow>
     0 \<le> snd p + k \<and> 0 \<le> n \<and> snd p + k + n \<le> int (length (fst p)) \<and>
     bs = slice (fst p) (nat (snd p + k)) (nat n)"
  by (auto simp: load_def Let_def slice_def)

lemma load_length: "load p k n = Some bs \<Longrightarrow> length bs = nat n"
  by (auto simp: load_Some_iff slice_def)

lemma load_nonneg: "load p k n = Some bs \<Longrightarrow> 0 \<le> n"
  by (simp add: load_Some_iff)

lemma load_nonempty [simp]: "0 < n \<Longrightarrow> load p k n \<noteq> Some []"
  by (auto dest: load_length)

lemma load_of_nat: "load p k n = Some bs \<Longrightarrow> word_of_int n = of_nat (length bs)"
proof -
  assume ld: "load p k n = Some bs"
  from load_length [OF ld] load_nonneg [OF ld] have "n = int (length bs)" by simp
  then show ?thesis by (simp only: of_int_of_nat_eq)
qed

lemma load_padd [simp]: "load (padd p j) k n = load p (j + k) n"
  by (simp add: load_def padd_def add.assoc Let_def)

lemma padd_padd [simp]: "padd (padd p j) k = padd p (j + k)"
  by (simp add: padd_def add.assoc)

lemma load8_padd [simp]: "load8 (padd p j) k = load8 p (j + k)"
  unfolding load8_def padd_def by (simp add: Let_def add.assoc)

lemma load_sub:
  assumes "load p k n = Some bs" and "0 \<le> j" and "0 \<le> m" and "j + m \<le> n"
  shows "load p (k + j) m = Some (slice bs (nat j) (nat m))"
proof -
  have bs: "bs = slice (fst p) (nat (snd p + k)) (nat n)" and k: "0 \<le> snd p + k"
    and bound: "snd p + k + n \<le> int (length (fst p))"
    using assms(1) by (simp_all add: load_Some_iff)
  have "min (nat m) (nat n - nat j) = nat m" using assms(2-4) by linarith
  moreover have "nat (snd p + (k + j)) = nat (snd p + k) + nat j"
    using k assms(2) by linarith
  ultimately have "slice bs (nat j) (nat m) = slice (fst p) (nat (snd p + (k + j))) (nat m)"
    unfolding bs slice_def by (simp add: drop_take add.commute)
  moreover have "0 \<le> snd p + (k + j)" and "snd p + (k + j) + m \<le> int (length (fst p))"
    using k bound assms(2-4) by linarith+
  ultimately show ?thesis using assms(3) by (simp add: load_Some_iff)
qed

lemma load_take:
  "load p k n = Some bs \<Longrightarrow> 0 \<le> m \<Longrightarrow> m \<le> n \<Longrightarrow> load p k m = Some (take (nat m) bs)"
  using load_sub [of p k n bs 0 m] by (simp add: slice_def)

lemma load_c_str: "0 \<le> n \<Longrightarrow> n \<le> int (length s) \<Longrightarrow> load (c_str s) 0 n = Some (take (nat n) s)"
  by (simp add: load_Some_iff c_str_def slice_def)

lemma load8_load: "load8 p k = map_option hd (load p k 1)"
  by (auto simp: load8_def load_def Let_def hd_drop_conv_nth)

section \<open>Sequence numbers that do not wrap\<close>

lemma unat_word_of_int32 [word_nat]:
  "0 \<le> k \<Longrightarrow> k < 2 ^ 32 \<Longrightarrow> unat (word_of_int k :: 32 word) = nat k"
  by (simp add: unat_eq_nat_uint uint_word_of_int)

lemma unat_add_int32 [word_nat]:
  assumes "0 \<le> k" and "int (unat (w :: 32 word)) + k < 2 ^ 32"
  shows "unat (w + word_of_int k) = unat w + nat k"
proof -
  have k: "k < 2 ^ 32" using assms by linarith
  have "int (unat w + nat k) < int (2 ^ 32)" using assms by simp
  then have "unat w + nat k < 2 ^ 32" by (simp only: of_nat_less_iff)
  moreover have "unat (word_of_int k :: 32 word) = nat k"
    using assms(1) k by (rule unat_word_of_int32)
  ultimately show ?thesis by (subst unat_word_ariths) simp
qed

lemma unat_sub32 [word_nat]: "(b :: 32 word) \<le> a \<Longrightarrow> unat (a - b) = unat a - unat b"
  by (rule unat_sub)

lemma unat_add_of_nat32 [word_nat]:
  "unat (w :: 32 word) + n < 2 ^ 32 \<Longrightarrow> unat (w + of_nat n) = unat w + n"
  by (simp add: unat_word_ariths unat_of_nat take_bit_nat_eq_self)

lemma sub_le_size32:
  assumes "(q :: 32 word) \<le> a" and "a \<le> q + w"
  shows "unat (a - q) \<le> unat w"
proof -
  have "q \<le> q + w" using assms by (rule order_trans)
  then have "unat (q + w - q) = unat (q + w) - unat q" by (rule unat_sub)
  then have "unat w = unat (q + w) - unat q" by simp
  moreover have "unat a - unat q \<le> unat (q + w) - unat q"
    using assms(2) by (intro diff_le_mono) (simp only: word_le_nat_alt)
  ultimately show ?thesis using assms(1) by (simp only: unat_sub)
qed

lemma sint_small32 [word_nat]:
  assumes "unat (w :: 32 word) < 2 ^ 31"
  shows "sint w = int (unat w)"
proof -
  have "uint w < 2 ^ 31" using assms by (metis nat_less_numeral_power_cancel_iff unat_eq_nat_uint)
  moreover have "- (2 ^ 31) \<le> uint w" by (rule order_trans [OF _ uint_ge_0]) simp
  ultimately have "signed_take_bit 31 (uint w) = uint w"
    by (intro signed_take_bit_int_eq_self) simp_all
  then show ?thesis by (simp add: sint_uint)
qed

lemma sint_word_of_int32 [word_nat]:
  assumes "- (2 ^ 31) \<le> k" and "k < 2 ^ 31"
  shows "sint (word_of_int k :: 32 word) = k"
proof -
  have "signed_take_bit 31 k = k" using assms by (intro signed_take_bit_int_eq_self) simp_all
  then show ?thesis by (simp add: signed_of_int)
qed

section \<open>Decimal printing\<close>

definition digit :: "nat \<Rightarrow> char" where
  "digit d = char_of (48 + d)"

fun show_nat :: "nat \<Rightarrow> string" where
  "show_nat n = (if n < 10 then [digit n] else show_nat (n div 10) @ [digit (n mod 10)])"

declare show_nat.simps [simp del]

definition show_int :: "int \<Rightarrow> string" where
  "show_int i = (if i < 0 then CHR ''-'' # show_nat (nat (- i)) else show_nat (nat i))"

lemma digit_inj: "d < 10 \<Longrightarrow> e < 10 \<Longrightarrow> digit d = digit e \<Longrightarrow> d = e"
  unfolding digit_def
  by (drule arg_cong [where f = "of_char :: char \<Rightarrow> nat"]) (simp add: of_char_of)

definition is_digit :: "char \<Rightarrow> bool" where
  "is_digit c \<longleftrightarrow> 48 \<le> (of_char c :: nat) \<and> (of_char c :: nat) < 58"

lemma is_digit_digit: "d < 10 \<Longrightarrow> is_digit (digit d)"
  by (simp add: is_digit_def digit_def of_char_of)

lemma show_nat_digits: "\<forall>c \<in> set (show_nat n). is_digit c"
proof (induction n rule: show_nat.induct)
  case (1 n)
  then show ?case by (subst show_nat.simps) (auto simp: is_digit_digit)
qed

lemma show_nat_nonempty [simp]: "show_nat n \<noteq> []" "[] \<noteq> show_nat n"
  by (subst show_nat.simps, simp)+

lemma show_nat_inj: "show_nat m = show_nat n \<Longrightarrow> m = n"
proof (induction m arbitrary: n rule: show_nat.induct)
  case (1 m)
  note eq = "1.prems" [unfolded show_nat.simps [of m] show_nat.simps [of n]]
  show ?case
  proof (cases "m < 10")
    case True
    with eq show ?thesis by (cases "n < 10") (auto simp: append_eq_Cons_conv dest: digit_inj)
  next
    case m: False
    show ?thesis
    proof (cases "n < 10")
      case True
      with eq m show ?thesis by auto
    next
      case False
      with eq m have rec: "show_nat (m div 10) = show_nat (n div 10)"
        and dig: "digit (m mod 10) = digit (n mod 10)" by auto
      from "1.IH" [OF m rec] have "m div 10 = n div 10" .
      moreover from dig have "m mod 10 = n mod 10" by (rule digit_inj [rotated 2]) simp_all
      ultimately show ?thesis by (metis div_mult_mod_eq)
    qed
  qed
qed

lemma show_int_inj: "show_int i = show_int j \<Longrightarrow> i = j"
proof -
  have minus: "CHR ''-'' \<notin> set (show_nat n)" for n
    using show_nat_digits [of n] by (auto simp: is_digit_def)
  assume eq: "show_int i = show_int j"
  have neq: "CHR ''-'' # s \<noteq> show_nat n" for s n
    using minus [of n] by (metis list.set_intros(1))
  from eq show "i = j"
    by (auto simp: show_int_def neq neq [symmetric] dest!: show_nat_inj split: if_splits)
qed

lemma show_int_chars: "c \<in> set (show_int i) \<Longrightarrow> is_digit c \<or> c = CHR ''-''"
  using show_nat_digits by (auto simp: show_int_def split: if_splits)

lemma show_nat_chars: "c \<in> set (show_nat n) \<Longrightarrow> is_digit c"
  using show_nat_digits by blast

text \<open>A list is cut in one way only at the first occurrence of a separator.\<close>

lemma split_at_separator:
  "c \<notin> set xs \<Longrightarrow> c \<notin> set ys \<Longrightarrow> xs @ c # us = ys @ c # vs \<Longrightarrow> xs = ys \<and> us = vs"
  by (induction xs arbitrary: ys) (case_tac ys; auto)+

end
