(* ===== verification/Extract.thy ===== *)
theory Extract
  imports Prelude
begin

text \<open>
  Reading integers out of packet buffers: the \<^verbatim>\<open>EXTRACT\<close> macros of
  \<^verbatim>\<open>src/sniffer/extract.h\<close>, the byte-order conversions of the socket library as the sources
  use them (\<^verbatim>\<open>ntohs\<close>, \<^verbatim>\<open>ntohl\<close> of a field of a packet: the big-endian value of its bytes),
  \<^verbatim>\<open>get_length_from_byte_stream\<close>, and the 48-bit \<^verbatim>\<open>MAC\<close> of \<^verbatim>\<open>src/sniffer/util.cc\<close>.
\<close>

section \<open>Big-endian values\<close>

definition be16 :: "byte \<Rightarrow> byte \<Rightarrow> u16" where
  "be16 a b = push_bit 8 (ucast a) OR ucast b"

definition be32 :: "byte \<Rightarrow> byte \<Rightarrow> byte \<Rightarrow> byte \<Rightarrow> u32" where
  "be32 a b c d =
     push_bit 24 (ucast a) OR push_bit 16 (ucast b) OR push_bit 8 (ucast c) OR ucast d"

definition EXTRACT_16BITS :: "cptr \<Rightarrow> int \<Rightarrow> u16 option" where
  "EXTRACT_16BITS p k = do { a \<leftarrow> load8 p k; b \<leftarrow> load8 p (k + 1); Some (be16 a b) }"

definition EXTRACT_32BITS :: "cptr \<Rightarrow> int \<Rightarrow> u32 option" where
  "EXTRACT_32BITS p k = do {
     a \<leftarrow> load8 p k; b \<leftarrow> load8 p (k + 1); c \<leftarrow> load8 p (k + 2); d \<leftarrow> load8 p (k + 3);
     Some (be32 a b c d) }"

definition EXTRACT_24BITS :: "cptr \<Rightarrow> int \<Rightarrow> u32 option" where
  "EXTRACT_24BITS p k = do {
     a \<leftarrow> load8 p k; b \<leftarrow> load8 p (k + 1); c \<leftarrow> load8 p (k + 2);
     Some (push_bit 16 (ucast a) OR push_bit 8 (ucast b) OR ucast c) }"

definition EXTRACT_LE_8BITS :: "cptr \<Rightarrow> int \<Rightarrow> byte option" where
  "EXTRACT_LE_8BITS p k = load8 p k"

definition EXTRACT_LE_16BITS :: "cptr \<Rightarrow> int \<Rightarrow> u16 option" where
  "EXTRACT_LE_16BITS p k = do { b \<leftarrow> load8 p (k + 1); a \<leftarrow> load8 p k; Some (be16 b a) }"

text \<open>\<^verbatim>\<open>pletohs\<close>, from ethereal: the same little-endian read.\<close>

definition pletohs :: "cptr \<Rightarrow> int \<Rightarrow> u16 option" where
  "pletohs p k = do { b \<leftarrow> load8 p (k + 1); a \<leftarrow> load8 p k; Some (be16 b a) }"

definition COOK_FRAGMENT_NUMBER :: "u16 \<Rightarrow> u16" where
  "COOK_FRAGMENT_NUMBER x = x AND 0x000F"

definition COOK_SEQUENCE_NUMBER :: "u16 \<Rightarrow> u16" where
  "COOK_SEQUENCE_NUMBER x = drop_bit 4 (x AND 0xFFF0)"

text \<open>
  \<^verbatim>\<open>get_length_from_byte_stream\<close>: the length of an RPC record is the low 31 bits of its
  record mark; the top bit (last fragment) is masked off, so the \<^verbatim>\<open>int\<close> is never negative.
\<close>

definition get_length_from_byte_stream :: "cptr \<Rightarrow> int option" where
  "get_length_from_byte_stream b = do {
     b0 \<leftarrow> load8 b 0; b1 \<leftarrow> load8 b 1; b2 \<leftarrow> load8 b 2; b3 \<leftarrow> load8 b 3;
     Some (sint (be32 (b0 AND 0x7F) b1 b2 b3)) }"

section \<open>The bits of an assembled value\<close>

lemma bit_ucast_byte32: "bit (ucast (b :: byte) :: u32) k \<longleftrightarrow> k < 8 \<and> bit b k"
  by (auto simp: bit_ucast_iff dest: bit_imp_le_length)

lemma bit_ucast_byte16: "bit (ucast (b :: byte) :: u16) k \<longleftrightarrow> k < 8 \<and> bit b k"
  by (auto simp: bit_ucast_iff dest: bit_imp_le_length)

lemma unat_byte: "unat (b :: byte) < 256"
  using unsigned_less [of b, where ?'a = nat] by simp

lemma unat_ucast_byte16: "unat (ucast (b :: byte) :: u16) = unat b"
  using unat_byte [of b] by (simp add: unsigned_ucast_eq take_bit_nat_eq_self)

lemma unat_ucast_byte32: "unat (ucast (b :: byte) :: u32) = unat b"
  using unat_byte [of b] by (simp add: unsigned_ucast_eq take_bit_nat_eq_self)

lemma or_disjoint_plus:
  fixes a b :: "'a :: len word"
  assumes "\<And>k. bit a k \<Longrightarrow> \<not> bit b k"
  shows "a OR b = a + b"
proof -
  have "a AND b = 0" by (rule bit_eqI) (use assms in \<open>auto simp: bit_and_iff\<close>)
  then show ?thesis by (rule disjunctive_add_eq_or [symmetric])
qed

lemma unat_push_byte32:
  assumes "n \<le> 24"
  shows "unat (push_bit n (ucast (b :: byte)) :: u32) = 2 ^ n * unat b"
proof -
  have "2 ^ n * unat b < 2 ^ n * 256" using unat_byte [of b] by simp
  also have "(2 :: nat) ^ n * 256 \<le> 2 ^ 24 * 256"
    using assms by (intro mult_right_mono power_increasing) simp_all
  finally have "2 ^ n * unat b < 2 ^ 32" by simp
  moreover have "unat (push_bit n (ucast b) :: u32) = take_bit 32 (push_bit n (unat b))"
    by (simp add: unsigned_push_bit_eq unat_ucast_byte32)
  moreover have "push_bit n (unat b) = 2 ^ n * unat b" by (simp add: push_bit_eq_mult)
  ultimately show ?thesis by (simp only: take_bit_nat_eq_self)
qed

lemma unat_be16: "unat (be16 a b) = 256 * unat a + unat b"
proof -
  have "be16 a b = push_bit 8 (ucast a) + ucast b"
    unfolding be16_def by (rule or_disjoint_plus) (simp add: bit_push_bit_iff bit_ucast_byte16)
  then show ?thesis
    using unat_byte [of a] unat_byte [of b]
    by (simp add: push_bit_eq_mult unat_word_ariths unat_ucast_byte16)
qed

lemma be32_plus:
  "be32 a b c d = push_bit 24 (ucast a) + (push_bit 16 (ucast b) + (push_bit 8 (ucast c) + ucast d))"
proof -
  have "push_bit 8 (ucast c :: u32) OR ucast d = push_bit 8 (ucast c) + ucast d"
    by (rule or_disjoint_plus) (simp add: bit_push_bit_iff bit_ucast_byte32)
  moreover have "push_bit 16 (ucast b :: u32) OR (push_bit 8 (ucast c) OR ucast d) =
      push_bit 16 (ucast b) + (push_bit 8 (ucast c) OR ucast d)"
    by (rule or_disjoint_plus) (auto simp: bit_push_bit_iff bit_or_iff bit_ucast_byte32)
  moreover have "push_bit 24 (ucast a :: u32) OR (push_bit 16 (ucast b) OR (push_bit 8 (ucast c) OR ucast d)) =
      push_bit 24 (ucast a) + (push_bit 16 (ucast b) OR (push_bit 8 (ucast c) OR ucast d))"
    by (rule or_disjoint_plus) (auto simp: bit_push_bit_iff bit_or_iff bit_ucast_byte32)
  ultimately show ?thesis by (simp only: be32_def or.assoc)
qed

lemma unat_be32:
  "unat (be32 a b c d) = 2 ^ 24 * unat a + 2 ^ 16 * unat b + 2 ^ 8 * unat c + unat d"
  unfolding be32_plus
  using unat_byte [of a] unat_byte [of b] unat_byte [of c] unat_byte [of d]
    unat_push_byte32 [of 24 a] unat_push_byte32 [of 16 b] unat_push_byte32 [of 8 c]
  by (simp add: unat_word_ariths unat_ucast_byte32)

lemma unat_mask_7f: "unat ((b :: byte) AND 0x7F) < 128"
proof -
  have "b AND 0x7F \<le> 0x7F" by (rule word_and_le1)
  then have "unat (b AND 0x7F) \<le> unat (0x7F :: byte)" by (simp only: word_le_nat_alt)
  then show ?thesis by simp
qed

section \<open>Record lengths\<close>

lemma sint_masked_be32:
  "sint (be32 (a AND 0x7F) b c d) =
     int (2 ^ 24 * unat (a AND 0x7F) + 2 ^ 16 * unat b + 2 ^ 8 * unat c + unat d)"
proof -
  have "unat (be32 (a AND 0x7F) b c d) < 2 ^ 31"
    using unat_mask_7f [of a] unat_byte [of b] unat_byte [of c] unat_byte [of d]
    by (simp add: unat_be32)
  then show ?thesis by (simp only: sint_small32 unat_be32)
qed

lemma int_less_pow31: "x < 2 ^ 31 \<Longrightarrow> int x < 2 ^ 31"
  by (simp only: of_nat_less_numeral_power_cancel_iff)

lemma get_length_bounds:
  assumes "get_length_from_byte_stream p = Some n"
  shows "0 \<le> n" and "n < 2 ^ 31"
proof -
  obtain a b c d where n: "n = sint (be32 (a AND 0x7F) b c d)"
    using assms by (auto simp: get_length_from_byte_stream_def split: Option.bind_splits)
  show "0 \<le> n" unfolding n sint_masked_be32 by (rule of_nat_0_le_iff)
  show "n < 2 ^ 31"
    unfolding n sint_masked_be32
    by (rule int_less_pow31)
      (use unat_mask_7f [of a] unat_byte [of b] unat_byte [of c] unat_byte [of d] in simp)
qed

section \<open>48-bit addresses\<close>

text \<open>\<^verbatim>\<open>MAC::MAC(const u_char *ether)\<close>: six bytes, the first the most significant.\<close>

definition mac_value :: "byte \<Rightarrow> byte \<Rightarrow> byte \<Rightarrow> byte \<Rightarrow> byte \<Rightarrow> byte \<Rightarrow> u64" where
  "mac_value e0 e1 e2 e3 e4 e5 =
     push_bit 8 (push_bit 8 (push_bit 8 (push_bit 8 (push_bit 8 (ucast e0)
       OR ucast e1) OR ucast e2) OR ucast e3) OR ucast e4) OR ucast e5"

definition MAC :: "cptr \<Rightarrow> int \<Rightarrow> u64 option" where
  "MAC ether k = do {
     e0 \<leftarrow> load8 ether k; e1 \<leftarrow> load8 ether (k + 1); e2 \<leftarrow> load8 ether (k + 2);
     e3 \<leftarrow> load8 ether (k + 3); e4 \<leftarrow> load8 ether (k + 4); e5 \<leftarrow> load8 ether (k + 5);
     Some (mac_value e0 e1 e2 e3 e4 e5) }"

definition MAC_broadcast :: u64 where "MAC_broadcast = 0xffffffffffff"

definition MAC_null :: u64 where "MAC_null = 0"

text \<open>The six bytes \<^verbatim>\<open>operator<<\<close> prints, most significant first.\<close>

definition mac_byte :: "u64 \<Rightarrow> nat \<Rightarrow> byte" where
  "mac_byte v sh = ucast (drop_bit sh v AND 0xff)"

definition mac_bytes :: "u64 \<Rightarrow> bytes" where
  "mac_bytes v = map (mac_byte v) [40, 32, 24, 16, 8, 0]"

lemma bit_ucast_byte64: "bit (ucast (b :: byte) :: u64) k \<longleftrightarrow> k < 8 \<and> bit b k"
  by (auto simp: bit_ucast_iff dest: bit_imp_le_length)

lemma bit_mac_byte: "bit (mac_byte v sh) k \<longleftrightarrow> k < 8 \<and> bit v (sh + k)"
proof -
  have "(0xff :: u64) = mask 8" by (simp add: mask_eq_exp_minus_1)
  then have ff: "bit (0xff :: u64) k \<longleftrightarrow> k < 8"
    by (simp only: bit_mask_iff possible_bit_word) auto
  show ?thesis
    unfolding mac_byte_def by (simp only: bit_ucast_iff bit_and_iff ff bit_drop_bit_eq comp_apply) auto
qed

lemma bit_mac_step:
  "bit (push_bit 8 (w :: u64) OR ucast (b :: byte)) k \<longleftrightarrow>
     (if k < 8 then bit b k else k < 64 \<and> bit w (k - 8))"
  by (auto simp: bit_or_iff bit_push_bit_iff bit_ucast_byte64)

lemma mac_bytes_value: "mac_bytes (mac_value e0 e1 e2 e3 e4 e5) = [e0, e1, e2, e3, e4, e5]"
proof -
  have "mac_byte (mac_value e0 e1 e2 e3 e4 e5) 40 = e0"
    "mac_byte (mac_value e0 e1 e2 e3 e4 e5) 32 = e1"
    "mac_byte (mac_value e0 e1 e2 e3 e4 e5) 24 = e2"
    "mac_byte (mac_value e0 e1 e2 e3 e4 e5) 16 = e3"
    "mac_byte (mac_value e0 e1 e2 e3 e4 e5) 8 = e4"
    "mac_byte (mac_value e0 e1 e2 e3 e4 e5) 0 = e5"
    by (rule bit_eqI, simp only: bit_mac_byte mac_value_def bit_mac_step bit_ucast_byte64,
        simp)+
  then show ?thesis by (simp add: mac_bytes_def)
qed

lemma mac_value_48: "48 \<le> k \<Longrightarrow> \<not> bit (mac_value e0 e1 e2 e3 e4 e5) k"
  by (drule le_Suc_ex)
    (auto simp only: mac_value_def bit_mac_step bit_ucast_byte64, simp_all)

lemma load8_within: "0 \<le> snd p + k \<Longrightarrow> snd p + k < int (length (fst p)) \<Longrightarrow>
    load8 p k = Some (fst p ! nat (snd p + k))"
  by (simp add: load8_def Let_def)

section \<open>Properties\<close>

text \<open>A MAC address built from six bytes of a frame is printed as those six bytes again
  (\<^verbatim>\<open>MAC::MAC\<close> and \<^verbatim>\<open>operator<<\<close> are inverse), and uses 48 of its 64 bits.\<close>

theorem mac_roundtrip:
  assumes "length bs = 6"
  shows "\<exists>v. MAC (bs, 0) 0 = Some v \<and> mac_bytes v = bs \<and> take_bit 48 v = v"
proof -
  obtain e0 e1 e2 e3 e4 e5 where bs: "bs = [e0, e1, e2, e3, e4, e5]"
    using assms by (auto simp: length_Suc_conv eval_nat_numeral)
  have "take_bit 48 (mac_value e0 e1 e2 e3 e4 e5) = mac_value e0 e1 e2 e3 e4 e5"
    by (rule bit_eqI) (metis bit_take_bit_iff mac_value_48 not_less)
  then show ?thesis
    by (simp add: bs MAC_def load8_def mac_bytes_value)
qed

lemma mac_roundtrip_witness:
  "length [0, 1, 2, 3, 4, 5 :: byte] = 6 \<and>
   (\<exists>v. MAC ([0, 1, 2, 3, 4, 5], 0) 0 = Some v \<and> mac_bytes v = [0, 1, 2, 3, 4, 5] \<and>
        take_bit 48 v = v)"
  using mac_roundtrip [of "[0, 1, 2, 3, 4, 5]"] by simp

end
