(* ===== verification/FlowIds.thy ===== *)
theory FlowIds
  imports Prelude
begin

text \<open>
  \<^verbatim>\<open>src/sniffer/flow_id.h\<close> and \<^verbatim>\<open>flow_id.cc\<close>: a TCP flow is named by its two addresses in dotted
  notation and its two ports. The sniffer keeps flows in two ways, in a vector searched with
  \<^verbatim>\<open>operator==\<close> and in maps keyed by \<^verbatim>\<open>toString()\<close>; the lemmas show that the two agree.
\<close>

section \<open>The class\<close>

record FlowId =
  srcIp :: string
  dstIp :: string
  srcPort :: u32
  dstPort :: u32

definition FlowId_new :: "string \<Rightarrow> string \<Rightarrow> u32 \<Rightarrow> u32 \<Rightarrow> FlowId" where
  "FlowId_new sip dip sp dp = \<lparr>srcIp = sip, dstIp = dip, srcPort = sp, dstPort = dp\<rparr>"

text \<open>\<^verbatim>\<open>operator==\<close>: both \<^verbatim>\<open>strcmp\<close> zero and both ports equal.\<close>

definition flow_eq :: "FlowId \<Rightarrow> FlowId \<Rightarrow> bool" where
  "flow_eq f g \<longleftrightarrow> srcIp f = srcIp g \<and> dstIp f = dstIp g \<and> srcPort f = srcPort g \<and>
     dstPort f = dstPort g"

text \<open>\<^verbatim>\<open>operator<\<close> compares the sums of the ports, in \<^verbatim>\<open>unsigned int\<close>.\<close>

definition flow_less :: "FlowId \<Rightarrow> FlowId \<Rightarrow> bool" where
  "flow_less f g \<longleftrightarrow> srcPort f + dstPort f < srcPort g + dstPort g"

text \<open>\<^verbatim>\<open>toString()\<close>: \<^verbatim>\<open>sprintf\<close> prints the unsigned port with \<^verbatim>\<open>"%d"\<close>, that is as an \<^verbatim>\<open>int\<close>.\<close>

definition toString :: "FlowId \<Rightarrow> string" where
  "toString f = srcIp f @ '':'' @ show_int (sint (srcPort f)) @ '' => '' @
     dstIp f @ '':'' @ show_int (sint (dstPort f))"

text \<open>\<^verbatim>\<open>inet_ntoa\<close> of the four address bytes in network order.\<close>

definition inet_ntoa :: "bytes \<Rightarrow> string" where
  "inet_ntoa bs = (case map (\<lambda>b. show_nat (unat b)) bs of
     [] \<Rightarrow> '''' | s # ss \<Rightarrow> s @ concat (map (\<lambda>t. ''.'' @ t) ss))"

section \<open>Lemmas\<close>

lemma flow_eq_iff [simp]: "flow_eq f g \<longleftrightarrow> f = g"
  by (auto simp: flow_eq_def)

lemma show_int_no_sep [simp]: "CHR '' '' \<notin> set (show_int i)" "CHR '':'' \<notin> set (show_int i)"
  by (auto dest!: show_int_chars simp: is_digit_def)

lemma inet_ntoa_no_colon: "CHR '':'' \<notin> set (inet_ntoa bs)"
proof -
  have "CHR '':'' \<notin> set (show_nat n)" for n
    by (auto dest!: show_nat_chars simp: is_digit_def)
  then show ?thesis by (auto simp: inet_ntoa_def split: list.splits)
qed

lemma sint_inj: "sint v = sint w \<Longrightarrow> v = w" for v w :: u32
  by (rule signed_word_eqI)

text \<open>The addresses a packet gives never hold a colon.\<close>

definition dotted :: "FlowId \<Rightarrow> bool" where
  "dotted f \<longleftrightarrow> CHR '':'' \<notin> set (srcIp f) \<and> CHR '':'' \<notin> set (dstIp f)"

lemma dotted_inet: "dotted (FlowId_new (inet_ntoa a) (inet_ntoa b) sp dp)"
  by (simp add: dotted_def FlowId_new_def inet_ntoa_no_colon)

lemma toString_parts:
  assumes "dotted f" and "dotted g" and "toString f = toString g"
  shows "f = g"
proof -
  let ?rest = "\<lambda>f. ''=> '' @ dstIp f @ '':'' @ show_int (sint (dstPort f))"
  have "srcIp f @ CHR '':'' # (show_int (sint (srcPort f)) @ CHR '' '' # ?rest f) =
        srcIp g @ CHR '':'' # (show_int (sint (srcPort g)) @ CHR '' '' # ?rest g)"
    using assms(3) by (simp add: toString_def)
  with assms(1,2) have src: "srcIp f = srcIp g" and
    r1: "show_int (sint (srcPort f)) @ CHR '' '' # ?rest f =
         show_int (sint (srcPort g)) @ CHR '' '' # ?rest g"
    by (auto simp: dotted_def dest!: split_at_separator [rotated 2])
  from split_at_separator [OF _ _ r1] have
    sp: "show_int (sint (srcPort f)) = show_int (sint (srcPort g))" and "?rest f = ?rest g"
    by simp_all
  then have "dstIp f @ CHR '':'' # show_int (sint (dstPort f)) =
      dstIp g @ CHR '':'' # show_int (sint (dstPort g))" by simp
  with assms(1,2) have "dstIp f = dstIp g \<and>
      show_int (sint (dstPort f)) = show_int (sint (dstPort g))"
    by (intro split_at_separator) (simp_all add: dotted_def)
  with src sp show ?thesis by (auto dest!: show_int_inj sint_inj)
qed

section \<open>Properties\<close>

text \<open>C39. For flows named by addresses that \<^verbatim>\<open>inet_ntoa\<close> can print, the key string of the maps
  identifies the flow exactly as \<^verbatim>\<open>operator==\<close> does: two flows share a key only when all four
  fields are equal.\<close>

theorem toString_identifies_flow:
  assumes "dotted f" and "dotted g"
  shows "toString f = toString g \<longleftrightarrow> flow_eq f g"
  using toString_parts [OF assms] by auto

lemma toString_identifies_flow_witness:
  "dotted (FlowId_new ''10.0.0.1'' ''10.0.0.2'' 80 2000) \<and>
   dotted (FlowId_new ''10.0.0.1'' ''10.0.0.2'' 80 2001) \<and>
   toString (FlowId_new ''10.0.0.1'' ''10.0.0.2'' 80 2000) \<noteq>
   toString (FlowId_new ''10.0.0.1'' ''10.0.0.2'' 80 2001)"
proof -
  let ?f = "FlowId_new ''10.0.0.1'' ''10.0.0.2'' 80 2000"
  let ?g = "FlowId_new ''10.0.0.1'' ''10.0.0.2'' 80 2001"
  have d: "dotted ?f" "dotted ?g" by (simp_all add: dotted_def FlowId_new_def)
  show ?thesis using toString_identifies_flow [OF d] d by (simp add: FlowId_new_def)
qed

end
