(* ===== verification/ContigBlock.thy ===== *)
theory ContigBlock
  imports Prelude
begin

text \<open>
  \<^verbatim>\<open>src/sniffer/contiguous_block.h\<close> and \<^verbatim>\<open>contiguous_block.cc\<close>: a run of consecutive bytes of a
  TCP stream with the sequence number of its first byte and the one after its last byte. Flows and
  chunks under reconstruction are lists of such blocks. The \<^verbatim>\<open>string *\<close> member is owned by the
  block (each copy duplicates it), so a block is a value.
\<close>

section \<open>The class\<close>

record ContiguousBlock =
  starting_seq_number :: tcp_seq
  next_expected_seq_number :: tcp_seq
  p_s_contiguous_block :: bytes
  bInit :: bool
  bModified :: bool

definition ContiguousBlock_new :: ContiguousBlock where
  "ContiguousBlock_new = \<lparr>starting_seq_number = 0, next_expected_seq_number = 0,
     p_s_contiguous_block = [], bInit = True, bModified = True\<rparr>"

definition ContiguousBlock_copy :: "ContiguousBlock \<Rightarrow> ContiguousBlock" where
  "ContiguousBlock_copy c = \<lparr>starting_seq_number = starting_seq_number c,
     next_expected_seq_number = next_expected_seq_number c,
     p_s_contiguous_block = p_s_contiguous_block c, bInit = bInit c, bModified = bModified c\<rparr>"

text \<open>\<^verbatim>\<open>operator=\<close> copies the two sequence numbers only.\<close>

definition cb_assign :: "ContiguousBlock \<Rightarrow> ContiguousBlock \<Rightarrow> ContiguousBlock" where
  "cb_assign lhs rhs = lhs\<lparr>starting_seq_number := starting_seq_number rhs,
     next_expected_seq_number := next_expected_seq_number rhs\<rparr>"

definition cb_eq :: "ContiguousBlock \<Rightarrow> ContiguousBlock \<Rightarrow> bool" where
  "cb_eq b c \<longleftrightarrow> starting_seq_number b = starting_seq_number c \<and>
     next_expected_seq_number b = next_expected_seq_number c"

definition cb_less :: "ContiguousBlock \<Rightarrow> ContiguousBlock \<Rightarrow> bool" where
  "cb_less b c \<longleftrightarrow> next_expected_seq_number b < starting_seq_number c"

text \<open>\<^verbatim>\<open>append(const char *, const int, const tcp_seq)\<close>: the first append fixes the start.\<close>

definition cb_append :: "cptr \<Rightarrow> int \<Rightarrow> tcp_seq \<Rightarrow> ContiguousBlock \<Rightarrow> ContiguousBlock option" where
  "cb_append str size_payload start_seq_number b = do {
     let b1 = (if bInit b
               then b\<lparr>starting_seq_number := start_seq_number,
                      next_expected_seq_number := start_seq_number, bInit := False\<rparr>
               else b);
     bs \<leftarrow> load str 0 size_payload;
     Some (b1\<lparr>p_s_contiguous_block := p_s_contiguous_block b1 @ bs,
              next_expected_seq_number := next_expected_seq_number b1 + word_of_int size_payload,
              bModified := True\<rparr>)
   }"

text \<open>\<^verbatim>\<open>append(const string *, const tcp_seq)\<close>.\<close>

definition cb_append_string :: "bytes \<Rightarrow> tcp_seq \<Rightarrow> ContiguousBlock \<Rightarrow> ContiguousBlock" where
  "cb_append_string str end_seq_number b =
     b\<lparr>p_s_contiguous_block := p_s_contiguous_block b @ str,
       next_expected_seq_number := end_seq_number, bModified := True\<rparr>"

text \<open>\<^verbatim>\<open>overlapping_append\<close>: \<^verbatim>\<open>std::string::append(str, pos, n)\<close> throws \<^verbatim>\<open>out_of_range\<close> when \<^verbatim>\<open>pos\<close>
  is beyond the end.\<close>

definition overlapping_append ::
    "bytes \<Rightarrow> u32 \<Rightarrow> tcp_seq \<Rightarrow> ContiguousBlock \<Rightarrow> ContiguousBlock option" where
  "overlapping_append str offset end_seq_number b =
     (if length str < unat offset then None
      else Some (b\<lparr>p_s_contiguous_block := p_s_contiguous_block b @ drop (unat offset) str,
                   next_expected_seq_number := end_seq_number, bModified := True\<rparr>))"

text \<open>\<^verbatim>\<open>prepend\<close>: the end of the block stays where it was.\<close>

definition cb_prepend :: "cptr \<Rightarrow> int \<Rightarrow> tcp_seq \<Rightarrow> ContiguousBlock \<Rightarrow> ContiguousBlock option" where
  "cb_prepend str size_payload start_seq_number b = do {
     new_str \<leftarrow> load str 0 size_payload;
     Some (b\<lparr>starting_seq_number := start_seq_number,
             p_s_contiguous_block := new_str @ p_s_contiguous_block b, bModified := True\<rparr>)
   }"

section \<open>The sequence numbers of a block\<close>

text \<open>A block that has been appended to: its end is its start plus its size, in 32-bit
  arithmetic.\<close>

definition spans :: "ContiguousBlock \<Rightarrow> bool" where
  "spans b \<longleftrightarrow> \<not> bInit b \<and>
     next_expected_seq_number b = starting_seq_number b + of_nat (length (p_s_contiguous_block b))"

lemma ContiguousBlock_copy_id [simp]: "ContiguousBlock_copy c = c"
  by (simp add: ContiguousBlock_copy_def)

lemma cb_append_iff:
  "cb_append p n s b = Some b' \<longleftrightarrow> (\<exists>bs. load p 0 n = Some bs \<and>
     b' = (if bInit b
           then b\<lparr>starting_seq_number := s, next_expected_seq_number := s + of_nat (length bs),
                  p_s_contiguous_block := p_s_contiguous_block b @ bs, bInit := False,
                  bModified := True\<rparr>
           else b\<lparr>next_expected_seq_number := next_expected_seq_number b + of_nat (length bs),
                  p_s_contiguous_block := p_s_contiguous_block b @ bs, bModified := True\<rparr>))"
  by (auto simp: cb_append_def Let_def bind_eq_Some_conv load_of_nat)

lemma cb_prepend_iff:
  "cb_prepend p n s b = Some b' \<longleftrightarrow> (\<exists>bs. load p 0 n = Some bs \<and>
     b' = b\<lparr>starting_seq_number := s, p_s_contiguous_block := bs @ p_s_contiguous_block b,
            bModified := True\<rparr>)"
  by (auto simp: cb_prepend_def bind_eq_Some_conv)

lemma cb_append_total: "load p 0 n = Some bs \<Longrightarrow> \<exists>b'. cb_append p n s b = Some b'"
  by (simp add: cb_append_def)

lemma cb_prepend_total: "load p 0 n = Some bs \<Longrightarrow> \<exists>b'. cb_prepend p n s b = Some b'"
  by (simp add: cb_prepend_def)

text \<open>Appending keeps the relation; prepending keeps it when the bytes added end where the block
  began.\<close>

lemma spans_append:
  "cb_append p n s b = Some b' \<Longrightarrow> (bInit b \<Longrightarrow> p_s_contiguous_block b = []) \<Longrightarrow>
   (\<not> bInit b \<Longrightarrow> spans b) \<Longrightarrow> spans b'"
  by (auto simp: cb_append_iff spans_def split: if_splits)

lemma spans_append_new: "cb_append p n s ContiguousBlock_new = Some b \<Longrightarrow> spans b"
  by (erule spans_append) (simp_all add: ContiguousBlock_new_def)

lemma spans_prepend:
  "cb_prepend p n s b = Some b' \<Longrightarrow> spans b \<Longrightarrow> s + word_of_int n = starting_seq_number b \<Longrightarrow>
   spans b'"
  by (auto simp: cb_prepend_iff spans_def load_of_nat add.assoc [symmetric])

lemma spans_overlapping_append:
  "overlapping_append s k e b = Some b' \<Longrightarrow> spans b \<Longrightarrow>
   next_expected_seq_number b + (of_nat (length s) - k) = e \<Longrightarrow> spans b'"
  by (auto simp: overlapping_append_def spans_def of_nat_diff add.assoc split: if_splits)

end
