(* ===== verification/ReconChunk.thy ===== *)
theory ReconChunk
  imports FlowIds ContigBlock
begin

text \<open>
  \<^verbatim>\<open>src/sniffer/reconstructed_chunk.h\<close> and \<^verbatim>\<open>reconstructed_chunk.cc\<close>: a chunk that is put together
  from the packets of the flows that carry it. Each flow's packets are placed by the offset of
  their sequence number from the flow's first byte of the chunk; the bytes received so far are an
  ordered list of contiguous blocks. The creation time and the debug output are left out.

  The definitions follow \<^verbatim>\<open>fill_gaps_in_chunk\<close>; the lemmas relate the block list to the bytes of
  the chunk (\<open>well_laid\<close>) and to the set of positions received (\<open>covered\<close>).
\<close>

section \<open>The class\<close>

record ReconstructedChunk =
  p_chunk_id :: bytes
  lcb :: "ContiguousBlock list"
  rc_length :: int
  flow_seq_map :: "string \<rightharpoonup> tcp_seq"
  uniquely_contributing_flows :: "string \<rightharpoonup> int"

definition ReconstructedChunk_new :: "bytes \<Rightarrow> int \<Rightarrow> ReconstructedChunk" where
  "ReconstructedChunk_new p_cid len = \<lparr>p_chunk_id = p_cid, lcb = [], rc_length = len,
     flow_seq_map = Map.empty, uniquely_contributing_flows = Map.empty\<rparr>"

definition ReconstructedChunk_copy :: "ReconstructedChunk \<Rightarrow> ReconstructedChunk" where
  "ReconstructedChunk_copy c = \<lparr>p_chunk_id = p_chunk_id c, lcb = lcb c,
     rc_length = rc_length c, flow_seq_map = flow_seq_map c,
     uniquely_contributing_flows = uniquely_contributing_flows c\<rparr>"

text \<open>A packet that starts before the block \<open>b\<close> the iterator is at.\<close>

definition fg_before :: "cptr \<Rightarrow> int \<Rightarrow> tcp_seq \<Rightarrow> ContiguousBlock \<Rightarrow> ContiguousBlock list \<Rightarrow> u64 \<Rightarrow>
    (ContiguousBlock list \<times> u64) option" where
  "fg_before payload size_payload normalized_seq_num b bs dup =
     (if normalized_seq_num + word_of_int size_payload = starting_seq_number b then do {
        b' \<leftarrow> cb_prepend payload size_payload normalized_seq_num b;
        Some (b' # bs, dup)
      }
      else if normalized_seq_num + word_of_int size_payload < starting_seq_number b then do {
        p_cb \<leftarrow> cb_append payload size_payload normalized_seq_num ContiguousBlock_new;
        Some (p_cb # b # bs, dup)
      }
      else if normalized_seq_num + word_of_int size_payload \<le> next_expected_seq_number b then do {
        let dup' = dup + word_of_int size_payload - ucast (starting_seq_number b - normalized_seq_num);
        b' \<leftarrow> cb_prepend payload (sint (starting_seq_number b - normalized_seq_num))
                normalized_seq_num b;
        Some (b' # bs, dup')
      }
      else do {
        let dup' = dup + word_of_int size_payload - ucast (starting_seq_number b - normalized_seq_num);
        b' \<leftarrow> cb_prepend payload (sint (starting_seq_number b - normalized_seq_num))
                normalized_seq_num b;
        Some (b' # bs, dup')
      })"

text \<open>The inner \<^verbatim>\<open>while\<close> loop: \<open>b\<close> has grown, the blocks after it that it reaches are absorbed.
  The loop ends at the first one that reaches further than \<open>b\<close>.\<close>

fun fg_merge :: "ContiguousBlock \<Rightarrow> ContiguousBlock list \<Rightarrow> u64 \<Rightarrow>
    (ContiguousBlock \<times> ContiguousBlock list \<times> u64) option" where
  "fg_merge b [] dup = Some (b, [], dup)"
| "fg_merge b (c # cs) dup =
     (if starting_seq_number c \<le> next_expected_seq_number b then
        if next_expected_seq_number b < next_expected_seq_number c then do {
          let dup' = dup + ucast (next_expected_seq_number b) - ucast (starting_seq_number c);
          b' \<leftarrow> overlapping_append (p_s_contiguous_block c)
                  (next_expected_seq_number b - starting_seq_number c)
                  (next_expected_seq_number c) b;
          Some (b', cs, dup')
        }
        else fg_merge b cs
               (dup + ucast (next_expected_seq_number c) - ucast (starting_seq_number c))
      else Some (b, c # cs, dup))"

text \<open>A packet that starts inside \<open>b\<close> or right after it; the last component is \<^verbatim>\<open>b_duplicate\<close>.\<close>

definition fg_within :: "cptr \<Rightarrow> int \<Rightarrow> tcp_seq \<Rightarrow> ContiguousBlock \<Rightarrow> ContiguousBlock list \<Rightarrow> u64 \<Rightarrow>
    (ContiguousBlock list \<times> u64 \<times> bool) option" where
  "fg_within payload size_payload normalized_seq_num b bs dup =
     (if next_expected_seq_number b < normalized_seq_num + word_of_int size_payload then do {
        p_s \<leftarrow> load payload 0 size_payload;
        let dup' = dup + ucast (next_expected_seq_number b) - ucast normalized_seq_num;
        b' \<leftarrow> overlapping_append p_s (next_expected_seq_number b - normalized_seq_num)
                (normalized_seq_num + word_of_int size_payload) b;
        (b'', bs', dup'') \<leftarrow> fg_merge b' bs dup';
        Some (b'' # bs', dup'', False)
      }
      else Some (b # bs, dup + word_of_int size_payload, True))"

text \<open>The \<^verbatim>\<open>for\<close> loop over \<^verbatim>\<open>lcb\<close>; running off its end is \<^verbatim>\<open>!bDone\<close>.\<close>

fun fg_loop :: "cptr \<Rightarrow> int \<Rightarrow> tcp_seq \<Rightarrow> ContiguousBlock list \<Rightarrow> u64 \<Rightarrow>
    (ContiguousBlock list \<times> u64 \<times> bool) option" where
  "fg_loop payload size_payload normalized_seq_num [] dup = do {
     p_cb \<leftarrow> cb_append payload size_payload normalized_seq_num ContiguousBlock_new;
     Some ([p_cb], dup, False)
   }"
| "fg_loop payload size_payload normalized_seq_num (b # bs) dup =
     (if normalized_seq_num < starting_seq_number b then do {
        (bs', dup') \<leftarrow> fg_before payload size_payload normalized_seq_num b bs dup;
        Some (bs', dup', False)
      }
      else if starting_seq_number b \<le> normalized_seq_num \<and>
              normalized_seq_num \<le> next_expected_seq_number b then
        fg_within payload size_payload normalized_seq_num b bs dup
      else do {
        (bs', dup', b_duplicate) \<leftarrow> fg_loop payload size_payload normalized_seq_num bs dup;
        Some (b # bs', dup', b_duplicate)
      })"

text \<open>\<^verbatim>\<open>fill_gaps_in_chunk\<close>. Its parameter \<^verbatim>\<open>pFid\<close> is not used. After the loop the list is not
  empty, so \<^verbatim>\<open>*lcb.begin()\<close> is its first block; \<^verbatim>\<open>size() >= (unsigned int) length\<close> converts a
  negative length.\<close>

definition fg_finish :: "string \<Rightarrow> bool \<Rightarrow> ReconstructedChunk \<Rightarrow> (bool \<times> ReconstructedChunk) option"
  where
  "fg_finish fid b_duplicate rc =
     (if \<not> b_duplicate then
        let rc' = rc\<lparr>uniquely_contributing_flows :=
                      (if fid \<in> dom (uniquely_contributing_flows rc)
                       then uniquely_contributing_flows rc
                       else (uniquely_contributing_flows rc)(fid \<mapsto> 0))\<rparr>
        in case lcb rc' of
             [] \<Rightarrow> None
           | b # _ \<Rightarrow>
               Some (unat (word_of_int (rc_length rc') :: u32) \<le> length (p_s_contiguous_block b),
                     rc')
      else Some (False, rc))"

definition fill_gaps_in_chunk :: "string \<Rightarrow> cptr \<Rightarrow> int \<Rightarrow> tcp_seq \<Rightarrow> ReconstructedChunk \<Rightarrow> u64 \<Rightarrow>
    (bool \<times> ReconstructedChunk \<times> u64) option" where
  "fill_gaps_in_chunk fid payload size_payload seq_num rc dup =
     (case flow_seq_map rc fid of
        None \<Rightarrow> Some (False, rc, dup)
      | Some start \<Rightarrow> do {
          (bs, dup', b_duplicate) \<leftarrow>
            fg_loop payload size_payload (seq_num - start) (lcb rc) dup;
          (done, rc') \<leftarrow> fg_finish fid b_duplicate (rc\<lparr>lcb := bs\<rparr>);
          Some (done, rc', dup')
        })"

text \<open>\<^verbatim>\<open>get_data\<close>: \<^verbatim>\<open>*lcb.begin()\<close> of an empty list is undefined; the pointer returned is to the
  bytes of the first block.\<close>

definition get_data :: "ReconstructedChunk \<Rightarrow> cptr option" where
  "get_data rc = (case lcb rc of [] \<Rightarrow> None | b # _ \<Rightarrow> Some (c_str (p_s_contiguous_block b)))"

section \<open>Block lists laid over the bytes of a chunk\<close>

definition block_ok :: "bytes \<Rightarrow> ContiguousBlock \<Rightarrow> bool" where
  "block_ok D b \<longleftrightarrow> \<not> bInit b \<and>
     unat (starting_seq_number b) + length (p_s_contiguous_block b) =
       unat (next_expected_seq_number b) \<and>
     unat (next_expected_seq_number b) \<le> length D \<and>
     p_s_contiguous_block b =
       slice D (unat (starting_seq_number b)) (length (p_s_contiguous_block b))"

text \<open>Blocks in order, none touching the next, the first at \<open>lo\<close> or later.\<close>

primrec well_laid :: "bytes \<Rightarrow> nat \<Rightarrow> ContiguousBlock list \<Rightarrow> bool" where
  "well_laid D lo [] = True"
| "well_laid D lo (b # bs) = (block_ok D b \<and> lo \<le> unat (starting_seq_number b) \<and>
     well_laid D (Suc (unat (next_expected_seq_number b))) bs)"

primrec covered :: "ContiguousBlock list \<Rightarrow> nat set" where
  "covered [] = {}"
| "covered (b # bs) =
     {unat (starting_seq_number b)..<unat (next_expected_seq_number b)} \<union> covered bs"

definition stored :: "ContiguousBlock list \<Rightarrow> nat" where
  "stored bs = (\<Sum>b\<leftarrow>bs. length (p_s_contiguous_block b))"

text \<open>A packet that carries the bytes \<open>n..<n + sz\<close> of the chunk.\<close>

definition segment :: "bytes \<Rightarrow> cptr \<Rightarrow> int \<Rightarrow> nat \<Rightarrow> bool" where
  "segment D p sz n \<longleftrightarrow> load p 0 sz = Some (slice D n (nat sz)) \<and> n + nat sz \<le> length D"

text \<open>How far a packet at \<open>n..<e\<close> is kept: the code drops the bytes behind the first block that
  it begins before and ends after.\<close>

abbreviation st :: "ContiguousBlock \<Rightarrow> nat" where
  "st b \<equiv> unat (starting_seq_number b)"

abbreviation nx :: "ContiguousBlock \<Rightarrow> nat" where
  "nx b \<equiv> unat (next_expected_seq_number b)"

primrec kept_end :: "nat \<Rightarrow> nat \<Rightarrow> ContiguousBlock list \<Rightarrow> nat" where
  "kept_end n e [] = e"
| "kept_end n e (b # bs) =
     (if n < st b then if nx b < e then st b else e
      else if n \<le> nx b then e else kept_end n e bs)"

definition overruns :: "nat \<Rightarrow> nat \<Rightarrow> ContiguousBlock list \<Rightarrow> bool" where
  "overruns n e bs \<longleftrightarrow> kept_end n e bs < e"

section \<open>Lemmas on the layout\<close>

lemma stored_simps [simp]: "stored [] = 0"
  "stored (b # bs) = length (p_s_contiguous_block b) + stored bs"
  by (simp_all add: stored_def)

lemma block_ok_len: "block_ok D b \<Longrightarrow> length (p_s_contiguous_block b) = nx b - st b"
  by (auto simp: block_ok_def)

lemma block_ok_le: "block_ok D b \<Longrightarrow> st b \<le> nx b" "block_ok D b \<Longrightarrow> nx b \<le> length D"
  by (auto simp: block_ok_def)

lemma well_laid_mono: "well_laid D lo bs \<Longrightarrow> lo' \<le> lo \<Longrightarrow> well_laid D lo' bs"
  by (cases bs) auto

lemma covered_member: "b \<in> set bs \<Longrightarrow> {st b..<nx b} \<subseteq> covered bs"
  by (induction bs) auto

lemma well_laid_covered: "well_laid D lo bs \<Longrightarrow> covered bs \<subseteq> {lo..<length D}"
proof (induction bs arbitrary: lo)
  case (Cons b bs)
  then have "covered bs \<subseteq> {Suc (nx b)..<length D}" by auto
  moreover from Cons.prems have "lo \<le> st b" "st b \<le> nx b" "nx b \<le> length D"
    by (auto dest: block_ok_le)
  ultimately show ?case by fastforce
qed simp

lemma stored_covered: "well_laid D lo bs \<Longrightarrow> card (covered bs) = stored bs"
proof (induction bs arbitrary: lo)
  case (Cons b bs)
  then have ok: "block_ok D b" and wl: "well_laid D (Suc (nx b)) bs" by simp_all
  from well_laid_covered [OF wl] have sub: "covered bs \<subseteq> {Suc (nx b)..<length D}" .
  then have "finite (covered bs)" by (rule finite_subset) simp
  moreover have "{st b..<nx b} \<inter> covered bs = {}" using sub by fastforce
  ultimately show ?case using Cons.IH [OF wl] ok
    by (simp add: card_Un_disjoint block_ok_len)
qed simp

lemma segment_load:
  assumes "segment D p sz n" and "k \<le> nat sz"
  shows "load p 0 (int k) = Some (slice D n k)"
proof -
  from assms(1) have ld: "load p 0 sz = Some (slice D n (nat sz))"
    by (simp add: segment_def)
  from load_nonneg [OF ld] assms(2) have "int k \<le> sz" by simp
  from load_take [OF ld _ this] assms(2) show ?thesis by (simp add: slice_simps min_def)
qed

lemma segment_size: "segment D p sz n \<Longrightarrow> 0 \<le> sz"
  by (auto simp: segment_def dest: load_nonneg)

text \<open>The end of a packet, in sequence numbers and as a position.\<close>

lemma segment_end:
  assumes "segment D p sz n" and "length D < 2 ^ 31" and "unat (q :: u32) = n"
  shows "unat (q + word_of_int sz) = n + nat sz"
proof -
  from assms(1) have "0 \<le> sz" and le: "n + nat sz \<le> length D"
    by (auto simp: segment_def dest: load_nonneg)
  moreover have "int (unat q) + sz < 2 ^ 32"
  proof -
    have "n + nat sz < 2 ^ 31" using le assms(2) by (rule le_less_trans)
    then have "int (n + nat sz) < int (2 ^ 31)" by (simp only: of_nat_less_iff)
    then show ?thesis using assms(3) \<open>0 \<le> sz\<close> by simp
  qed
  ultimately show ?thesis using unat_add_int32 [of sz q] assms(3) by simp
qed

lemma block_ok_new:
  assumes "segment D p sz n" and "length D < 2 ^ 31" and "unat q = n"
  obtains c where "cb_append p sz q ContiguousBlock_new = Some c" and "block_ok D c"
    and "st c = n" and "nx c = n + nat sz"
proof -
  from assms(1) have ld: "load p 0 sz = Some (slice D n (nat sz))"
    and le: "n + nat sz \<le> length D" by (simp_all add: segment_def)
  from load_of_nat [OF ld] have w: "(word_of_int sz :: u32) = of_nat (nat sz)"
    using le by (simp add: length_slice)
  show thesis
    by (rule that [OF iffD2 [OF cb_append_iff, OF exI, OF conjI, OF ld refl]])
       (use le assms(3) segment_end [OF assms, unfolded w] in
         \<open>simp_all add: block_ok_def ContiguousBlock_new_def length_slice\<close>)
qed

lemma block_ok_prepend:
  assumes "segment D p sz n" and "block_ok D b" and "unat q = n"
    and "n \<le> st b" and "st b \<le> n + nat sz"
  obtains b' where "cb_prepend p (int (st b - n)) q b = Some b'" and "block_ok D b'"
    and "st b' = n" and "nx b' = nx b"
proof -
  have "st b - n \<le> nat sz" using assms(5) by simp
  note ld = segment_load [OF assms(1) this]
  have "block_ok D (b\<lparr>starting_seq_number := q,
      p_s_contiguous_block := slice D n (st b - n) @ p_s_contiguous_block b, bModified := True\<rparr>)"
  proof -
    from assms(2) have eq: "p_s_contiguous_block b = slice D (st b) (nx b - st b)"
      by (metis block_ok_def block_ok_len)
    from assms(4) block_ok_le [OF assms(2)] have
      "slice D n (st b - n) @ p_s_contiguous_block b = slice D n (nx b - n)"
      unfolding eq by (intro slice_append') simp_all
    then show ?thesis
      using assms(2-4) block_ok_le [OF assms(2)]
      by (simp add: block_ok_def length_slice slice_simps)
  qed
  then show thesis
    by (intro that [OF iffD2 [OF cb_prepend_iff, OF exI, OF conjI, OF ld refl]])
       (simp_all add: assms(3))
qed

lemma block_ok_overlapping:
  assumes "block_ok D b" and "s = slice D a (e - a)" and "a \<le> nx b" and "nx b \<le> e"
    and "st b \<le> a" and "e \<le> length D" and "unat k = nx b - a" and "unat E = e"
  obtains b' where "overlapping_append s k E b = Some b'" and "block_ok D b'"
    and "st b' = st b" and "nx b' = e"
proof -
  have len: "length s = e - a" using assms(2-6) by (simp add: length_slice)
  have "p_s_contiguous_block b @ drop (unat k) s = slice D (st b) (e - st b)"
  proof -
    from assms(1) have "p_s_contiguous_block b = slice D (st b) (nx b - st b)"
      by (metis block_ok_def block_ok_len)
    then show ?thesis using assms block_ok_le [OF assms(1)]
      by (simp add: slice_simps) (intro slice_append'; simp)
  qed
  moreover have "unat k \<le> length s" using len assms(3,4,7) by simp
  ultimately show thesis
    using assms(1,4,6,8) block_ok_le [OF assms(1)]
    by (intro that [where b' = "b\<lparr>p_s_contiguous_block := slice D (st b) (e - st b),
          next_expected_seq_number := E, bModified := True\<rparr>"])
       (simp_all add: overlapping_append_def block_ok_def length_slice)
qed

lemma ucast_nat64: "ucast (w :: u32) = (of_nat (unat w) :: u64)"
  by simp

lemma fg_merge_ok:
  assumes "block_ok D b" and "well_laid D lo cs" and "st b \<le> lo"
  obtains b' cs' dup' where "fg_merge b cs dup = Some (b', cs', dup')" and "block_ok D b'"
    and "st b' = st b" and "nx b \<le> nx b'" and "well_laid D (Suc (nx b')) cs'"
    and "covered (b' # cs') = covered (b # cs)"
    and "of_nat (stored (b' # cs')) + dup' = of_nat (stored (b # cs)) + dup"
  using assms
proof (induction cs arbitrary: lo dup thesis)
  case Nil
  then show ?case by simp
next
  case (Cons c cs)
  from Cons.prems have ok: "block_ok D c" and wl: "well_laid D (Suc (nx c)) cs"
    and lo: "st b \<le> st c" by simp_all
  consider (far) "nx b < st c" | (grow) "st c \<le> nx b" "nx b < nx c"
    | (absorb) "st c \<le> nx b" "nx c \<le> nx b" by linarith
  then show ?case
  proof cases
    case far
    then show ?thesis using Cons.prems by (simp add: word_le_nat_alt)
  next
    case grow
    from ok have eq: "p_s_contiguous_block c = slice D (st c) (nx c - st c)"
      by (metis block_ok_def block_ok_len)
    have k: "unat (next_expected_seq_number b - starting_seq_number c) = nx b - st c"
      using grow(1) by (simp add: unat_sub32 word_le_nat_alt)
    obtain b' where b': "overlapping_append (p_s_contiguous_block c)
          (next_expected_seq_number b - starting_seq_number c) (next_expected_seq_number c) b
          = Some b'" "block_ok D b'" "st b' = st b" "nx b' = nx c"
      by (rule block_ok_overlapping [OF Cons.prems(2) eq _ _ lo _ k])
         (use grow block_ok_le [OF ok] in simp_all)
    define dup' where "dup' = dup + ucast (next_expected_seq_number b) -
      ucast (starting_seq_number c)"
    have m1: "fg_merge b (c # cs) dup = Some (b', cs, dup')"
      using grow b'(1) by (simp add: dup'_def word_le_nat_alt word_less_nat_alt Let_def)
    have m2: "of_nat (stored (b' # cs)) + dup' = of_nat (stored (b # c # cs)) + dup"
      using grow lo b' block_ok_le [OF Cons.prems(2)]
      by (simp add: block_ok_len [OF b'(2)] block_ok_len [OF ok] block_ok_len [OF Cons.prems(2)]
          ucast_nat64 of_nat_diff dup'_def del: of_nat_unat)
    have m3: "covered (b' # cs) = covered (b # c # cs)"
      using grow lo b' by auto
    show ?thesis
      by (rule Cons.prems(1) [OF m1 b'(2,3) _ _ m3 m2]) (use grow b' wl in simp_all)
  next
    case absorb
    have reach: "st b \<le> Suc (nx c)" using lo block_ok_le(1) [OF ok] by linarith
    obtain b' cs' dup' where r: "fg_merge b cs
          (dup + ucast (next_expected_seq_number c) - ucast (starting_seq_number c)) =
          Some (b', cs', dup')" "block_ok D b'" "st b' = st b" "nx b \<le> nx b'"
        "well_laid D (Suc (nx b')) cs'" "covered (b' # cs') = covered (b # cs)"
        "of_nat (stored (b' # cs')) + dup' = of_nat (stored (b # cs)) +
           (dup + ucast (next_expected_seq_number c) - ucast (starting_seq_number c))"
      by (rule Cons.IH [OF _ Cons.prems(2) wl reach])
    have "covered (b # cs) = covered (b # c # cs)" using absorb lo by auto
    with r(6) have "covered (b' # cs') = covered (b # c # cs)" by simp
    moreover have "of_nat (stored (b # cs)) +
        (dup + ucast (next_expected_seq_number c) - ucast (starting_seq_number c)) =
        of_nat (stored (b # c # cs)) + dup"
      using block_ok_le [OF ok]
      by (simp add: block_ok_len [OF ok] ucast_nat64 of_nat_diff del: of_nat_unat)
    with r(7) have "of_nat (stored (b' # cs')) + dup' = of_nat (stored (b # c # cs)) + dup"
      by simp
    ultimately show ?thesis using absorb r(1-5)
      by (intro Cons.prems(1) [of b' cs' dup'])
         (simp_all add: word_le_nat_alt word_less_nat_alt del: covered.simps stored_simps)
  qed
qed

text \<open>One packet: the loop returns, keeps the layout, accounts for every byte, and adds to the
  positions covered what \<open>kept_end\<close> says.\<close>

lemma fg_within_ok:
  assumes seg: "segment D p sz n" and len: "length D < 2 ^ 31" and q: "unat q = n"
    and wl: "well_laid D lo (b # bs)" and at: "st b \<le> n" "n \<le> nx b"
  obtains bs' dup' d where "fg_within p sz q b bs dup = Some (bs', dup', d)"
    and "well_laid D lo bs'" and "covered bs' = covered (b # bs) \<union> {n..<n + nat sz}"
    and "of_nat (stored bs') + dup' = of_nat (stored (b # bs)) + dup + word_of_int sz"
    and "d \<longleftrightarrow> n + nat sz \<le> nx b" and "d \<Longrightarrow> bs' = b # bs" and "bs' \<noteq> []"
proof (cases "n + nat sz \<le> nx b")
  case True
  then show thesis
    using wl at segment_end [OF seg len q]
    by (intro that [of "b # bs" "dup + word_of_int sz" True])
       (auto simp: fg_within_def word_less_nat_alt)
next
  case False
  from wl have ok: "block_ok D b" and wl': "well_laid D (Suc (nx b)) bs" and lo: "lo \<le> st b"
    by simp_all
  from seg have ld: "load p 0 sz = Some (slice D n (nat sz))" and le: "n + nat sz \<le> length D"
    by (simp_all add: segment_def)
  note E = segment_end [OF seg len q]
  have "unat (next_expected_seq_number b - q) = nx b - n"
    using at q by (simp add: unat_sub32 word_le_nat_alt)
  then obtain b' where b': "overlapping_append (slice D n (nat sz))
        (next_expected_seq_number b - q) (q + word_of_int sz) b = Some b'" "block_ok D b'"
      "st b' = st b" "nx b' = n + nat sz"
    by (rule block_ok_overlapping [OF ok _ at(2) _ at(1) le _ E, rotated 2])
       (use False in simp_all)
  have w64: "(word_of_int sz :: u64) = of_nat (nat sz)"
    using load_of_nat [OF ld] le by (simp add: length_slice)
  define dup1 where "dup1 = dup + ucast (next_expected_seq_number b) - ucast q"
  obtain b'' bs' dup' where m: "fg_merge b' bs dup1 = Some (b'', bs', dup')" "block_ok D b''"
      "st b'' = st b'" "nx b' \<le> nx b''" "well_laid D (Suc (nx b'')) bs'"
      "covered (b'' # bs') = covered (b' # bs)"
      "of_nat (stored (b'' # bs')) + dup' = of_nat (stored (b' # bs)) + dup1"
    by (rule fg_merge_ok [OF b'(2) wl']) (use b' block_ok_le [OF ok] in simp)
  have f1: "fg_within p sz q b bs dup = Some (b'' # bs', dup', False)"
    using False E b'(1) ld m(1) by (simp add: fg_within_def word_less_nat_alt dup1_def)
  have f2: "covered (b'' # bs') = covered (b # bs) \<union> {n..<n + nat sz}"
    unfolding m(6) using b'(3,4) at False by auto
  have "of_nat (stored (b' # bs)) + dup1 = of_nat (stored (b # bs)) + dup + word_of_int sz"
    using False at b' block_ok_le [OF ok] q le w64
    by (simp add: block_ok_len [OF b'(2)] block_ok_len [OF ok] ucast_nat64 of_nat_diff
        dup1_def length_slice del: of_nat_unat)
  then show thesis
    using f1 f2 m b' lo False by (intro that [of "b'' # bs'" dup' False]) simp_all
qed

lemma fg_before_ok:
  assumes seg: "segment D p sz n" and len: "length D < 2 ^ 31" and q: "unat q = n"
    and wl: "well_laid D lo (b # bs)" and lo: "lo \<le> n" and at: "n < st b"
  obtains bs' dup' where "fg_before p sz q b bs dup = Some (bs', dup')"
    and "well_laid D lo bs'"
    and "covered bs' = covered (b # bs) \<union> {n..<kept_end n (n + nat sz) (b # bs)}"
    and "of_nat (stored bs') + dup' = of_nat (stored (b # bs)) + dup + word_of_int sz"
    and "bs' \<noteq> []"
proof -
  from wl have ok: "block_ok D b" and wl': "well_laid D (Suc (nx b)) bs" by simp_all
  from seg have ld: "load p 0 sz = Some (slice D n (nat sz))" and le: "n + nat sz \<le> length D"
    by (simp_all add: segment_def)
  note E = segment_end [OF seg len q]
  have w64: "(word_of_int sz :: u64) = of_nat (nat sz)"
    using load_of_nat [OF ld] le by (simp add: length_slice)
  consider (gap) "n + nat sz < st b" | (touch) "st b \<le> n + nat sz" by linarith
  then show thesis
  proof cases
    case gap
    obtain c where c: "cb_append p sz q ContiguousBlock_new = Some c" "block_ok D c"
        "st c = n" "nx c = n + nat sz"
      by (rule block_ok_new [OF seg len q])
    have m1: "fg_before p sz q b bs dup = Some (c # b # bs, dup)"
      using gap c(1) E by (auto simp: fg_before_def word_less_nat_alt dest: arg_cong [of _ _ unat])
    have m2: "covered (c # b # bs) =
        covered (b # bs) \<union> {n..<kept_end n (n + nat sz) (b # bs)}"
      using gap at block_ok_le [OF ok] c(3,4) by auto
    have m3: "of_nat (stored (c # b # bs)) + dup =
        of_nat (stored (b # bs)) + dup + word_of_int sz"
      using c(3,4) w64 by (simp add: block_ok_len [OF c(2)])
    show thesis
      by (rule that [OF m1 _ m2 m3]) (use c gap ok wl' lo in simp_all)
  next
    case touch
    define k where "k = st b - n"
    obtain b' where b': "cb_prepend p (int k) q b = Some b'" "block_ok D b'"
        "st b' = n" "nx b' = nx b"
      unfolding k_def by (rule block_ok_prepend [OF seg ok q less_imp_le [OF at] touch])
    have sub: "unat (starting_seq_number b - q) = k"
      using at q by (simp add: unat_sub32 word_le_nat_alt k_def)
    have "k < 2 ^ 31" using touch le len by (simp add: k_def)
    with sub have si: "sint (starting_seq_number b - q) = int k"
      by (simp add: sint_small32)
    define dup' where "dup' = (if n + nat sz = st b then dup
      else dup + word_of_int sz - ucast (starting_seq_number b - q))"
    have eqk: "sz = int k" if "n + nat sz = st b"
    proof -
      from that have "nat sz = k" by (simp add: k_def)
      with segment_size [OF seg] show ?thesis by simp
    qed
    have Eb: "q + word_of_int sz = starting_seq_number b \<longleftrightarrow> n + nat sz = st b"
      using E by (metis unsigned_word_eqI)
    have m1: "fg_before p sz q b bs dup = Some (b' # bs, dup')"
    proof (cases "n + nat sz = st b")
      case True
      with b'(1) eqk have "cb_prepend p sz q b = Some b'" by simp
      with True show ?thesis by (simp add: fg_before_def Eb dup'_def)
    next
      case False
      with touch b'(1) E si show ?thesis
        by (simp add: fg_before_def Eb word_less_nat_alt dup'_def Let_def)
    qed
    have m2: "covered (b' # bs) =
        covered (b # bs) \<union> {n..<kept_end n (n + nat sz) (b # bs)}"
      using touch at b'(3,4) block_ok_le [OF ok] by auto
    have m3: "of_nat (stored (b' # bs)) + dup' =
        of_nat (stored (b # bs)) + dup + word_of_int sz"
    proof -
      have "(of_nat (nx b' - st b') :: u64) = of_nat (nx b - st b) + of_nat k"
        using at b'(3,4) block_ok_le [OF ok] by (simp add: k_def flip: of_nat_add)
      moreover have "(word_of_int sz :: u64) = of_nat k" if "n + nat sz = st b"
        using eqk [OF that] by simp
      ultimately show ?thesis
        by (simp add: block_ok_len [OF b'(2)] block_ok_len [OF ok] dup'_def ucast_nat64 sub
            del: of_nat_unat)
    qed
    show thesis
      by (rule that [OF m1 _ m2 m3]) (use b' wl' lo in simp_all)
  qed
qed

lemma fg_loop_ok:
  assumes seg: "segment D p sz n" and len: "length D < 2 ^ 31" and q: "unat q = n"
    and "well_laid D lo bs" and "lo \<le> n"
  obtains bs' dup' d where "fg_loop p sz q bs dup = Some (bs', dup', d)"
    and "well_laid D lo bs'"
    and "covered bs' = covered bs \<union> {n..<kept_end n (n + nat sz) bs}"
    and "of_nat (stored bs') + dup' = of_nat (stored bs) + dup + word_of_int sz"
    and "d \<longleftrightarrow> (\<exists>b \<in> set bs. st b \<le> n \<and> n + nat sz \<le> nx b)" and "d \<Longrightarrow> bs' = bs"
    and "bs' \<noteq> []"
  using assms(4,5)
proof (induction bs arbitrary: lo thesis)
  case Nil
  obtain c where c: "cb_append p sz q ContiguousBlock_new = Some c" "block_ok D c"
      "st c = n" "nx c = n + nat sz"
    by (rule block_ok_new [OF seg len q])
  have "(word_of_int sz :: u64) = of_nat (nat sz)"
    using seg by (auto simp: segment_def length_slice dest: load_of_nat)
  then show ?case using c Nil(3)
    by (intro Nil(1) [of "[c]" dup False]) (simp_all add: block_ok_len [OF c(2)])
next
  case (Cons b bs)
  from Cons.prems have ok: "block_ok D b" and wl: "well_laid D (Suc (nx b)) bs"
    and lo: "lo \<le> st b" by simp_all
  have after: "st c > nx b" if "c \<in> set bs" for c
    using wl that by (induction bs arbitrary: b) (auto dest: block_ok_le, fastforce dest: block_ok_le)
  consider (before) "n < st b" | (within) "st b \<le> n" "n \<le> nx b" | (behind) "nx b < n"
    using block_ok_le [OF ok] by linarith
  then show ?case
  proof cases
    case before
    obtain bs' dup' where r: "fg_before p sz q b bs dup = Some (bs', dup')" "well_laid D lo bs'"
        "covered bs' = covered (b # bs) \<union> {n..<kept_end n (n + nat sz) (b # bs)}"
        "of_nat (stored bs') + dup' = of_nat (stored (b # bs)) + dup + word_of_int sz"
        "bs' \<noteq> []"
      by (rule fg_before_ok [OF seg len q Cons.prems(2,3) before])
    have m1: "\<not> (\<exists>c \<in> set (b # bs). st c \<le> n \<and> n + nat sz \<le> nx c)"
      using before after block_ok_le [OF ok] by fastforce
    have m2: "fg_loop p sz q (b # bs) dup = Some (bs', dup', False)"
      using before q r(1) by (simp add: word_less_nat_alt)
    show ?thesis by (rule Cons.prems(1) [OF m2 r(2-4) _ _ r(5)]) (use m1 in blast)+
  next
    case within
    obtain bs' dup' d where r: "fg_within p sz q b bs dup = Some (bs', dup', d)"
        "well_laid D lo bs'" "covered bs' = covered (b # bs) \<union> {n..<n + nat sz}"
        "of_nat (stored bs') + dup' = of_nat (stored (b # bs)) + dup + word_of_int sz"
        "d \<longleftrightarrow> n + nat sz \<le> nx b" "d \<Longrightarrow> bs' = b # bs" "bs' \<noteq> []"
      by (rule fg_within_ok [OF seg len q Cons.prems(2) within]) blast
    have m1: "fg_loop p sz q (b # bs) dup = Some (bs', dup', d)"
      using within q r(1) by (simp add: word_less_nat_alt word_le_nat_alt)
    have m2: "d \<longleftrightarrow> (\<exists>c \<in> set (b # bs). st c \<le> n \<and> n + nat sz \<le> nx c)"
      using r(5) within after by fastforce
    show ?thesis
      by (rule Cons.prems(1) [OF m1 r(2) _ r(4) m2 r(6,7)]) (use within r(3) in simp_all)
  next
    case behind
    obtain bs' dup' d where r: "fg_loop p sz q bs dup = Some (bs', dup', d)"
        "well_laid D (Suc (nx b)) bs'"
        "covered bs' = covered bs \<union> {n..<kept_end n (n + nat sz) bs}"
        "of_nat (stored bs') + dup' = of_nat (stored bs) + dup + word_of_int sz"
        "d \<longleftrightarrow> (\<exists>b \<in> set bs. st b \<le> n \<and> n + nat sz \<le> nx b)" "d \<Longrightarrow> bs' = bs" "bs' \<noteq> []"
      by (rule Cons.IH [OF _ wl Suc_leI [OF behind]]) blast
    have "fg_loop p sz q (b # bs) dup = Some (b # bs', dup', d)"
      using behind q r(1) block_ok_le [OF ok] by (auto simp: word_less_nat_alt word_le_nat_alt)
    then show ?thesis
      using behind r block_ok_le [OF ok] ok lo
      by (intro Cons.prems(1) [of "b # bs'" dup' d]) (auto simp: add.assoc)
  qed
qed

lemma fg_finish_frame:
  "fg_finish fid d rc = Some (fin, rc') \<Longrightarrow> lcb rc' = lcb rc \<and> p_chunk_id rc' = p_chunk_id rc \<and>
     rc_length rc' = rc_length rc \<and> flow_seq_map rc' = flow_seq_map rc"
  by (cases d) (auto simp: fg_finish_def Let_def split: list.splits)

lemma fill_gaps_frame:
  assumes "fill_gaps_in_chunk fid p sz seq rc dup = Some (fin, rc', dup')"
  shows "p_chunk_id rc' = p_chunk_id rc" and "rc_length rc' = rc_length rc"
    and "flow_seq_map rc' = flow_seq_map rc"
    and "lcb rc' = lcb rc \<or> (\<exists>q d. fg_loop p sz q (lcb rc) dup = Some (lcb rc', dup', d))"
  using assms
  by (auto simp: fill_gaps_in_chunk_def bind_eq_Some_conv dest!: fg_finish_frame
      split: option.splits)

section \<open>Blocks keep their span, and no read leaves its buffer\<close>

text \<open>These hold for every packet and every list of blocks whose ends are their starts plus their
  sizes, whatever wraps.\<close>

definition all_span :: "ContiguousBlock list \<Rightarrow> bool" where
  "all_span bs \<longleftrightarrow> (\<forall>b \<in> set bs. spans b)"

lemma all_span_simps [simp]: "all_span []" "all_span (b # bs) \<longleftrightarrow> spans b \<and> all_span bs"
  by (simp_all add: all_span_def)

lemma span_length:
  assumes "spans c" and "starting_seq_number c \<le> a" and "a \<le> next_expected_seq_number c"
  shows "unat (a - starting_seq_number c) \<le> length (p_s_contiguous_block c)"
proof -
  have "next_expected_seq_number c - starting_seq_number c =
      of_nat (length (p_s_contiguous_block c))"
    using assms(1) by (simp add: spans_def)
  then have "unat (next_expected_seq_number c - starting_seq_number c) \<le>
      length (p_s_contiguous_block c)"
    by (simp add: unat_of_nat take_bit_nat_less_eq_self)
  moreover have "unat (a - starting_seq_number c) \<le>
      unat (next_expected_seq_number c - starting_seq_number c)"
    using assms(2,3) by (simp add: unat_sub32 word_le_nat_alt)
  ultimately show ?thesis by simp
qed

lemma fg_merge_spans:
  assumes "spans b" and "all_span cs"
  shows "\<exists>b' cs' dup'. fg_merge b cs dup = Some (b', cs', dup') \<and> spans b' \<and> all_span cs'"
  using assms
proof (induction b cs dup rule: fg_merge.induct)
  case (2 b c cs dup)
  show ?case
  proof (cases "starting_seq_number c \<le> next_expected_seq_number b \<and>
      next_expected_seq_number b < next_expected_seq_number c")
    case True
    let ?k = "next_expected_seq_number b - starting_seq_number c"
    have "unat ?k \<le> length (p_s_contiguous_block c)"
      using True 2(3) by (intro span_length) (simp_all add: less_imp_le)
    then obtain b' where b': "overlapping_append (p_s_contiguous_block c) ?k
        (next_expected_seq_number c) b = Some b'"
      by (simp add: overlapping_append_def)
    have "spans b'"
      using 2(2,3) by (intro spans_overlapping_append [OF b']) (simp_all add: spans_def)
    with True b' 2(3) show ?thesis by (simp add: Let_def)
  next
    case False
    with 2 show ?thesis by (auto simp: not_less)
  qed
qed simp

lemma fg_before_spans:
  assumes "load p 0 sz = Some bytes" and "sz < 2 ^ 31" and "spans b" and "all_span bs"
    and "q < starting_seq_number b"
  shows "\<exists>bs' dup'. fg_before p sz q b bs dup = Some (bs', dup') \<and> all_span bs'"
proof -
  let ?e = "q + word_of_int sz" and ?d = "starting_seq_number b - q"
  have sz: "0 \<le> sz" by (rule load_nonneg [OF assms(1)])
  obtain c where c: "cb_append p sz q ContiguousBlock_new = Some c" "spans c"
    using cb_append_total [OF assms(1)] spans_append_new by blast
  consider (touch) "?e = starting_seq_number b" | (gap) "?e < starting_seq_number b"
    | (over) "starting_seq_number b < ?e" by fastforce
  then show ?thesis
  proof cases
    case touch
    obtain b' where b': "cb_prepend p sz q b = Some b'"
      using cb_prepend_total [OF assms(1)] by blast
    with spans_prepend [OF b' assms(3) touch] touch assms(4) show ?thesis
      by (simp add: fg_before_def)
  next
    case gap
    with c assms(3,4) show ?thesis by (auto simp: fg_before_def)
  next
    case over
    have "unat ?d \<le> unat (word_of_int sz :: u32)"
      using over assms(5) by (intro sub_le_size32) simp_all
    moreover have "sz < 2 ^ 32" using assms(2) by simp
    ultimately have d: "unat ?d \<le> nat sz" using sz by (simp only: unat_word_of_int32)
    have "nat sz < 2 ^ 31" using assms(2) sz by (simp add: nat_less_iff)
    with d have "unat ?d < 2 ^ 31" by (rule le_less_trans)
    then have "sint ?d = int (unat ?d)" by (rule sint_small32)
    with d sz have "0 \<le> sint ?d" "sint ?d \<le> sz" by linarith+
    from load_take [OF assms(1) this] obtain b' where
      b': "cb_prepend p (sint ?d) q b = Some b'" using cb_prepend_total by blast
    have "spans b'" by (rule spans_prepend [OF b' assms(3)]) simp
    with over b' assms(4) show ?thesis by (auto simp: fg_before_def Let_def)
  qed
qed

lemma fg_within_spans:
  assumes "load p 0 sz = Some bytes" and "sz < 2 ^ 31" and "spans b" and "all_span bs"
    and "q \<le> next_expected_seq_number b"
  shows "\<exists>bs' dup' d. fg_within p sz q b bs dup = Some (bs', dup', d) \<and> all_span bs'"
proof (cases "next_expected_seq_number b < q + word_of_int sz")
  case True
  let ?k = "next_expected_seq_number b - q"
  have sz: "0 \<le> sz" by (rule load_nonneg [OF assms(1)])
  have len: "length bytes = nat sz" by (rule load_length [OF assms(1)])
  have "unat ?k \<le> unat (word_of_int sz :: u32)"
    using True assms(5) by (intro sub_le_size32) simp_all
  moreover have "sz < 2 ^ 32" using assms(2) by simp
  ultimately have k: "unat ?k \<le> length bytes" using sz len by (simp only: unat_word_of_int32)
  then obtain b' where b': "overlapping_append bytes ?k (q + word_of_int sz) b = Some b'"
    by (simp add: overlapping_append_def)
  have "spans b'"
    by (rule spans_overlapping_append [OF b' assms(3)]) (simp add: load_of_nat [OF assms(1)])
  from fg_merge_spans [OF this assms(4)] obtain b'' bs' dup' where
    "fg_merge b' bs (dup + ucast (next_expected_seq_number b) - ucast q) = Some (b'', bs', dup')"
    "spans b''" "all_span bs'" by blast
  moreover from this(1) True b' assms(1) have
    "fg_within p sz q b bs dup = Some (b'' # bs', dup', False)" by (simp add: fg_within_def Let_def)
  ultimately show ?thesis by fastforce
next
  case False
  then have "fg_within p sz q b bs dup = Some (b # bs, dup + word_of_int sz, True)"
    by (simp add: fg_within_def)
  with assms(3,4) show ?thesis by fastforce
qed

lemma fg_loop_spans:
  assumes "load p 0 sz = Some bytes" and "sz < 2 ^ 31" and "all_span bs"
  shows "\<exists>bs' dup' d. fg_loop p sz q bs dup = Some (bs', dup', d) \<and> all_span bs'"
  using assms(3)
proof (induction bs)
  case Nil
  from cb_append_total [OF assms(1)] obtain c where
    c: "cb_append p sz q ContiguousBlock_new = Some c" by blast
  then have "fg_loop p sz q [] dup = Some ([c], dup, False)" by simp
  with spans_append_new [OF c] show ?case by fastforce
next
  case (Cons b bs)
  consider (before) "q < starting_seq_number b"
    | (within) "\<not> q < starting_seq_number b" "q \<le> next_expected_seq_number b"
    | (behind) "\<not> q < starting_seq_number b" "\<not> q \<le> next_expected_seq_number b" by blast
  then show ?case
  proof cases
    case before
    with fg_before_spans [OF assms(1,2) _ _ before, of bs dup] Cons.prems show ?thesis by auto
  next
    case within
    with fg_within_spans [OF assms(1,2) _ _ within(2), of bs dup] Cons.prems show ?thesis
      by (auto simp: not_less)
  next
    case behind
    with Cons show ?thesis by auto
  qed
qed

text \<open>Whatever the call was given, if it returns the blocks still have their span.\<close>

lemma fg_within_keeps_span:
  assumes "fg_within p sz q b bs dup = Some (bs', dup', d)" and "spans b" and "all_span bs"
  shows "all_span bs'"
proof (cases "next_expected_seq_number b < q + word_of_int sz")
  case True
  with assms(1) obtain s b' b'' bs'' dup1 where s: "load p 0 sz = Some s"
    and b': "overlapping_append s (next_expected_seq_number b - q) (q + word_of_int sz) b = Some b'"
    and m: "fg_merge b' bs dup1 = Some (b'', bs'', dup')" and "bs' = b'' # bs''"
    by (auto simp: fg_within_def Let_def bind_eq_Some_conv)
  moreover have "spans b'"
    by (rule spans_overlapping_append [OF b' assms(2)]) (simp add: load_of_nat [OF s])
  from fg_merge_spans [OF this assms(3), of dup1] m have "spans b''" "all_span bs''" by auto
  ultimately show ?thesis by simp
next
  case False
  with assms show ?thesis by (auto simp: fg_within_def)
qed

lemma fg_before_keeps_span:
  "fg_before p sz q b bs dup = Some (bs', dup') \<Longrightarrow> spans b \<Longrightarrow> all_span bs \<Longrightarrow> all_span bs'"
  by (auto simp: fg_before_def Let_def bind_eq_Some_conv split: if_splits
      elim!: spans_prepend spans_append_new)

lemma fg_loop_keeps_span:
  "fg_loop p sz q bs dup = Some (bs', dup', d) \<Longrightarrow> all_span bs \<Longrightarrow> all_span bs'"
proof (induction bs arbitrary: bs' dup' d)
  case Nil
  then show ?case by (auto simp: bind_eq_Some_conv elim!: spans_append_new)
next
  case (Cons b bs)
  then show ?case
    by (auto simp: bind_eq_Some_conv split: if_splits
        dest: fg_before_keeps_span fg_within_keeps_span)
qed

lemma fill_gaps_keeps_span:
  "fill_gaps_in_chunk fid p sz seq rc dup = Some (fin, rc', dup') \<Longrightarrow> all_span (lcb rc) \<Longrightarrow>
   all_span (lcb rc')"
  by (metis fill_gaps_frame(4) fg_loop_keeps_span)

lemma fg_loop_nonempty_list: "fg_loop p sz q bs dup = Some (bs', dup', d) \<Longrightarrow> bs' \<noteq> []"
  by (cases bs) (auto simp: bind_eq_Some_conv fg_before_def fg_within_def Let_def split: if_splits)

lemma fill_gaps_total:
  assumes "load p 0 sz = Some bytes" and "sz < 2 ^ 31" and "all_span (lcb rc)"
  shows "\<exists>fin rc' dup'. fill_gaps_in_chunk fid p sz seq rc dup = Some (fin, rc', dup') \<and>
    all_span (lcb rc')"
proof (cases "flow_seq_map rc fid")
  case None
  with assms(3) show ?thesis by (auto simp: fill_gaps_in_chunk_def)
next
  case (Some start)
  from fg_loop_spans [OF assms, of "seq - start" dup] obtain bs' dup' d where
    l: "fg_loop p sz (seq - start) (lcb rc) dup = Some (bs', dup', d)" "all_span bs'" by blast
  then obtain b bs where bs': "bs' = b # bs" using fg_loop_nonempty_list by (cases bs') blast+
  obtain fin rc' where f: "fg_finish fid d (rc\<lparr>lcb := bs'\<rparr>) = Some (fin, rc')"
    by (cases d) (auto simp: fg_finish_def Let_def bs')
  with fg_finish_frame [OF f] l Some show ?thesis
    by (simp add: fill_gaps_in_chunk_def)
qed

section \<open>The chunk under reconstruction\<close>

text \<open>Every byte stored is a byte of the chunk \<open>D\<close>, at its place.\<close>

definition rebuilds :: "bytes \<Rightarrow> ReconstructedChunk \<Rightarrow> bool" where
  "rebuilds D rc \<longleftrightarrow> rc_length rc = int (length D) \<and> length D < 2 ^ 31 \<and> well_laid D 0 (lcb rc)"

definition received :: "ReconstructedChunk \<Rightarrow> nat set" where
  "received rc = covered (lcb rc)"

lemma rebuilds_new: "length D < 2 ^ 31 \<Longrightarrow> rebuilds D (ReconstructedChunk_new cid (int (length D)))"
  by (simp add: rebuilds_def ReconstructedChunk_new_def)

lemma first_block_full:
  assumes "well_laid D 0 (b # bs)" and "D \<noteq> []"
  shows "length D \<le> length (p_s_contiguous_block b) \<longleftrightarrow> covered (b # bs) = {..<length D}"
    and "length D \<le> length (p_s_contiguous_block b) \<Longrightarrow> p_s_contiguous_block b = D"
proof -
  from assms have ok: "block_ok D b" and wl: "well_laid D (Suc (nx b)) bs" by simp_all
  note le = block_ok_le [OF ok]
  have rest: "covered bs \<subseteq> {Suc (nx b)..<length D}" by (rule well_laid_covered [OF wl])
  have full: "st b = 0 \<and> nx b = length D" if "length D \<le> length (p_s_contiguous_block b)"
    using that le unfolding block_ok_len [OF ok] by arith
  show "p_s_contiguous_block b = D" if "length D \<le> length (p_s_contiguous_block b)"
    using full [OF that] ok by (simp add: block_ok_def slice_def) (metis take_all order_refl)
  show "length D \<le> length (p_s_contiguous_block b) \<longleftrightarrow> covered (b # bs) = {..<length D}"
  proof
    assume "length D \<le> length (p_s_contiguous_block b)"
    with full rest show "covered (b # bs) = {..<length D}" by auto
  next
    assume eq: "covered (b # bs) = {..<length D}"
    with assms(2) have "0 \<in> covered (b # bs)" by simp
    with rest have "st b = 0" by auto
    moreover have "nx b \<notin> covered (b # bs)" using rest by auto
    with eq have "length D \<le> nx b" by simp
    ultimately show "length D \<le> length (p_s_contiguous_block b)"
      by (simp add: block_ok_len [OF ok])
  qed
qed

lemma unat_length32: "n < 2 ^ 31 \<Longrightarrow> unat (of_nat n :: u32) = n"
  by (simp add: unat_of_nat take_bit_nat_eq_self)

lemma fill_gaps_ok:
  assumes rb: "rebuilds D rc" and ne: "D \<noteq> []" and fs: "flow_seq_map rc fid = Some start"
    and seg: "segment D p sz n"
  obtains fin rc' dup' where
    "fill_gaps_in_chunk fid p sz (start + of_nat n) rc dup = Some (fin, rc', dup')"
    and "rebuilds D rc'" and "flow_seq_map rc' = flow_seq_map rc" and "p_chunk_id rc' = p_chunk_id rc"
    and "received rc' = received rc \<union> {n..<kept_end n (n + nat sz) (lcb rc)}"
    and "of_nat (stored (lcb rc')) + dup' = of_nat (stored (lcb rc)) + dup + word_of_int sz"
    and "fin \<longleftrightarrow> \<not> (\<exists>b \<in> set (lcb rc). st b \<le> n \<and> n + nat sz \<le> nx b) \<and>
      received rc' = {..<length D}"
proof -
  from rb have len: "length D < 2 ^ 31" and wl: "well_laid D 0 (lcb rc)"
    and rl: "rc_length rc = int (length D)" by (simp_all add: rebuilds_def)
  from seg have "n \<le> length D" by (simp add: segment_def)
  with len have "n < 2 ^ 32" by simp
  then have q: "unat (of_nat n :: u32) = n" by (simp add: unat_of_nat take_bit_nat_eq_self)
  obtain bs' dup' d where r: "fg_loop p sz (of_nat n) (lcb rc) dup = Some (bs', dup', d)"
      "well_laid D 0 bs'"
      "covered bs' = covered (lcb rc) \<union> {n..<kept_end n (n + nat sz) (lcb rc)}"
      "of_nat (stored bs') + dup' = of_nat (stored (lcb rc)) + dup + word_of_int sz"
      "d \<longleftrightarrow> (\<exists>b \<in> set (lcb rc). st b \<le> n \<and> n + nat sz \<le> nx b)" "d \<Longrightarrow> bs' = lcb rc"
      "bs' \<noteq> []"
    by (rule fg_loop_ok [OF seg len q wl le0]) blast
  from r(7) obtain b bs where bs': "bs' = b # bs" by (cases bs') auto
  from r(2) ne have full: "length D \<le> length (p_s_contiguous_block b) \<longleftrightarrow>
      covered bs' = {..<length D}"
    unfolding bs' by (rule first_block_full)
  define rc' where "rc' = (if d then rc\<lparr>lcb := bs'\<rparr> else rc\<lparr>lcb := bs',
    uniquely_contributing_flows := (if fid \<in> dom (uniquely_contributing_flows rc)
      then uniquely_contributing_flows rc else (uniquely_contributing_flows rc)(fid \<mapsto> 0))\<rparr>)"
  define fin where "fin \<longleftrightarrow> \<not> d \<and> covered bs' = {..<length D}"
  have f: "fg_finish fid d (rc\<lparr>lcb := bs'\<rparr>) = Some (fin, rc')"
    using full by (simp add: fg_finish_def Let_def bs' rl unat_length32 [OF len] rc'_def fin_def)
  have c: "lcb rc' = bs'" "flow_seq_map rc' = flow_seq_map rc" "p_chunk_id rc' = p_chunk_id rc"
    "rc_length rc' = rc_length rc" by (simp_all add: rc'_def)
  have "fill_gaps_in_chunk fid p sz (start + of_nat n) rc dup = Some (fin, rc', dup')"
    using f r(1) by (simp add: fill_gaps_in_chunk_def fs)
  then show thesis
    by (rule that) (use c r(2-5) rl len in \<open>simp_all add: rebuilds_def received_def fin_def\<close>)
qed

lemma kept_end_le: "well_laid D lo bs \<Longrightarrow> kept_end n e bs \<le> e"
  by (induction bs arbitrary: lo) (auto dest!: block_ok_le(1))

lemma overrun_loses:
  assumes "well_laid D lo bs" and "kept_end n e bs < e"
  shows "\<exists>i \<in> {n..<e}. i \<notin> covered bs \<union> {n..<kept_end n e bs}"
  using assms
proof (induction bs arbitrary: lo)
  case (Cons b bs)
  then have wl: "well_laid D (Suc (nx b)) bs" and le: "st b \<le> nx b"
    by (auto dest: block_ok_le)
  from well_laid_covered [OF wl] have rest: "covered bs \<subseteq> {Suc (nx b)..<length D}" .
  consider (before) "n < st b" | (within) "st b \<le> n" "n \<le> nx b" | (behind) "nx b < n"
    by linarith
  then show ?case
  proof cases
    case before
    with Cons.prems(2) have k: "nx b < e" "kept_end n e (b # bs) = st b"
      by (auto split: if_splits)
    have "nx b \<notin> covered bs" using rest by auto
    with k before le show ?thesis by (intro bexI [of _ "nx b"]) auto
  next
    case within
    with Cons.prems(2) show ?thesis by simp
  next
    case behind
    with Cons.prems(2) le have "kept_end n e bs < e" by simp
    from Cons.IH [OF wl this] behind le show ?thesis by auto
  qed
qed simp

text \<open>Blocks are never empty when packets are not.\<close>

definition nonempty :: "ContiguousBlock list \<Rightarrow> bool" where
  "nonempty bs \<longleftrightarrow> (\<forall>b \<in> set bs. p_s_contiguous_block b \<noteq> [])"

lemma fg_merge_nonempty:
  "fg_merge b cs dup = Some (b', cs', dup') \<Longrightarrow> nonempty (b # cs) \<Longrightarrow> nonempty (b' # cs')"
  by (induction b cs dup rule: fg_merge.induct)
     (auto simp: nonempty_def overlapping_append_def Let_def bind_eq_Some_conv split: if_splits)

lemma fg_loop_nonempty:
  "fg_loop p sz q bs dup = Some (bs', dup', d) \<Longrightarrow> 0 < sz \<Longrightarrow> nonempty bs \<Longrightarrow> nonempty bs'"
proof (induction p sz q bs dup arbitrary: bs' dup' d rule: fg_loop.induct)
  case (1 p sz q dup)
  then show ?case
    by (auto simp: bind_eq_Some_conv cb_append_iff nonempty_def ContiguousBlock_new_def
        dest: load_length)
next
  case (2 p sz q b bs dup)
  consider (before) "q < starting_seq_number b"
    | (within) "starting_seq_number b \<le> q" "q \<le> next_expected_seq_number b"
    | (behind) "starting_seq_number b \<le> q" "next_expected_seq_number b < q" by fastforce
  then show ?case
  proof cases
    case before
    with 2 show ?thesis
      by (auto simp: bind_eq_Some_conv fg_before_def cb_append_iff cb_prepend_iff nonempty_def
          ContiguousBlock_new_def Let_def dest: load_length split: if_splits)
  next
    case within
    with 2(2-) show ?thesis
      by (auto simp: bind_eq_Some_conv fg_within_def overlapping_append_def nonempty_def Let_def
          split: if_splits dest!: fg_merge_nonempty)
  next
    case behind
    then have "\<not> q < starting_seq_number b" "\<not> q \<le> next_expected_seq_number b" by simp_all
    with 2 show ?thesis by (auto simp: bind_eq_Some_conv nonempty_def)
  qed
qed

lemma fill_gaps_nonempty:
  "fill_gaps_in_chunk fid p sz seq rc dup = Some (fin, rc', dup') \<Longrightarrow> 0 < sz \<Longrightarrow>
   nonempty (lcb rc) \<Longrightarrow> nonempty (lcb rc')"
  by (metis fill_gaps_frame(4) fg_loop_nonempty)

lemma overrun_meets:
  assumes "well_laid D lo bs" and "nonempty bs" and "kept_end n e bs < e"
  shows "n \<notin> covered bs" and "covered bs \<inter> {n..<e} \<noteq> {}"
proof -
  from assms have "n \<notin> covered bs \<and> covered bs \<inter> {n..<e} \<noteq> {}"
  proof (induction bs arbitrary: lo)
    case (Cons b bs)
    then have wl: "well_laid D (Suc (nx b)) bs" and ok: "block_ok D b" and ne: "nonempty bs"
      and "p_s_contiguous_block b \<noteq> []" by (auto simp: nonempty_def)
    with block_ok_le [OF ok] have lt: "st b < nx b"
      by (metis block_ok_len diff_is_0_eq' length_0_conv linorder_not_less)
    from well_laid_covered [OF wl] have rest: "covered bs \<subseteq> {Suc (nx b)..<length D}" .
    show ?case
    proof (cases "n < st b")
      case True
      with Cons.prems(3) have "nx b < e" by (auto split: if_splits)
      with True lt have "st b \<in> {st b..<nx b} \<inter> {n..<e}" by simp
      moreover have "n \<notin> covered bs" using rest True lt by fastforce
      ultimately show ?thesis using True by auto
    next
      case False
      with Cons.prems(3) have "nx b < n" and "kept_end n e bs < e" by (auto split: if_splits)
      with Cons.IH [OF wl ne] show ?thesis by auto
    qed
  qed simp
  then show "n \<notin> covered bs" and "covered bs \<inter> {n..<e} \<noteq> {}" by simp_all
qed

section \<open>A sequence of packets\<close>

primrec feed :: "(string \<times> cptr \<times> int \<times> tcp_seq) list \<Rightarrow> ReconstructedChunk \<Rightarrow> u64 \<Rightarrow>
    (bool list \<times> ReconstructedChunk \<times> u64) option" where
  "feed [] rc dup = Some ([], rc, dup)"
| "feed (x # xs) rc dup = (case x of (fid, p, sz, seq) \<Rightarrow> do {
     (fin, rc1, dup1) \<leftarrow> fill_gaps_in_chunk fid p sz seq rc dup;
     (fins, rc2, dup2) \<leftarrow> feed xs rc1 dup1;
     Some (fin # fins, rc2, dup2)
   })"

text \<open>A packet of a flow in \<open>m\<close> that carries bytes of \<open>D\<close> at the place its sequence number says;
  \<open>range_of\<close> reads that place off.\<close>

definition carries :: "bytes \<Rightarrow> (string \<rightharpoonup> tcp_seq) \<Rightarrow> string \<times> cptr \<times> int \<times> tcp_seq \<Rightarrow> bool" where
  "carries D m x = (case x of (fid, p, sz, seq) \<Rightarrow>
     (case m fid of None \<Rightarrow> False
      | Some start \<Rightarrow> 0 < sz \<and> segment D p sz (unat (seq - start))))"

definition range_of :: "(string \<rightharpoonup> tcp_seq) \<Rightarrow> string \<times> cptr \<times> int \<times> tcp_seq \<Rightarrow> nat set" where
  "range_of m x = (case x of (fid, p, sz, seq) \<Rightarrow>
     (case m fid of None \<Rightarrow> {}
      | Some start \<Rightarrow> {unat (seq - start)..<unat (seq - start) + nat sz}))"

text \<open>The call that reports completion is the one that adds the last missing byte.\<close>

lemma fill_gaps_refines:
  assumes rb: "rebuilds D rc" and ne: "D \<noteq> []" and fs: "flow_seq_map rc fid = Some start"
    and seg: "segment D p sz (unat (seq - start))"
  obtains fin rc' dup' where "fill_gaps_in_chunk fid p sz seq rc dup = Some (fin, rc', dup')"
    and "rebuilds D rc'" and "flow_seq_map rc' = flow_seq_map rc"
    and "p_chunk_id rc' = p_chunk_id rc"
    and "received rc' = received rc \<union>
      {unat (seq - start)..<kept_end (unat (seq - start)) (unat (seq - start) + nat sz) (lcb rc)}"
    and "of_nat (stored (lcb rc')) + dup' = of_nat (stored (lcb rc)) + dup + word_of_int sz"
    and "fin \<longleftrightarrow> received rc \<noteq> {..<length D} \<and> received rc' = {..<length D}"
proof -
  let ?n = "unat (seq - start)"
  have "start + of_nat ?n = seq" by simp
  then obtain fin rc' dup' where
    r: "fill_gaps_in_chunk fid p sz seq rc dup = Some (fin, rc', dup')" "rebuilds D rc'"
      "flow_seq_map rc' = flow_seq_map rc" "p_chunk_id rc' = p_chunk_id rc"
      "received rc' = received rc \<union> {?n..<kept_end ?n (?n + nat sz) (lcb rc)}"
      "of_nat (stored (lcb rc')) + dup' = of_nat (stored (lcb rc)) + dup + word_of_int sz"
      "fin \<longleftrightarrow> \<not> (\<exists>b \<in> set (lcb rc). st b \<le> ?n \<and> ?n + nat sz \<le> nx b) \<and>
         received rc' = {..<length D}"
    using fill_gaps_ok [OF rb ne fs seg, of dup] by metis
  let ?dup = "\<exists>b \<in> set (lcb rc). st b \<le> ?n \<and> ?n + nat sz \<le> nx b"
  have wl: "well_laid D 0 (lcb rc)" using rb by (simp add: rebuilds_def)
  have full: ?dup if "received rc = {..<length D}"
  proof -
    from that ne obtain b bs where bs: "lcb rc = b # bs"
      by (cases "lcb rc") (auto simp: received_def)
    with wl have wb: "well_laid D 0 (b # bs)" by simp
    from first_block_full [OF wb ne] that bs
    have len: "length D \<le> length (p_s_contiguous_block b)" by (simp add: received_def)
    from wb have ok: "block_ok D b" by simp
    from len block_ok_le [OF ok] have "st b = 0" "nx b = length D"
      unfolding block_ok_len [OF ok] by arith+
    then show ?thesis using seg bs by (simp add: segment_def)
  qed
  moreover have "received rc' = received rc" if ?dup
  proof -
    from that have "{?n..<kept_end ?n (?n + nat sz) (lcb rc)} \<subseteq> received rc"
    proof -
      from that obtain b where b: "b \<in> set (lcb rc)" "st b \<le> ?n" "?n + nat sz \<le> nx b" by blast
      have "{st b..<nx b} \<subseteq> covered (lcb rc)" using b(1) by (rule covered_member)
      moreover have "kept_end ?n (?n + nat sz) (lcb rc) \<le> nx b"
        using kept_end_le [OF wl] b(3) by (rule order_trans)
      ultimately show ?thesis using b(2) by (auto simp: received_def subset_iff)
    qed
    with r(5) show ?thesis by blast
  qed
  ultimately have "fin \<longleftrightarrow> received rc \<noteq> {..<length D} \<and> received rc' = {..<length D}"
    using r(7) by metis
  with r(1-6) show thesis by (intro that) 
qed

lemma complete_get_data:
  assumes "rebuilds D rc" and "D \<noteq> []" and "received rc = {..<length D}"
  shows "get_data rc = Some (c_str D)"
proof -
  from assms(2,3) obtain b bs where bs: "lcb rc = b # bs"
    by (cases "lcb rc") (auto simp: received_def)
  with assms(1) have wl: "well_laid D 0 (b # bs)" by (simp add: rebuilds_def)
  from first_block_full [OF wl assms(2)] assms(3) bs have "p_s_contiguous_block b = D"
    by (simp add: received_def)
  with bs show ?thesis by (simp add: get_data_def)
qed

lemma complete_data:
  assumes "rebuilds D rc" and "D \<noteq> []" and "received rc = {..<length D}"
  obtains q where "get_data rc = Some q" and "load q 0 (int (length D)) = Some D"
  using complete_get_data [OF assms] by (simp add: load_c_str)

lemma aligned_no_overrun:
  assumes rb: "rebuilds D rc" and ne: "nonempty (lcb rc)" and nz: "0 < nat sz"
    and un: "received rc = \<Union> R"
    and al: "\<And>r. r \<in> R \<Longrightarrow> r = {n..<n + nat sz} \<or> r \<inter> {n..<n + nat sz} = {}"
  shows "kept_end n (n + nat sz) (lcb rc) = n + nat sz"
proof (rule ccontr)
  assume "\<not> ?thesis"
  moreover from rb have wl: "well_laid D 0 (lcb rc)" by (simp add: rebuilds_def)
  ultimately have "kept_end n (n + nat sz) (lcb rc) < n + nat sz"
    using kept_end_le [OF wl, of n "n + nat sz"] by simp
  from overrun_meets [OF wl ne this] un al nz show False
    by (fastforce simp: received_def)
qed

lemma feed_aligned:
  assumes "rebuilds D rc" and "D \<noteq> []" and "nonempty (lcb rc)"
    and "received rc = \<Union> R" and "flow_seq_map rc = m"
    and "\<And>x. x \<in> set pkts \<Longrightarrow> carries D m x"
    and "\<And>r s. r \<in> R \<union> range_of m ` set pkts \<Longrightarrow> s \<in> R \<union> range_of m ` set pkts \<Longrightarrow>
      r = s \<or> r \<inter> s = {}"
  obtains fins rc' dup' where "feed pkts rc dup = Some (fins, rc', dup')" and "rebuilds D rc'"
    and "received rc' = received rc \<union> \<Union> (range_of m ` set pkts)"
    and "count_list fins True =
      (if received rc \<noteq> {..<length D} \<and> received rc' = {..<length D} then 1 else 0)"
  using assms(1,3-)
proof (induction pkts arbitrary: rc dup R thesis)
  case Nil
  then show ?case by simp
next
  case (Cons x xs)
  obtain fid p sz seq where x: "x = (fid, p, sz, seq)" by (cases x)
  from Cons.prems(6) [of x] x Cons.prems(5) obtain start where
    fs: "flow_seq_map rc fid = Some start" and sz: "0 < sz"
    and seg: "segment D p sz (unat (seq - start))"
    by (auto simp: carries_def split: option.splits)
  let ?n = "unat (seq - start)"
  have rx: "range_of m x = {?n..<?n + nat sz}"
    using fs Cons.prems(5) x by (simp add: range_of_def)
  obtain fin rc1 dup1 where r: "fill_gaps_in_chunk fid p sz seq rc dup = Some (fin, rc1, dup1)"
      "rebuilds D rc1" "flow_seq_map rc1 = flow_seq_map rc"
      "received rc1 = received rc \<union> {?n..<kept_end ?n (?n + nat sz) (lcb rc)}"
      "fin \<longleftrightarrow> received rc \<noteq> {..<length D} \<and> received rc1 = {..<length D}"
    by (rule fill_gaps_refines [OF Cons.prems(2) assms(2) fs seg, of dup])
  have "kept_end ?n (?n + nat sz) (lcb rc) = ?n + nat sz"
    by (rule aligned_no_overrun [OF Cons.prems(2,3) _ Cons.prems(4)])
       (use sz Cons.prems(7) rx in auto)
  with r(4) rx have rec: "received rc1 = received rc \<union> range_of m x" by simp
  then have un: "received rc1 = \<Union> (insert (range_of m x) R)" using Cons.prems(4) by auto
  have ne: "nonempty (lcb rc1)"
    by (rule fill_gaps_nonempty [OF r(1) sz Cons.prems(3)])
  have sub: "received rc1 \<subseteq> {..<length D}"
    using r(2) well_laid_covered [of D 0 "lcb rc1"] by (auto simp: rebuilds_def received_def)
  obtain fins rc' dup' where f: "feed xs rc1 dup1 = Some (fins, rc', dup')" "rebuilds D rc'"
      "received rc' = received rc1 \<union> \<Union> (range_of m ` set xs)"
      "count_list fins True =
        (if received rc1 \<noteq> {..<length D} \<and> received rc' = {..<length D} then 1 else 0)"
    by (rule Cons.IH [OF _ r(2) ne un, of dup1])
       (use r(3) Cons.prems(5,6,7) in \<open>auto 0 3\<close>)
  have sub': "received rc' \<subseteq> {..<length D}"
    using f(2) well_laid_covered [of D 0 "lcb rc'"] by (auto simp: rebuilds_def received_def)
  have m1: "received rc = {..<length D} \<Longrightarrow> received rc1 = {..<length D}"
    and m2: "received rc1 = {..<length D} \<Longrightarrow> received rc' = {..<length D}"
    using rec f(3) sub sub' by blast+
  have c: "count_list (fin # fins) True =
      (if received rc \<noteq> {..<length D} \<and> received rc' = {..<length D} then 1 else 0)"
    using m1 m2 f(4) r(5)
    by (cases "received rc = {..<length D}"; cases "received rc1 = {..<length D}") simp_all
  have e: "feed (x # xs) rc dup = Some (fin # fins, rc', dup')"
    using r(1) f(1) by (simp add: x)
  have u: "received rc' = received rc \<union> \<Union> (range_of m ` set (x # xs))"
    using f(3) rec by auto
  show ?case by (rule Cons.prems(1) [OF e f(2) u c])
qed

section \<open>Properties\<close>

text \<open>C3. A packet of a known flow whose bytes are bytes of the chunk: the call returns, every byte
  it stores is the chunk's byte at that place, the positions covered grow by the packet's up to
  \<open>kept_end\<close>, each byte of the packet is either stored or counted as a duplicate, and the call
  answers "complete" exactly when this packet made the chunk complete; the data handed out is
  then the whole chunk.\<close>

theorem fill_gaps_in_chunk_correct:
  assumes "rebuilds D rc" and "D \<noteq> []" and "flow_seq_map rc fid = Some start"
    and "segment D p sz (unat (seq - start))"
  shows "\<exists>fin rc' dup'. fill_gaps_in_chunk fid p sz seq rc dup = Some (fin, rc', dup') \<and>
    rebuilds D rc' \<and>
    received rc' = received rc \<union>
      {unat (seq - start)..<kept_end (unat (seq - start)) (unat (seq - start) + nat sz) (lcb rc)} \<and>
    of_nat (stored (lcb rc')) + dup' = of_nat (stored (lcb rc)) + dup + word_of_int sz \<and>
    fin = (received rc \<noteq> {..<length D} \<and> received rc' = {..<length D}) \<and>
    (fin \<longrightarrow> (\<exists>q. get_data rc' = Some q \<and> load q 0 (int (length D)) = Some D))"
proof -
  obtain fin rc' dup' where r: "fill_gaps_in_chunk fid p sz seq rc dup = Some (fin, rc', dup')"
    "rebuilds D rc'" "received rc' = received rc \<union>
      {unat (seq - start)..<kept_end (unat (seq - start)) (unat (seq - start) + nat sz) (lcb rc)}"
    "of_nat (stored (lcb rc')) + dup' = of_nat (stored (lcb rc)) + dup + word_of_int sz"
    "fin = (received rc \<noteq> {..<length D} \<and> received rc' = {..<length D})"
    by (rule fill_gaps_refines [OF assms, of dup])
  moreover have "fin \<longrightarrow> (\<exists>q. get_data rc' = Some q \<and> load q 0 (int (length D)) = Some D)"
    using complete_data [OF r(2) assms(2)] r(5) by metis
  ultimately show ?thesis by blast
qed

lemma fill_gaps_in_chunk_correct_witness:
  "\<exists>fin rc' dup'. fill_gaps_in_chunk ''f'' ([3, 4], 0) 2 102
      ((ReconstructedChunk_new [9] 4)\<lparr>flow_seq_map := [''f'' \<mapsto> 100]\<rparr>) 0 = Some (fin, rc', dup') \<and>
    received rc' = {2..<4} \<and> \<not> fin"
proof -
  let ?rc = "(ReconstructedChunk_new [9] 4)\<lparr>flow_seq_map := [''f'' \<mapsto> 100]\<rparr>"
  have rb: "rebuilds [1, 2, 3, 4] ?rc" by (simp add: rebuilds_def ReconstructedChunk_new_def)
  have fs: "flow_seq_map ?rc ''f'' = Some 100" by simp
  have seg: "segment [1, 2, 3, 4] ([3, 4], 0) 2 (unat (102 - 100 :: 32 word))"
    by (simp add: segment_def load_def slice_def)
  have rc: "received ?rc = {}" "lcb ?rc = []"
    by (simp_all add: received_def ReconstructedChunk_new_def)
  from fill_gaps_in_chunk_correct [OF rb list.distinct(2) fs seg, of 0]
  obtain fin rc' dup' where
    f: "fill_gaps_in_chunk ''f'' ([3, 4], 0) 2 102 ?rc 0 = Some (fin, rc', dup')"
    and r: "received rc' = received ?rc \<union> {unat (102 - 100 :: 32 word)..<
        kept_end (unat (102 - 100 :: 32 word)) (unat (102 - 100 :: 32 word) + nat 2) (lcb ?rc)}"
    and "fin = (received ?rc \<noteq> {..<length [1, 2, 3, 4 :: byte]} \<and>
      received rc' = {..<length [1, 2, 3, 4 :: byte]})" by blast
  moreover have "received rc' = {2..<4}" using r by (simp add: rc)
  moreover have "(0 :: nat) \<notin> {2..<4}" "(0 :: nat) \<in> {..<length [1, 2, 3, 4 :: byte]}"
    by simp_all
  ultimately show ?thesis by metis
qed

text \<open>C16. Any sequence of packets, of any number of flows, in any order, with retransmissions, in
  which two packets carry the same range or disjoint ranges: no call fails, the positions
  received are exactly those the packets carry, and completion is reported once if the packets
  carry the whole chunk and never otherwise.\<close>

theorem feed_any_order:
  assumes "D \<noteq> []" and "length D < 2 ^ 31"
    and "\<forall>x \<in> set pkts. carries D m x"
    and "\<forall>x \<in> set pkts. \<forall>y \<in> set pkts. range_of m x = range_of m y \<or> range_of m x \<inter> range_of m y = {}"
  shows "\<exists>fins rc' dup'.
    feed pkts ((ReconstructedChunk_new cid (int (length D)))\<lparr>flow_seq_map := m\<rparr>) dup =
      Some (fins, rc', dup') \<and> rebuilds D rc' \<and>
    received rc' = \<Union> (range_of m ` set pkts) \<and>
    count_list fins True = (if \<Union> (range_of m ` set pkts) = {..<length D} then 1 else 0)"
proof -
  let ?rc = "(ReconstructedChunk_new cid (int (length D)))\<lparr>flow_seq_map := m\<rparr>"
  have "rebuilds D ?rc" "nonempty (lcb ?rc)" "received ?rc = \<Union> {}" "flow_seq_map ?rc = m"
    using assms(2)
    by (simp_all add: rebuilds_def ReconstructedChunk_new_def nonempty_def received_def)
  note rc = this
  have al: "r = s \<or> r \<inter> s = {}"
    if "r \<in> {} \<union> range_of m ` set pkts" "s \<in> {} \<union> range_of m ` set pkts" for r s
    using that assms(4) by blast
  have ca: "\<And>x. x \<in> set pkts \<Longrightarrow> carries D m x" using assms(3) by blast
  obtain fins rc' dup' where "feed pkts ?rc dup = Some (fins, rc', dup')" "rebuilds D rc'"
    "received rc' = received ?rc \<union> \<Union> (range_of m ` set pkts)"
    "count_list fins True =
      (if received ?rc \<noteq> {..<length D} \<and> received rc' = {..<length D} then 1 else 0)"
    by (rule feed_aligned [OF rc(1) assms(1) rc(2-4) ca al])
  moreover have "received ?rc = {}" "{..<length D} \<noteq> {}"
    using assms(1) by (auto simp: received_def ReconstructedChunk_new_def)
  ultimately show ?thesis by (intro exI [of _ fins] exI [of _ rc'] exI [of _ dup']) auto
qed

lemma feed_any_order_witness:
  "\<exists>fins rc' dup'.
    feed [(''f'', ([3, 4], 0), 2, 102), (''g'', ([1, 2], 0), 2, 200), (''g'', ([3, 4], 0), 2, 202)]
      ((ReconstructedChunk_new [9] (int (length [1, 2, 3, 4 :: byte])))
        \<lparr>flow_seq_map := [''f'' \<mapsto> 100, ''g'' \<mapsto> 200]\<rparr>) 0 = Some (fins, rc', dup') \<and>
    received rc' = {..<4} \<and> count_list fins True = 1"
proof -
  let ?D = "[1, 2, 3, 4 :: byte]" and ?m = "[''f'' \<mapsto> (100 :: tcp_seq), ''g'' \<mapsto> 200]"
  let ?pk = "[(''f'', ([3, 4 :: byte], 0 :: int), 2 :: int, 102 :: tcp_seq),
    (''g'', ([1, 2], 0), 2, 200), (''g'', ([3, 4], 0), 2, 202)]"
  have c: "\<forall>x \<in> set ?pk. carries ?D ?m x"
    by (simp add: carries_def segment_def load_def slice_def)
  have r: "range_of ?m ` set ?pk = {{2..<4}, {0..<2}}"
    by (simp add: range_of_def) (auto simp: numeral_2_eq_2)
  have al: "\<forall>x \<in> set ?pk. \<forall>y \<in> set ?pk.
      range_of ?m x = range_of ?m y \<or> range_of ?m x \<inter> range_of ?m y = {}"
    by (simp add: range_of_def)
  have un: "\<Union> (range_of ?m ` set ?pk) = {..<length ?D}" unfolding r by auto
  have len: "length ?D < 2 ^ 31" by simp
  from feed_any_order [OF list.distinct(2) len c al, of "[9]" 0, unfolded un]
  obtain fins rc' dup' where "feed ?pk ((ReconstructedChunk_new [9] (int (length ?D)))
      \<lparr>flow_seq_map := ?m\<rparr>) 0 = Some (fins, rc', dup')" "received rc' = {..<length ?D}"
    "count_list fins True = 1" by auto
  moreover have "{..<length ?D} = {..<4}" by simp
  ultimately show ?thesis by metis
qed

text \<open>A packet that starts before a block and ends behind it: the bytes behind the block are
  dropped, so part of what the packet carries is still missing afterwards, although the bytes
  dropped are counted as duplicates.\<close>

theorem overrun_drops_bytes:
  assumes "rebuilds D rc" and "D \<noteq> []" and "flow_seq_map rc fid = Some start"
    and "segment D p sz (unat (seq - start))"
    and "overruns (unat (seq - start)) (unat (seq - start) + nat sz) (lcb rc)"
  shows "\<exists>fin rc' dup'. fill_gaps_in_chunk fid p sz seq rc dup = Some (fin, rc', dup') \<and>
    of_nat (stored (lcb rc')) + dup' = of_nat (stored (lcb rc)) + dup + word_of_int sz \<and>
    (\<exists>i \<in> {unat (seq - start)..<unat (seq - start) + nat sz}. i \<notin> received rc')"
proof -
  obtain fin rc' dup' where r: "fill_gaps_in_chunk fid p sz seq rc dup = Some (fin, rc', dup')"
    "received rc' = received rc \<union>
      {unat (seq - start)..<kept_end (unat (seq - start)) (unat (seq - start) + nat sz) (lcb rc)}"
    "of_nat (stored (lcb rc')) + dup' = of_nat (stored (lcb rc)) + dup + word_of_int sz"
    by (rule fill_gaps_refines [OF assms(1-4), of dup])
  from assms(1) have "well_laid D 0 (lcb rc)" by (simp add: rebuilds_def)
  from overrun_loses [OF this assms(5) [unfolded overruns_def]] r show ?thesis
    by (auto simp: received_def)
qed

lemma overrun_drops_bytes_witness:
  "\<exists>fin rc' dup'. fill_gaps_in_chunk ''f'' ([1, 2, 3, 4], 0) 4 100
      \<lparr>p_chunk_id = [9], lcb = [\<lparr>starting_seq_number = 1, next_expected_seq_number = 2,
         p_s_contiguous_block = [2], bInit = False, bModified = True\<rparr>], rc_length = 4,
       flow_seq_map = [''f'' \<mapsto> 100], uniquely_contributing_flows = Map.empty\<rparr> 0 =
      Some (fin, rc', dup') \<and> (\<exists>i \<in> {0..<4}. i \<notin> received rc')"
proof -
  let ?rc = "\<lparr>p_chunk_id = [9], lcb = [\<lparr>starting_seq_number = 1, next_expected_seq_number = 2,
         p_s_contiguous_block = [2], bInit = False, bModified = True\<rparr>], rc_length = 4,
       flow_seq_map = [''f'' \<mapsto> 100], uniquely_contributing_flows = Map.empty\<rparr>"
  have rb: "rebuilds [1, 2, 3, 4] ?rc" by (simp add: rebuilds_def block_ok_def slice_def)
  have fs: "flow_seq_map ?rc ''f'' = Some 100" by simp
  have seg: "segment [1, 2, 3, 4] ([1, 2, 3, 4], 0) 4 (unat (100 - 100 :: 32 word))"
    by (simp add: segment_def load_def slice_def)
  have ov: "overruns (unat (100 - 100 :: 32 word)) (unat (100 - 100 :: 32 word) + nat 4) (lcb ?rc)"
    by (simp add: overruns_def)
  from overrun_drops_bytes [OF rb list.distinct(2) fs seg ov, of 0] show ?thesis
    by simp blast
qed

end
