(* ===== verification/SniffTcp.thy ===== *)
theory SniffTcp
  imports Extract ReconChunk
begin

text \<open>
  \<^verbatim>\<open>src/sniffer/SniffTcp.h\<close> and \<^verbatim>\<open>SniffTcp.cc\<close>, first part: the state of the sniffer and the
  operations that move payload between the flow list, the chunks under reconstruction and the
  sniffer plugin.

  Objects the code shares through pointers are reached here by their keys: a
  \<^verbatim>\<open>ReconstructedChunk *\<close> is the chunk id under which \<open>rc_map\<close> holds it, a
  \<^verbatim>\<open>list<ContiguousBlock *> *\<close> is the offset of its flow in \<open>p_flow_list\<close>. The one place where an
  iterator lives across a call that changes its list (\<^verbatim>\<open>deal_with_candidates_for_chunk\<close>) uses the
  \<open>edit\<close> that \<^verbatim>\<open>insert\<close> reports. RPC calls to the plugin are the log \<open>sent\<close>; timing and debug
  output are left out.
\<close>

section \<open>Constants and state\<close>

definition MIN_CHUNK_SIZE :: int where "MIN_CHUNK_SIZE = 0x400"
definition RPC_HEADER_LEN :: int where "RPC_HEADER_LEN = 28"
definition MIN_PAYLOAD_LENGTH :: int where
  "MIN_PAYLOAD_LENGTH = MIN_CHUNK_SIZE + RPC_HEADER_LEN - 4"
definition DOT_OFFSET_FIELD_FROM_RPC_HEADER :: int where "DOT_OFFSET_FIELD_FROM_RPC_HEADER = 32"
definition DOT_OFFSET_FIELD_LEN :: int where "DOT_OFFSET_FIELD_LEN = 8"
definition RPC_HEADER :: byte where "RPC_HEADER = 0x80"
definition CHUNK_ID_LEN_FIELD :: int where "CHUNK_ID_LEN_FIELD = 4"
definition LEN_OF_CHUNK_ID :: int where "LEN_OF_CHUNK_ID = 20"
definition CHUNK_LEN_FIELD :: int where "CHUNK_LEN_FIELD = 4"

lemmas layout_defs = MIN_CHUNK_SIZE_def RPC_HEADER_LEN_def MIN_PAYLOAD_LENGTH_def
  DOT_OFFSET_FIELD_FROM_RPC_HEADER_def DOT_OFFSET_FIELD_LEN_def CHUNK_ID_LEN_FIELD_def
  LEN_OF_CHUNK_ID_def CHUNK_LEN_FIELD_def

record dot_chunk_res =
  chunk_id_base :: cptr
  chunk_id_len :: u32
  chunk_data_base :: cptr
  chunk_data_len :: u32

record ChunkInfo =
  chunk_id :: bytes
  s_seq_num :: tcp_seq
  chunk_length :: int

definition ChunkInfo_new :: "bytes \<Rightarrow> tcp_seq \<Rightarrow> int \<Rightarrow> ChunkInfo" where
  "ChunkInfo_new c_id seq len = \<lparr>chunk_id = c_id, s_seq_num = seq, chunk_length = len\<rparr>"

type_synonym flow_entry = "FlowId \<times> ContiguousBlock list"

text \<open>\<open>rc_map\<close> is \<^verbatim>\<open>chunkId_reconstructedChunk_map\<close>; \<open>g_multi_chances\<close> the global option.\<close>

record SniffTcp =
  p_flow_list :: "flow_entry list"
  flow_chunk_map :: "string \<rightharpoonup> ChunkInfo list"
  rc_map :: "bytes \<rightharpoonup> ReconstructedChunk"
  numChunksSniffed :: int
  numPacketsCaptured :: int
  numTcpPacketsCaptured :: int
  numBytesOfTcpPacketsCaptured :: u64
  numBytesOfChunksSniffed :: u64
  numDuplicateBytes :: u64
  g_multi_chances :: bool
  sent :: "bytes list"

text \<open>The constructor: the maps empty, the counters zero, and the 24-byte mask that the calls at
  offset 8 of an RPC reply must match.\<close>

definition SniffTcp_new :: "bool \<Rightarrow> SniffTcp" where
  "SniffTcp_new multi = \<lparr>p_flow_list = [], flow_chunk_map = Map.empty, rc_map = Map.empty,
     numChunksSniffed = 0, numPacketsCaptured = 0, numTcpPacketsCaptured = 0,
     numBytesOfTcpPacketsCaptured = 0, numBytesOfChunksSniffed = 0, numDuplicateBytes = 0,
     g_multi_chances = multi, sent = []\<rparr>"

definition mask_size_in_bytes :: int where "mask_size_in_bytes = 24"

definition mask_bytes :: bytes where
  "mask_bytes = (replicate (nat mask_size_in_bytes) 0)[3 := 1, 23 := 1]"

text \<open>A \<^verbatim>\<open>size_t\<close> passed as an \<^verbatim>\<open>int\<close>.\<close>

definition int_of_size :: "nat \<Rightarrow> int" where
  "int_of_size n = sint (of_nat n :: u32)"

section \<open>The flow list\<close>

text \<open>\<^verbatim>\<open>get_flow_offset\<close>: the first entry that \<^verbatim>\<open>operator==\<close> finds, or -1.\<close>

primrec flow_offset_from :: "int \<Rightarrow> FlowId \<Rightarrow> flow_entry list \<Rightarrow> int" where
  "flow_offset_from i fid [] = - 1"
| "flow_offset_from i fid (e # es) =
     (if flow_eq (fst e) fid then i else flow_offset_from (i + 1) fid es)"

definition get_flow_offset :: "FlowId \<Rightarrow> SniffTcp \<Rightarrow> int" where
  "get_flow_offset fid s = flow_offset_from 0 fid (p_flow_list s)"

text \<open>What \<^verbatim>\<open>insert\<close> does to the list structure.\<close>

datatype edit = NoEdit | InsertedAt nat | ErasedAt nat

text \<open>The loop of \<^verbatim>\<open>insert\<close> over the blocks of an existing flow, \<open>pos\<close> the position of the
  iterator. A payload that overlaps the block it meets is dropped.\<close>

fun insert_loop :: "cptr \<Rightarrow> int \<Rightarrow> tcp_seq \<Rightarrow> nat \<Rightarrow> ContiguousBlock list \<Rightarrow>
    (edit \<times> ContiguousBlock list) option" where
  "insert_loop payload size_payload seq_num pos [] = do {
     p_cb \<leftarrow> cb_append payload size_payload seq_num ContiguousBlock_new;
     Some (InsertedAt pos, [p_cb])
   }"
| "insert_loop payload size_payload seq_num pos (b # bs) =
     (if seq_num < next_expected_seq_number b then
        if seq_num + word_of_int size_payload = starting_seq_number b then do {
          b' \<leftarrow> cb_prepend payload size_payload seq_num b;
          Some (NoEdit, b' # bs)
        }
        else if seq_num + word_of_int size_payload < starting_seq_number b then do {
          p_cb \<leftarrow> cb_append payload size_payload seq_num ContiguousBlock_new;
          Some (InsertedAt pos, p_cb # b # bs)
        }
        else Some (NoEdit, b # bs)
      else if seq_num = next_expected_seq_number b then do {
        b' \<leftarrow> cb_append payload size_payload (seq_num + word_of_int size_payload) b;
        (case bs of
           c # cs \<Rightarrow>
             if next_expected_seq_number b' = starting_seq_number c
             then Some (ErasedAt (Suc pos),
                    cb_append_string (p_s_contiguous_block c) (next_expected_seq_number c) b' # cs)
             else Some (NoEdit, b' # bs)
         | [] \<Rightarrow> Some (NoEdit, b' # bs))
      }
      else do {
        (e, bs') \<leftarrow> insert_loop payload size_payload seq_num (Suc pos) bs;
        Some (e, b # bs')
      })"

text \<open>\<^verbatim>\<open>insert\<close>; its parameter \<^verbatim>\<open>pFidStr\<close> is not used.\<close>

definition SniffTcp_insert :: "FlowId \<Rightarrow> cptr \<Rightarrow> int \<Rightarrow> tcp_seq \<Rightarrow> SniffTcp \<Rightarrow>
    (edit \<times> SniffTcp) option" where
  "SniffTcp_insert fid payload size_payload seq_num s =
     (let flow_offset = get_flow_offset fid s
      in if 0 \<le> flow_offset then do {
           let (f, p_lcb) = p_flow_list s ! nat flow_offset;
           (e, p_lcb') \<leftarrow> insert_loop payload size_payload seq_num 0 p_lcb;
           Some (e, s\<lparr>p_flow_list := (p_flow_list s)[nat flow_offset := (f, p_lcb')]\<rparr>)
         }
         else do {
           p_cb \<leftarrow> cb_append payload size_payload seq_num ContiguousBlock_new;
           Some (NoEdit, s\<lparr>p_flow_list := p_flow_list s @ [(fid, [p_cb])]\<rparr>)
         })"

section \<open>Chunks in RPC replies\<close>

text \<open>The second \<^verbatim>\<open>extract_chunk_response\<close>, the one that is compiled in. The inner option is the
  \<^verbatim>\<open>bool\<close> answer with the out-parameter.\<close>

definition extract_chunk_response :: "cptr \<Rightarrow> dot_chunk_res option option" where
  "extract_chunk_response rpc_header = do {
     payload_length \<leftarrow> get_length_from_byte_stream rpc_header;
     if payload_length < MIN_PAYLOAD_LENGTH then Some None
     else do {
       let tmp = padd rpc_header DOT_OFFSET_FIELD_FROM_RPC_HEADER;
       id_len \<leftarrow> EXTRACT_32BITS tmp DOT_OFFSET_FIELD_LEN;
       if uint id_len \<noteq> LEN_OF_CHUNK_ID then Some None
       else do {
         data_len \<leftarrow> EXTRACT_32BITS tmp
           (DOT_OFFSET_FIELD_LEN + CHUNK_ID_LEN_FIELD + LEN_OF_CHUNK_ID);
         if uint data_len < MIN_CHUNK_SIZE then Some None
         else Some (Some \<lparr>
           chunk_id_base = padd tmp (DOT_OFFSET_FIELD_LEN + CHUNK_ID_LEN_FIELD),
           chunk_id_len = id_len,
           chunk_data_base = padd tmp
             (DOT_OFFSET_FIELD_LEN + CHUNK_ID_LEN_FIELD + LEN_OF_CHUNK_ID + CHUNK_LEN_FIELD),
           chunk_data_len = data_len\<rparr>)
       }
     }
   }"

text \<open>\<^verbatim>\<open>send_chunk_to_sniffer_plugin\<close>: the bytes the call marshals are read from the buffer.\<close>

definition send_chunk_to_sniffer_plugin :: "cptr \<Rightarrow> SniffTcp \<Rightarrow> SniffTcp option" where
  "send_chunk_to_sniffer_plugin rpc_buffer s = do {
     r \<leftarrow> extract_chunk_response rpc_buffer;
     (case r of
        None \<Rightarrow> Some s
      | Some chunk_res \<Rightarrow> do {
          arg_data \<leftarrow> load (chunk_data_base chunk_res) 0 (uint (chunk_data_len chunk_res));
          Some (s\<lparr>numChunksSniffed := numChunksSniffed s + 1,
                  numBytesOfChunksSniffed := numBytesOfChunksSniffed s + of_nat (length arg_data),
                  sent := sent s @ [arg_data]\<rparr>)
        })
   }"

text \<open>\<^verbatim>\<open>rpc_header_in_stream\<close>: \<open>n\<close> positions left from \<open>i\<close>. \<^verbatim>\<open>memcmp\<close> reads all the bytes of the
  mask. The answer is the offset of the pointer returned, or \<^verbatim>\<open>NULL\<close>.\<close>

fun rpc_header_scan :: "cptr \<Rightarrow> int \<Rightarrow> nat \<Rightarrow> int option option" where
  "rpc_header_scan payload i 0 = Some None"
| "rpc_header_scan payload i (Suc n) = do {
     b \<leftarrow> load8 payload i;
     if b = RPC_HEADER then do {
       m \<leftarrow> load payload (i + 8) mask_size_in_bytes;
       if m = mask_bytes then Some (Some i) else rpc_header_scan payload (i + 1) n
     }
     else rpc_header_scan payload (i + 1) n
   }"

definition rpc_header_in_stream :: "cptr \<Rightarrow> int \<Rightarrow> int option option" where
  "rpc_header_in_stream payload len = rpc_header_scan payload 0 (nat len)"

text \<open>\<^verbatim>\<open>getChunkId\<close>: the chunk id and the offset of the RPC header in the payload.\<close>

definition getChunkId :: "cptr \<Rightarrow> int \<Rightarrow> (bytes \<times> int) option option" where
  "getChunkId payload len = do {
     r \<leftarrow> rpc_header_in_stream payload len;
     (case r of
        None \<Rightarrow> Some None
      | Some rpc_offset \<Rightarrow> do {
          let rpc_buffer = padd payload rpc_offset;
          payload_length \<leftarrow> get_length_from_byte_stream rpc_buffer;
          if payload_length < MIN_PAYLOAD_LENGTH then Some None
          else do {
            let tmp = padd rpc_buffer DOT_OFFSET_FIELD_FROM_RPC_HEADER;
            id_len \<leftarrow> EXTRACT_32BITS tmp DOT_OFFSET_FIELD_LEN;
            if uint id_len \<noteq> LEN_OF_CHUNK_ID then Some None
            else do {
              data_len \<leftarrow> EXTRACT_32BITS tmp
                (DOT_OFFSET_FIELD_LEN + CHUNK_ID_LEN_FIELD + LEN_OF_CHUNK_ID);
              if uint data_len < MIN_CHUNK_SIZE then Some None
              else do {
                s \<leftarrow> load tmp (DOT_OFFSET_FIELD_LEN + CHUNK_ID_LEN_FIELD) (uint id_len);
                Some (Some (s, rpc_offset))
              }
            }
          }
        })
   }"

section \<open>Filling chunks\<close>

text \<open>\<^verbatim>\<open>SniffTcp::fill_gaps_in_chunk\<close> on the chunk with id \<open>cid\<close>: what reaches beyond the chunk goes
  to the flow list, the rest into the chunk.\<close>

definition chunk_excess :: "tcp_seq \<Rightarrow> int \<Rightarrow> tcp_seq \<Rightarrow> int \<Rightarrow> int" where
  "chunk_excess seq_num size_payload starting_seq_num chunk_len =
     (let diff = sint ((seq_num + word_of_int size_payload) -
                       (starting_seq_num + word_of_int chunk_len))
      in if diff < 0 then 0 else diff)"

definition SniffTcp_fill_gaps :: "bytes \<Rightarrow> FlowId \<Rightarrow> string \<Rightarrow> cptr \<Rightarrow> int \<Rightarrow> tcp_seq \<Rightarrow> SniffTcp \<Rightarrow>
    (bool \<times> edit \<times> SniffTcp) option" where
  "SniffTcp_fill_gaps cid fid fidstr payload size_payload seq_num s = do {
     rc \<leftarrow> rc_map s cid;
     (case flow_seq_map rc fidstr of
        None \<Rightarrow> Some (False, NoEdit, s)
      | Some starting_seq_num \<Rightarrow> do {
          let diff = chunk_excess seq_num size_payload starting_seq_num (rc_length rc);
          (e, s1) \<leftarrow> (if 0 < diff
                     then SniffTcp_insert fid (padd payload (size_payload - diff)) diff
                            (seq_num + word_of_int size_payload - word_of_int diff) s
                     else Some (NoEdit, s));
          (b_chunk_done, rc', dup) \<leftarrow>
            fill_gaps_in_chunk fidstr payload (size_payload - diff) seq_num rc (numDuplicateBytes s1);
          Some (b_chunk_done, e, s1\<lparr>rc_map := (rc_map s1)(cid \<mapsto> rc'), numDuplicateBytes := dup\<rparr>)
        })
   }"

text \<open>\<^verbatim>\<open>if (b_chunk_done)\<close>: fetch the data of the chunk and send it.\<close>

definition send_if_done :: "bytes \<Rightarrow> bool \<Rightarrow> SniffTcp \<Rightarrow> SniffTcp option" where
  "send_if_done cid b_chunk_done s =
     (if b_chunk_done then do {
        rc \<leftarrow> rc_map s cid;
        p_data \<leftarrow> get_data rc;
        send_chunk_to_sniffer_plugin p_data s
      }
      else Some s)"

text \<open>\<^verbatim>\<open>deal_with_pkt_without_chunkid\<close>: the first chunk of the flow that the packet starts inside
  takes it; the packet goes to the flow list when there is none, and nowhere when the flow has no
  chunk list.\<close>

definition lies_within :: "ChunkInfo \<Rightarrow> tcp_seq \<Rightarrow> bool" where
  "lies_within ci seq_num \<longleftrightarrow> s_seq_num ci < seq_num \<and>
     seq_num < s_seq_num ci + word_of_int (chunk_length ci)"

fun deal_pkt_loop :: "FlowId \<Rightarrow> string \<Rightarrow> cptr \<Rightarrow> int \<Rightarrow> tcp_seq \<Rightarrow> ChunkInfo list \<Rightarrow> SniffTcp \<Rightarrow>
    SniffTcp option" where
  "deal_pkt_loop fid fidstr payload size_payload seq_num [] s =
     map_option snd (SniffTcp_insert fid payload size_payload seq_num s)"
| "deal_pkt_loop fid fidstr payload size_payload seq_num (ci # cis) s =
     (if lies_within ci seq_num then do {
        (b_chunk_done, e, s1) \<leftarrow>
          SniffTcp_fill_gaps (chunk_id ci) fid fidstr payload size_payload seq_num s;
        send_if_done (chunk_id ci) b_chunk_done s1
      }
      else deal_pkt_loop fid fidstr payload size_payload seq_num cis s)"

definition deal_with_pkt_without_chunkid :: "FlowId \<Rightarrow> string \<Rightarrow> cptr \<Rightarrow> int \<Rightarrow> tcp_seq \<Rightarrow>
    SniffTcp \<Rightarrow> SniffTcp option" where
  "deal_with_pkt_without_chunkid fid fidstr payload size_payload seq_num s =
     (case flow_chunk_map s fidstr of
        None \<Rightarrow> Some s
      | Some cis \<Rightarrow> deal_pkt_loop fid fidstr payload size_payload seq_num cis s)"

section \<open>Candidates for a new chunk\<close>

text \<open>Where the iterator \<open>k\<close> of a list is after an edit of that list; \<open>None\<close> when its element is
  the one erased.\<close>

definition adjust :: "edit \<Rightarrow> nat \<Rightarrow> nat option" where
  "adjust e k = (case e of
     NoEdit \<Rightarrow> Some k
   | InsertedAt j \<Rightarrow> Some (if j \<le> k then Suc k else k)
   | ErasedAt j \<Rightarrow> if j = k then None else Some (if j < k then k - 1 else k))"

definition erase_at :: "nat \<Rightarrow> 'a list \<Rightarrow> 'a list" where
  "erase_at k xs = take k xs @ drop (Suc k) xs"

definition blocks_of :: "nat \<Rightarrow> SniffTcp \<Rightarrow> ContiguousBlock list" where
  "blocks_of off s = snd (p_flow_list s ! off)"

definition erase_block :: "nat \<Rightarrow> nat \<Rightarrow> SniffTcp \<Rightarrow> SniffTcp" where
  "erase_block off k s = s\<lparr>p_flow_list := (p_flow_list s)
     [off := (fst (p_flow_list s ! off), erase_at k (snd (p_flow_list s ! off)))]\<rparr>"

definition is_candidate :: "tcp_seq \<Rightarrow> int \<Rightarrow> ContiguousBlock \<Rightarrow> bool" where
  "is_candidate start len b \<longleftrightarrow> start < starting_seq_number b \<and>
     starting_seq_number b < start + word_of_int len"

text \<open>The body of the loop for a candidate block at \<open>k\<close>: the new position of the iterator and
  whether the chunk was completed.\<close>

definition take_candidate :: "bytes \<Rightarrow> FlowId \<Rightarrow> string \<Rightarrow> nat \<Rightarrow> nat \<Rightarrow> SniffTcp \<Rightarrow>
    (bool \<times> nat \<times> SniffTcp) option" where
  "take_candidate cid fid fidstr off k s = do {
     let b = blocks_of off s ! k;
     (b_chunk_done, e, s1) \<leftarrow> SniffTcp_fill_gaps cid fid fidstr (c_str (p_s_contiguous_block b))
       (int_of_size (length (p_s_contiguous_block b))) (starting_seq_number b) s;
     s2 \<leftarrow> send_if_done cid b_chunk_done s1;
     k' \<leftarrow> adjust e k;
     Some (b_chunk_done, k', erase_block off k' s2)
   }"

text \<open>The loop runs on fuel; \<open>deal_loop_fuel\<close> below shows that the fuel it is given is enough.\<close>

fun deal_loop :: "nat \<Rightarrow> bytes \<Rightarrow> FlowId \<Rightarrow> string \<Rightarrow> tcp_seq \<Rightarrow> int \<Rightarrow> nat \<Rightarrow> nat \<Rightarrow> bool \<Rightarrow> SniffTcp \<Rightarrow>
    (bool \<times> SniffTcp) option" where
  "deal_loop 0 cid fid fidstr start len off k b_done s = None"
| "deal_loop (Suc n) cid fid fidstr start len off k b_done s =
     (if k < length (blocks_of off s) then
        if is_candidate start len (blocks_of off s ! k) then do {
          (b_chunk_done, k', s') \<leftarrow> take_candidate cid fid fidstr off k s;
          deal_loop n cid fid fidstr start len off k' (b_done \<or> b_chunk_done) s'
        }
        else deal_loop n cid fid fidstr start len off (Suc k) b_done s
      else Some (b_done, s))"

definition deal_fuel :: "nat \<Rightarrow> SniffTcp \<Rightarrow> nat" where
  "deal_fuel off s = 3 * length (blocks_of off s) + 1"

text \<open>\<^verbatim>\<open>flow_seq_map[*pFidStr]\<close> creates a zero entry when there is none.\<close>

definition deal_with_candidates_for_chunk :: "bytes \<Rightarrow> FlowId \<Rightarrow> string \<Rightarrow> SniffTcp \<Rightarrow>
    (bool \<times> SniffTcp) option" where
  "deal_with_candidates_for_chunk cid fid fidstr s = do {
     rc \<leftarrow> rc_map s cid;
     let start = (case flow_seq_map rc fidstr of None \<Rightarrow> 0 | Some v \<Rightarrow> v);
     let s1 = s\<lparr>rc_map := (rc_map s)
       (cid \<mapsto> rc\<lparr>flow_seq_map := (flow_seq_map rc)(fidstr \<mapsto> start)\<rparr>)\<rparr>;
     let flow_offset = get_flow_offset fid s1;
     if 0 \<le> flow_offset then
       deal_loop (deal_fuel (nat flow_offset) s1) cid fid fidstr start (rc_length rc)
         (nat flow_offset) 0 False s1
     else Some (False, s1)
   }"

section \<open>Lemmas on the flow list\<close>

lemma flow_offset_from_cases:
  "flow_offset_from i fid es = - 1 \<and> fid \<notin> fst ` set es \<or>
   (\<exists>k < length es. flow_offset_from i fid es = i + int k \<and> fst (es ! k) = fid)"
proof (induction es arbitrary: i)
  case (Cons e es)
  show ?case
  proof (cases "fst e = fid")
    case True
    then show ?thesis by (intro disjI2 exI [of _ 0]) simp
  next
    case False
    from Cons [of "i + 1"] show ?thesis
    proof
      assume "flow_offset_from (i + 1) fid es = - 1 \<and> fid \<notin> fst ` set es"
      with False show ?thesis by auto
    next
      assume "\<exists>k < length es. flow_offset_from (i + 1) fid es = i + 1 + int k \<and> fst (es ! k) = fid"
      then obtain k where "k < length es" "flow_offset_from (i + 1) fid es = i + 1 + int k"
        "fst (es ! k) = fid" by blast
      with False show ?thesis by (intro disjI2 exI [of _ "Suc k"]) simp
    qed
  qed
qed simp

lemma get_flow_offset_cases:
  obtains (absent) "get_flow_offset fid s = - 1" "fid \<notin> fst ` set (p_flow_list s)"
  | (present) k where "get_flow_offset fid s = int k" "k < length (p_flow_list s)"
      "fst (p_flow_list s ! k) = fid"
  using flow_offset_from_cases [of 0 fid "p_flow_list s"] by (auto simp: get_flow_offset_def)

text \<open>\<^verbatim>\<open>insert\<close> always returns when its payload can be read, and the blocks keep their span.\<close>

lemma insert_loop_spans:
  assumes "load p 0 sz = Some bytes" and "all_span bs"
  shows "\<exists>e bs'. insert_loop p sz seq pos bs = Some (e, bs') \<and> all_span bs'"
  using assms(2)
proof (induction bs arbitrary: pos)
  case Nil
  from cb_append_total [OF assms(1)] obtain c where
    c: "cb_append p sz seq ContiguousBlock_new = Some c" by blast
  with spans_append_new [OF c] show ?case by simp
next
  case (Cons b bs)
  from cb_append_total [OF assms(1)] obtain c where
    c: "cb_append p sz seq ContiguousBlock_new = Some c" by blast
  from cb_prepend_total [OF assms(1)] obtain d where d: "cb_prepend p sz seq b = Some d" by blast
  from cb_append_total [OF assms(1)] obtain b' where
    b': "cb_append p sz (seq + word_of_int sz) b = Some b'" by blast
  have sb: "spans b" and rest: "all_span bs" using Cons.prems by simp_all
  have sb': "spans b'" using spans_append [OF b'] sb by (simp add: spans_def)
  consider (lt) "seq < next_expected_seq_number b" | (eq) "seq = next_expected_seq_number b"
    | (gt) "next_expected_seq_number b < seq" by fastforce
  then show ?case
  proof cases
    case lt
    with c d spans_append_new [OF c] spans_prepend [OF d sb] sb rest show ?thesis by auto
  next
    case eq
    show ?thesis
    proof (cases bs)
      case Nil
      with eq b' sb' show ?thesis by simp
    next
      case (Cons x xs)
      have "spans (cb_append_string (p_s_contiguous_block x) (next_expected_seq_number x) b')"
        if "next_expected_seq_number b' = starting_seq_number x"
        using sb' rest that Cons by (simp add: spans_def cb_append_string_def)
      with eq b' sb' rest Cons show ?thesis by simp
    qed
  next
    case gt
    with Cons.IH [OF rest, of "Suc pos"] sb show ?thesis by (auto simp: not_less_iff_gr_or_eq)
  qed
qed

lemma insert_loop_keeps_span:
  "insert_loop p sz seq pos bs = Some (e, bs') \<Longrightarrow> all_span bs \<Longrightarrow> all_span bs'"
proof (induction p sz seq pos bs arbitrary: e bs' rule: insert_loop.induct)
  case (1 p sz seq pos)
  then show ?case by (auto simp: bind_eq_Some_conv elim!: spans_append_new)
next
  case (2 p sz seq pos b bs)
  then have sb: "spans b" and rest: "all_span bs" by simp_all
  consider (lt) "seq < next_expected_seq_number b" | (eq) "seq = next_expected_seq_number b"
    | (gt) "\<not> seq < next_expected_seq_number b" "seq \<noteq> next_expected_seq_number b" by blast
  then show ?case
  proof cases
    case lt
    with 2(2) sb rest show ?thesis
      by (auto simp: bind_eq_Some_conv split: if_splits elim!: spans_prepend spans_append_new)
  next
    case eq
    with 2(2) obtain b' where b': "cb_append p sz (seq + word_of_int sz) b = Some b'"
      by (auto simp: bind_eq_Some_conv)
    have "spans b'" using spans_append [OF b'] sb by (simp add: spans_def)
    with b' eq 2(2) rest show ?thesis
      by (auto simp: spans_def cb_append_string_def split: list.splits if_splits)
  next
    case gt
    with 2 show ?thesis by (auto simp: bind_eq_Some_conv)
  qed
qed

definition flows_span :: "SniffTcp \<Rightarrow> bool" where
  "flows_span s \<longleftrightarrow> (\<forall>e \<in> set (p_flow_list s). all_span (snd e))"

lemma SniffTcp_insert_cases:
  assumes "SniffTcp_insert fid p sz seq s = Some (e, s')"
  obtains (new) c where "cb_append p sz seq ContiguousBlock_new = Some c"
      "s' = s\<lparr>p_flow_list := p_flow_list s @ [(fid, [c])]\<rparr>" "fid \<notin> fst ` set (p_flow_list s)"
      "get_flow_offset fid s = - 1" "e = NoEdit"
  | (old) k bs' where "get_flow_offset fid s = int k" "k < length (p_flow_list s)"
      "fst (p_flow_list s ! k) = fid" "insert_loop p sz seq 0 (blocks_of k s) = Some (e, bs')"
      "s' = s\<lparr>p_flow_list := (p_flow_list s)[k := (fid, bs')]\<rparr>"
  using assms
  by (cases rule: get_flow_offset_cases [of fid s])
     (auto simp: SniffTcp_insert_def Let_def bind_eq_Some_conv blocks_of_def split: prod.splits)

lemma SniffTcp_insert_frame:
  "SniffTcp_insert fid p sz seq s = Some (e, s') \<Longrightarrow> s' = s\<lparr>p_flow_list := p_flow_list s'\<rparr>"
  by (erule SniffTcp_insert_cases) simp_all

lemma SniffTcp_insert_frame_ex:
  "SniffTcp_insert fid p sz seq s = Some (e, s') \<Longrightarrow> \<exists>l. s' = s\<lparr>p_flow_list := l\<rparr>"
  by (erule SniffTcp_insert_cases) blast+

lemma SniffTcp_insert_total:
  assumes "load p 0 sz = Some bytes" and "flows_span s"
  shows "\<exists>e s'. SniffTcp_insert fid p sz seq s = Some (e, s') \<and> flows_span s'"
proof (cases rule: get_flow_offset_cases [of fid s])
  case absent
  from cb_append_total [OF assms(1)] obtain c where
    c: "cb_append p sz seq ContiguousBlock_new = Some c" by blast
  with spans_append_new [OF c] absent assms(2) show ?thesis
    by (simp add: SniffTcp_insert_def flows_span_def)
next
  case (present k)
  then have "all_span (snd (p_flow_list s ! k))" using assms(2) by (simp add: flows_span_def)
  from insert_loop_spans [OF assms(1) this] obtain e bs' where
    "insert_loop p sz seq 0 (snd (p_flow_list s ! k)) = Some (e, bs')" "all_span bs'" by blast
  with present assms(2) show ?thesis
    by (auto simp: SniffTcp_insert_def flows_span_def Let_def split: prod.splits
        dest!: set_update_subset_insert [THEN subsetD])
qed

lemma flows_span_update:
  "flows_span s \<Longrightarrow> all_span bs \<Longrightarrow> flows_span (s\<lparr>p_flow_list := (p_flow_list s)[k := (f, bs)]\<rparr>)"
  by (auto simp: flows_span_def dest!: set_update_subset_insert [THEN subsetD])

lemma flows_span_blocks: "flows_span s \<Longrightarrow> k < length (p_flow_list s) \<Longrightarrow> all_span (blocks_of k s)"
  by (simp add: flows_span_def blocks_of_def)

lemma SniffTcp_insert_keeps_span:
  "SniffTcp_insert fid p sz seq s = Some (e, s') \<Longrightarrow> flows_span s \<Longrightarrow> flows_span s'"
proof (erule SniffTcp_insert_cases)
  fix c
  assume "cb_append p sz seq ContiguousBlock_new = Some c" and "flows_span s"
    and "s' = s\<lparr>p_flow_list := p_flow_list s @ [(fid, [c])]\<rparr>"
  then show "flows_span s'" by (auto simp: flows_span_def dest: spans_append_new)
next
  fix k bs'
  assume k: "k < length (p_flow_list s)" and i: "insert_loop p sz seq 0 (blocks_of k s) = Some (e, bs')"
    and s': "s' = s\<lparr>p_flow_list := (p_flow_list s)[k := (fid, bs')]\<rparr>" and fs: "flows_span s"
  from insert_loop_keeps_span [OF i flows_span_blocks [OF fs k]] show "flows_span s'"
    unfolding s' by (rule flows_span_update [OF fs])
qed

section \<open>What each operation changes\<close>

lemma extract_chunk_response_size:
  assumes "extract_chunk_response p = Some (Some r)"
  shows "1024 \<le> uint (chunk_data_len r)"
proof -
  from assms obtain n where "extract_chunk_response p = Some (Some r)" and
    n: "get_length_from_byte_stream p = Some n" "\<not> n < MIN_PAYLOAD_LENGTH"
    by (auto simp: extract_chunk_response_def bind_eq_Some_conv split: if_splits)
  then show ?thesis
    by (auto simp: extract_chunk_response_def Let_def bind_eq_Some_conv MIN_CHUNK_SIZE_def
        split: if_splits)
qed

lemma send_frame:
  assumes "send_chunk_to_sniffer_plugin p s = Some s'"
  obtains "s' = s"
  | d where "s' = s\<lparr>numChunksSniffed := numChunksSniffed s + 1,
      numBytesOfChunksSniffed := numBytesOfChunksSniffed s + of_nat (length d),
      sent := sent s @ [d]\<rparr>" and "1024 \<le> length d"
proof -
  from assms obtain r where r: "extract_chunk_response p = Some r"
    by (auto simp: send_chunk_to_sniffer_plugin_def bind_eq_Some_conv)
  show thesis
  proof (cases r)
    case None
    with r assms that(1) show ?thesis by (simp add: send_chunk_to_sniffer_plugin_def)
  next
    case (Some c)
    with r assms obtain d where d: "load (chunk_data_base c) 0 (uint (chunk_data_len c)) = Some d"
      and s': "s' = s\<lparr>numChunksSniffed := numChunksSniffed s + 1,
        numBytesOfChunksSniffed := numBytesOfChunksSniffed s + of_nat (length d),
        sent := sent s @ [d]\<rparr>"
      by (auto simp: send_chunk_to_sniffer_plugin_def bind_eq_Some_conv)
    have "1024 \<le> uint (chunk_data_len c)"
      using extract_chunk_response_size [of p c] r Some by simp
    then have "nat 1024 \<le> nat (uint (chunk_data_len c))" by (rule nat_mono)
    then have "1024 \<le> length d" unfolding load_length [OF d] by (simp only: nat_numeral)
    with s' that(2) show ?thesis by blast
  qed
qed

lemma send_if_done_frame:
  assumes "send_if_done cid d s = Some s'"
  obtains "s' = s" | p where "send_chunk_to_sniffer_plugin p s = Some s'"
proof (cases d)
  case True
  with assms obtain p where "send_chunk_to_sniffer_plugin p s = Some s'"
    by (auto simp: send_if_done_def bind_eq_Some_conv)
  then show thesis by (rule that(2))
next
  case False
  with assms show thesis by (intro that(1)) (simp add: send_if_done_def)
qed

lemma SniffTcp_fill_gaps_cases:
  assumes "SniffTcp_fill_gaps cid fid fs p sz seq s = Some (fin, e, s')"
  obtains (unknown) rc where "rc_map s cid = Some rc" "flow_seq_map rc fs = None" "s' = s"
      "fin = False" "e = NoEdit"
  | (filled) rc start diff s1 rc' where "rc_map s cid = Some rc" "flow_seq_map rc fs = Some start"
      "diff = chunk_excess seq sz start (rc_length rc)"
      "(if 0 < diff then SniffTcp_insert fid (padd p (sz - diff)) diff
         (seq + word_of_int sz - word_of_int diff) s else Some (NoEdit, s)) = Some (e, s1)"
      "fill_gaps_in_chunk fs p (sz - diff) seq rc (numDuplicateBytes s1) =
         Some (fin, rc', numDuplicateBytes s')"
      "s' = s1\<lparr>rc_map := (rc_map s1)(cid \<mapsto> rc'), numDuplicateBytes := numDuplicateBytes s'\<rparr>"
proof -
  from assms obtain rc where rc: "rc_map s cid = Some rc"
    by (auto simp: SniffTcp_fill_gaps_def bind_eq_Some_conv)
  show thesis
  proof (cases "flow_seq_map rc fs")
    case None
    with rc assms have "s' = s" "fin = False" "e = NoEdit"
      by (simp_all add: SniffTcp_fill_gaps_def)
    with unknown [OF rc None] show ?thesis by blast
  next
    case (Some start)
    define diff where "diff = chunk_excess seq sz start (rc_length rc)"
    let ?ins = "(if 0 < diff then SniffTcp_insert fid (padd p (sz - diff)) diff
         (seq + word_of_int sz - word_of_int diff) s else Some (NoEdit, s))"
    from rc Some assms have run: "do {
        (e1, s1) \<leftarrow> ?ins;
        (b, rc', dup) \<leftarrow> fill_gaps_in_chunk fs p (sz - diff) seq rc (numDuplicateBytes s1);
        Some (b, e1, s1\<lparr>rc_map := (rc_map s1)(cid \<mapsto> rc'), numDuplicateBytes := dup\<rparr>)
      } = Some (fin, e, s')"
      by (simp add: SniffTcp_fill_gaps_def Let_def diff_def cong: if_cong)
    then obtain e1 s1 where i: "?ins = Some (e1, s1)" by (cases ?ins) auto
    with run obtain s1 rc' dup where r:
      "(if 0 < diff then SniffTcp_insert fid (padd p (sz - diff)) diff
         (seq + word_of_int sz - word_of_int diff) s else Some (NoEdit, s)) = Some (e, s1)"
      "fill_gaps_in_chunk fs p (sz - diff) seq rc (numDuplicateBytes s1) = Some (fin, rc', dup)"
      "s' = s1\<lparr>rc_map := (rc_map s1)(cid \<mapsto> rc'), numDuplicateBytes := dup\<rparr>"
      by (auto simp: bind_eq_Some_conv)
    have d: "dup = numDuplicateBytes s'" unfolding r(3) by simp
    show ?thesis
      by (rule filled [OF rc Some diff_def r(1) r(2) [unfolded d] r(3) [unfolded d]])
  qed
qed

lemma SniffTcp_fill_gaps_frame:
  assumes "SniffTcp_fill_gaps cid fid fs p sz seq s = Some (fin, e, s')"
  shows "s' = s\<lparr>p_flow_list := p_flow_list s', rc_map := rc_map s',
    numDuplicateBytes := numDuplicateBytes s'\<rparr>"
  using assms
proof (cases rule: SniffTcp_fill_gaps_cases)
  case (filled rc start diff s1 rc')
  from filled(4) obtain l where "s1 = s\<lparr>p_flow_list := l\<rparr>"
  proof (cases "0 < diff")
    case True
    with filled(4) that show ?thesis by (auto dest: SniffTcp_insert_frame_ex)
  next
    case False
    with filled(4) that [of "p_flow_list s"] show ?thesis by simp
  qed
  with filled(6) obtain m d where
    s': "s' = s\<lparr>p_flow_list := l, rc_map := m, numDuplicateBytes := d\<rparr>" by blast
  show ?thesis unfolding s' by simp
qed simp

end
