(* ===== verification/GrepFlows.thy ===== *)
theory GrepFlows
  imports SniffTcp
begin

text \<open>
  \<^verbatim>\<open>src/sniffer/SniffTcp.cc\<close>, \<^verbatim>\<open>grep_flows_for_chunks\<close> and \<^verbatim>\<open>grep_contiguous_block_for_chunks\<close>:
  whole RPC replies that lie in one block of the flow list are found by their header, sent to the
  plugin and cut out of the block.

  In the middle-of-the-block case the code casts the \<^verbatim>\<open>std::string *\<close> itself to \<^verbatim>\<open>char *\<close> and copies
  \<^verbatim>\<open>start\<close> bytes from there. What a \<^verbatim>\<open>std::string\<close> object looks like in memory is up to the
  library: the parameter \<open>object_rep\<close> gives the bytes of the object.
\<close>

section \<open>Scanning a block\<close>

text \<open>How the scan of a block ends: a chunk at its front of total size \<open>i\<close>; a chunk that starts at
  \<open>start\<close> and ends at \<open>i\<close>, with nothing behind it by the code's test or with a rest; no whole
  chunk.\<close>

datatype scan_result = Front u32 | AtEnd u32 u32 int | Middle u32 u32 | Exhausted

text \<open>A reply header has been found at \<open>start\<close>. A reply whose end is not there yet moves \<open>i\<close> behind
  that end.\<close>

definition found_reply :: "bytes \<Rightarrow> u32 \<Rightarrow> int \<Rightarrow> scan_result + u32" where
  "found_reply blk start payload_length =
     (let i = start + word_of_int (payload_length + 4)
      in if unat i \<le> length blk then
           if start = 0 then Inl (Front i)
           else if unat i = length blk + 1 then Inl (AtEnd start i payload_length)
           else Inl (Middle start i)
         else Inr (i - 1 + 1))"

text \<open>The body of the loop of \<^verbatim>\<open>grep_contiguous_block_for_chunks\<close> at position \<open>i\<close> of the block's
  bytes: a way the scan ends, or the position of the next round. \<^verbatim>\<open>i\<close>, \<^verbatim>\<open>j\<close> and \<^verbatim>\<open>start\<close> are
  \<^verbatim>\<open>unsigned int\<close>, so they wrap.\<close>

definition grep_at :: "bytes \<Rightarrow> u32 \<Rightarrow> (scan_result + u32) option" where
  "grep_at blk i = do {
     c \<leftarrow> load8 (c_str blk) (uint i);
     if c = RPC_HEADER \<and> unat (i + 3) < length blk then do {
       payload_length \<leftarrow> get_length_from_byte_stream (padd (c_str blk) (uint i));
       let j = i + 8;
       if unat (j + word_of_int mask_size_in_bytes) < length blk then do {
         m \<leftarrow> load (c_str blk) (uint j) mask_size_in_bytes;
         Some (if m = mask_bytes then found_reply blk i payload_length else Inr (i + 1))
       }
       else Some (Inr (i + 1))
     }
     else Some (Inr (i + 1))
   }"

text \<open>\<open>grep_scan_fuel\<close> below shows that the fuel is enough for blocks below 2 GB.\<close>

fun grep_scan :: "nat \<Rightarrow> bytes \<Rightarrow> u32 \<Rightarrow> scan_result option" where
  "grep_scan 0 blk i = None"
| "grep_scan (Suc n) blk i =
     (if unat i < length blk then do {
        r \<leftarrow> grep_at blk i;
        (case r of Inl res \<Rightarrow> Some res | Inr i' \<Rightarrow> grep_scan n blk i')
      }
      else Some Exhausted)"

text \<open>The whole function: the block inserted before the iterator, if any, and the block itself.
  \<^verbatim>\<open>string::erase(0, i)\<close> removes at most the string.\<close>

definition grep_contiguous_block_for_chunks :: "(bytes \<Rightarrow> bytes) \<Rightarrow> ContiguousBlock \<Rightarrow> SniffTcp \<Rightarrow>
    (ContiguousBlock list \<times> ContiguousBlock \<times> SniffTcp) option" where
  "grep_contiguous_block_for_chunks object_rep pcb s = do {
     let blk = p_s_contiguous_block pcb;
     r \<leftarrow> grep_scan (length blk + 1) blk 0;
     (case r of
        Exhausted \<Rightarrow> Some ([], pcb\<lparr>bModified := False\<rparr>, s)
      | Front i \<Rightarrow> do {
          s' \<leftarrow> send_chunk_to_sniffer_plugin (c_str blk) s;
          Some ([], pcb\<lparr>starting_seq_number := starting_seq_number pcb + i,
                        p_s_contiguous_block := drop (unat i) blk\<rparr>, s')
        }
      | AtEnd start i payload_length \<Rightarrow> do {
          s' \<leftarrow> send_chunk_to_sniffer_plugin (padd (c_str blk) (uint start)) s;
          Some ([], pcb\<lparr>next_expected_seq_number := start,
                        p_s_contiguous_block := take (nat (int (length blk) - payload_length - 4)) blk,
                        bModified := False\<rparr>, s')
        }
      | Middle start i \<Rightarrow> do {
          s' \<leftarrow> send_chunk_to_sniffer_plugin (padd (c_str blk) (uint start)) s;
          p_cb \<leftarrow> cb_append (object_rep blk, 0) (sint start) (starting_seq_number pcb)
                    ContiguousBlock_new;
          Some ([p_cb\<lparr>bModified := False\<rparr>],
                pcb\<lparr>starting_seq_number := starting_seq_number pcb + i,
                    p_s_contiguous_block := drop (unat i) blk\<rparr>, s')
        })
   }"

section \<open>Every block of every flow\<close>

text \<open>The \<^verbatim>\<open>while\<close> loop on one block. A round cuts a non-empty front off or clears \<^verbatim>\<open>bModified\<close>;
  \<open>grep_while_fuel\<close> below shows that the fuel is enough.\<close>

fun grep_while :: "nat \<Rightarrow> (bytes \<Rightarrow> bytes) \<Rightarrow> ContiguousBlock \<Rightarrow> SniffTcp \<Rightarrow>
    (ContiguousBlock list \<times> ContiguousBlock \<times> SniffTcp) option" where
  "grep_while 0 object_rep b s = None"
| "grep_while (Suc n) object_rep b s =
     (if bModified b \<and> starting_seq_number b < next_expected_seq_number b then do {
        (ins, b1, s1) \<leftarrow> grep_contiguous_block_for_chunks object_rep b s;
        (ins', b2, s2) \<leftarrow> grep_while n object_rep b1 s1;
        Some (ins @ ins', b2, s2)
      }
      else Some ([], b, s))"

text \<open>The loop over the blocks of a flow erases those that are used up.\<close>

fun grep_blocks :: "(bytes \<Rightarrow> bytes) \<Rightarrow> ContiguousBlock list \<Rightarrow> SniffTcp \<Rightarrow>
    (ContiguousBlock list \<times> SniffTcp) option" where
  "grep_blocks object_rep [] s = Some ([], s)"
| "grep_blocks object_rep (b # bs) s = do {
     (ins, b', s1) \<leftarrow> grep_while (length (p_s_contiguous_block b) + 2) object_rep b s;
     (bs', s2) \<leftarrow> grep_blocks object_rep bs s1;
     Some (ins @ (if starting_seq_number b' = next_expected_seq_number b' then [] else [b']) @ bs',
           s2)
   }"

fun grep_flow_list :: "(bytes \<Rightarrow> bytes) \<Rightarrow> flow_entry list \<Rightarrow> SniffTcp \<Rightarrow>
    (flow_entry list \<times> SniffTcp) option" where
  "grep_flow_list object_rep [] s = Some ([], s)"
| "grep_flow_list object_rep ((fid, bs) # es) s = do {
     (bs', s1) \<leftarrow> grep_blocks object_rep bs s;
     (es', s2) \<leftarrow> grep_flow_list object_rep es s1;
     Some ((fid, bs') # es', s2)
   }"

definition grep_flows_for_chunks :: "(bytes \<Rightarrow> bytes) \<Rightarrow> SniffTcp \<Rightarrow> SniffTcp option" where
  "grep_flows_for_chunks object_rep s = do {
     (fl, s') \<leftarrow> grep_flow_list object_rep (p_flow_list s) s;
     Some (s'\<lparr>p_flow_list := fl\<rparr>)
   }"

declare grep_scan.simps [simp del] grep_while.simps [simp del]

section \<open>What a search changes\<close>

text \<open>A chunk found ends inside the block; the "ends with the block" case is never taken, because
  the code compares with a size one too large.\<close>

definition scan_ok :: "bytes \<Rightarrow> scan_result \<Rightarrow> bool" where
  "scan_ok blk r = (case r of
     Front k \<Rightarrow> unat k \<le> length blk
   | Middle start k \<Rightarrow> start \<noteq> 0 \<and> unat k \<le> length blk
   | AtEnd start k n \<Rightarrow> False
   | Exhausted \<Rightarrow> True)"

lemma grep_at_cases:
  assumes "grep_at blk i = Some x"
  shows "x = Inr (i + 1) \<or>
    (\<exists>n. get_length_from_byte_stream (padd (c_str blk) (uint i)) = Some n \<and> x = found_reply blk i n)"
  using assms unfolding grep_at_def Let_def
  by (auto simp only: bind_eq_Some_conv option.inject split: if_split_asm)

lemma grep_at_ok:
  assumes "grep_at blk i = Some (Inl r)"
  shows "scan_ok blk r"
proof -
  from grep_at_cases [OF assms] obtain n where "found_reply blk i n = Inl r" by auto
  then show ?thesis by (auto simp: found_reply_def Let_def scan_ok_def split: if_splits)
qed

lemma grep_scan_ok: "grep_scan n blk i = Some r \<Longrightarrow> scan_ok blk r"
proof (induction n arbitrary: i)
  case (Suc n)
  show ?case
  proof (cases "unat i < length blk")
    case True
    with Suc.prems obtain x where x: "grep_at blk i = Some x"
      and r: "(case x of Inl res \<Rightarrow> Some res | Inr i' \<Rightarrow> grep_scan n blk i') = Some r"
      by (auto simp only: grep_scan.simps if_True bind_eq_Some_conv)
    with Suc.IH grep_at_ok show ?thesis by (cases x) auto
  next
    case False
    with Suc.prems show ?thesis by (auto simp: grep_scan.simps scan_ok_def)
  qed
qed (simp add: grep_scan.simps)

lemma grep_block_cases:
  assumes "grep_contiguous_block_for_chunks rep b s = Some (ins, b', s')"
  obtains (nothing) "ins = []" "b' = b\<lparr>bModified := False\<rparr>" "s' = s"
  | (front) i :: u32 where "ins = []" "unat i \<le> length (p_s_contiguous_block b)"
      "b' = b\<lparr>starting_seq_number := starting_seq_number b + i,
              p_s_contiguous_block := drop (unat i) (p_s_contiguous_block b)\<rparr>"
      "send_chunk_to_sniffer_plugin (c_str (p_s_contiguous_block b)) s = Some s'"
  | (middle) start i :: u32 and c where "start \<noteq> 0" "ins = [c\<lparr>bModified := False\<rparr>]"
      "unat i \<le> length (p_s_contiguous_block b)"
      "b' = b\<lparr>starting_seq_number := starting_seq_number b + i,
              p_s_contiguous_block := drop (unat i) (p_s_contiguous_block b)\<rparr>"
      "cb_append (rep (p_s_contiguous_block b), 0) (sint start) (starting_seq_number b)
         ContiguousBlock_new = Some c"
      "send_chunk_to_sniffer_plugin (padd (c_str (p_s_contiguous_block b)) (uint start)) s = Some s'"
proof -
  let ?blk = "p_s_contiguous_block b"
  from assms obtain r where r: "grep_scan (length ?blk + 1) ?blk 0 = Some r"
    by (auto simp: grep_contiguous_block_for_chunks_def Let_def bind_eq_Some_conv)
  note ok = grep_scan_ok [OF r]
  show thesis
  proof (cases r)
    case (Front i)
    with assms r have "ins = []" "b' = b\<lparr>starting_seq_number := starting_seq_number b + i,
              p_s_contiguous_block := drop (unat i) ?blk\<rparr>"
      "send_chunk_to_sniffer_plugin (c_str ?blk) s = Some s'"
      by (auto simp: grep_contiguous_block_for_chunks_def Let_def bind_eq_Some_conv)
    with front [of i] ok Front show thesis by (simp add: scan_ok_def)
  next
    case (AtEnd start i n)
    with ok show thesis by (simp add: scan_ok_def)
  next
    case (Middle start i)
    with assms r obtain c where "ins = [c\<lparr>bModified := False\<rparr>]"
      "b' = b\<lparr>starting_seq_number := starting_seq_number b + i,
              p_s_contiguous_block := drop (unat i) ?blk\<rparr>"
      "cb_append (rep ?blk, 0) (sint start) (starting_seq_number b) ContiguousBlock_new = Some c"
      "send_chunk_to_sniffer_plugin (padd (c_str ?blk) (uint start)) s = Some s'"
      by (auto simp: grep_contiguous_block_for_chunks_def Let_def bind_eq_Some_conv)
    with middle [of start c i] ok Middle show thesis by (simp add: scan_ok_def)
  next
    case Exhausted
    with assms r have "ins = []" "b' = b\<lparr>bModified := False\<rparr>" "s' = s"
      by (auto simp: grep_contiguous_block_for_chunks_def Let_def)
    then show thesis by (rule nothing)
  qed
qed

lemma spans_drop:
  "spans b \<Longrightarrow> unat i \<le> length (p_s_contiguous_block b) \<Longrightarrow>
   spans (b\<lparr>starting_seq_number := starting_seq_number b + i,
            p_s_contiguous_block := drop (unat i) (p_s_contiguous_block b)\<rparr>)"
  by (simp add: spans_def of_nat_diff)

lemma spans_bModified [simp]: "spans (b\<lparr>bModified := m\<rparr>) = spans b"
  by (simp add: spans_def)

lemma grep_block_spans:
  assumes "grep_contiguous_block_for_chunks rep b s = Some (ins, b', s')" and "spans b"
  shows "all_span ins" and "spans b'"
proof -
  have "all_span ins \<and> spans b'" using assms(1)
  proof (cases rule: grep_block_cases)
    case nothing
    then show ?thesis using assms(2) by simp
  next
    case (front i)
    show ?thesis unfolding front(1,3) using spans_drop [OF assms(2) front(2)] by simp
  next
    case (middle start i c)
    show ?thesis unfolding middle(2,4)
      using spans_drop [OF assms(2) middle(3)] spans_append_new [OF middle(5)] by simp
  qed
  then show "all_span ins" and "spans b'" by simp_all
qed

lemma grep_while_spans:
  "grep_while n rep b s = Some (ins, b', s') \<Longrightarrow> spans b \<Longrightarrow> all_span ins \<and> spans b'"
proof (induction n arbitrary: b s ins b' s')
  case (Suc n)
  show ?case
  proof (cases "bModified b \<and> starting_seq_number b < next_expected_seq_number b")
    case True
    with Suc.prems(1) obtain ins1 b1 s1 ins2 where
      g: "grep_contiguous_block_for_chunks rep b s = Some (ins1, b1, s1)"
      "grep_while n rep b1 s1 = Some (ins2, b', s')" "ins = ins1 @ ins2"
      by (auto simp: grep_while.simps bind_eq_Some_conv)
    from Suc.IH [OF g(2)] grep_block_spans [OF g(1) Suc.prems(2)] g(3) show ?thesis
      by (auto simp: all_span_def)
  next
    case False
    with Suc.prems show ?thesis by (auto simp: grep_while.simps)
  qed
qed (simp add: grep_while.simps)

lemma grep_blocks_spans:
  "grep_blocks rep bs s = Some (bs', s') \<Longrightarrow> all_span bs \<Longrightarrow> all_span bs'"
  by (induction bs arbitrary: s bs')
     (fastforce simp: bind_eq_Some_conv all_span_def dest: grep_while_spans split: if_splits)+

lemma grep_flow_list_spans:
  "grep_flow_list rep es s = Some (es', s') \<Longrightarrow> \<forall>e \<in> set es. all_span (snd e) \<Longrightarrow>
   (\<forall>e \<in> set es'. all_span (snd e)) \<and> map fst es' = map fst es"
  by (induction rep es s arbitrary: es' s' rule: grep_flow_list.induct)
     (fastforce simp: bind_eq_Some_conv dest: grep_blocks_spans)+

text \<open>Besides the flow list, a search only sends.\<close>

lemma grep_block_sends:
  assumes "\<And>p s s'. send_chunk_to_sniffer_plugin p s = Some s' \<Longrightarrow> P s \<Longrightarrow> P s'"
    and "grep_contiguous_block_for_chunks rep b s = Some (ins, b', s')" and "P s"
  shows "P s'"
  using assms(2) by (cases rule: grep_block_cases) (use assms(1,3) in blast)+

lemma grep_while_sends:
  assumes "\<And>p s s'. send_chunk_to_sniffer_plugin p s = Some s' \<Longrightarrow> P s \<Longrightarrow> P s'"
  shows "grep_while n rep b s = Some (ins, b', s') \<Longrightarrow> P s \<Longrightarrow> P s'"
proof (induction n arbitrary: b s ins)
  case (Suc n)
  show ?case
  proof (cases "bModified b \<and> starting_seq_number b < next_expected_seq_number b")
    case True
    with Suc.prems(1) obtain ins1 b1 s1 ins2 where
      g: "grep_contiguous_block_for_chunks rep b s = Some (ins1, b1, s1)"
      "grep_while n rep b1 s1 = Some (ins2, b', s')"
      by (auto simp: grep_while.simps bind_eq_Some_conv)
    from grep_block_sends [where P = P, OF assms g(1) Suc.prems(2)] show ?thesis
      by (rule Suc.IH [OF g(2)])
  next
    case False
    with Suc.prems show ?thesis by (auto simp: grep_while.simps)
  qed
qed (simp add: grep_while.simps)

lemma grep_blocks_sends:
  assumes "\<And>p s s'. send_chunk_to_sniffer_plugin p s = Some s' \<Longrightarrow> P s \<Longrightarrow> P s'"
  shows "grep_blocks rep bs s = Some (bs', s') \<Longrightarrow> P s \<Longrightarrow> P s'"
proof (induction bs arbitrary: s bs')
  case (Cons b bs)
  from Cons.prems(1) obtain ins b1 s1 bs1 where
    g: "grep_while (length (p_s_contiguous_block b) + 2) rep b s = Some (ins, b1, s1)"
    "grep_blocks rep bs s1 = Some (bs1, s')"
    by (auto simp: bind_eq_Some_conv)
  from grep_while_sends [where P = P, OF assms g(1) Cons.prems(2)] show ?case
    by (rule Cons.IH [OF g(2)])
qed simp

lemma grep_flow_list_sends:
  assumes "\<And>p s s'. send_chunk_to_sniffer_plugin p s = Some s' \<Longrightarrow> P s \<Longrightarrow> P s'"
  shows "grep_flow_list rep es s = Some (es', s') \<Longrightarrow> P s \<Longrightarrow> P s'"
proof (induction es arbitrary: s es')
  case (Cons e es)
  obtain fid bs where e: "e = (fid, bs)" by (cases e)
  from Cons.prems(1) obtain bs1 s1 es1 where
    g: "grep_blocks rep bs s = Some (bs1, s1)" "grep_flow_list rep es s1 = Some (es1, s')"
    by (auto simp: e bind_eq_Some_conv)
  from grep_blocks_sends [where P = P, OF assms g(1) Cons.prems(2)] show ?case
    by (rule Cons.IH [OF g(2)])
qed simp

section \<open>The fuel is enough\<close>

lemma uint_less_of_nat: "unat (i :: u32) < n \<Longrightarrow> uint i < int n"
proof -
  assume "unat i < n"
  then have "int (unat i) < int n" by (simp only: of_nat_less_iff)
  then show ?thesis by simp
qed

lemma c_str_load8: "unat i < length blk \<Longrightarrow> load8 (c_str blk) (uint (i :: u32)) = Some (blk ! unat i)"
  using uint_less_of_nat [of i "length blk"]
  by (simp add: load8_def c_str_def nth_append Let_def)

lemma get_length_c_str:
  assumes "unat (i :: u32) + 3 < length blk"
  obtains n where "get_length_from_byte_stream (padd (c_str blk) (uint i)) = Some n"
    and "0 \<le> n" and "n < 2 ^ 31"
proof -
  have "load8 (padd (c_str blk) (uint i)) k = Some ((blk @ [0]) ! nat (uint i + k))"
    if "0 \<le> k" "k \<le> 3" for k
  proof -
    have "uint i = int (unat i)" by simp
    moreover have "uint i < int (length blk - 3)"
      using assms by (intro uint_less_of_nat) simp
    ultimately show ?thesis using that assms
      by (simp add: load8_def padd_def c_str_def Let_def)
  qed
  from this [of 0] this obtain n where
    n: "get_length_from_byte_stream (padd (c_str blk) (uint i)) = Some n"
    by (simp add: get_length_from_byte_stream_def)
  with get_length_bounds [OF n] show thesis by (intro that)
qed

text \<open>A round of the scan of a block below 2 GB returns, and moves \<open>i\<close> forward.\<close>

lemma grep_at_progress:
  assumes "length blk < 2 ^ 31" and "unat i < length blk"
  obtains r where "grep_at blk i = Some r"
    and "\<And>i'. r = Inr i' \<Longrightarrow> unat i < unat i'"
    and "\<And>k. r = Inl (Front k) \<Longrightarrow> 0 < unat k" and "\<And>st k. r = Inl (Middle st k) \<Longrightarrow> 0 < unat k"
proof -
  have add: "unat (i + of_nat k) = unat i + k" if "unat i + k < 2 ^ 32" for k
    using that by (simp add: unat_word_ariths unat_of_nat take_bit_nat_eq_self)
  have small: "unat i < 2 ^ 31" using assms by (rule less_trans [rotated])
  have one: "unat (i + 1) = unat i + 1" using add [of 1] small by simp
  have three: "unat (i + 3) = unat i + 3" using add [of 3] small by simp
  have j: "unat (i + 8 + word_of_int mask_size_in_bytes) = unat i + 32"
    using add [of 32] small by (simp add: mask_size_in_bytes_def add.assoc)
  have i8: "uint (i + 8) = int (unat i + 8)"
  proof -
    have "unat (i + 8) = unat i + 8" using add [of 8] small by simp
    then have "int (unat (i + 8)) = int (unat i + 8)" by (rule arg_cong)
    then show ?thesis by simp
  qed
  show thesis
  proof (cases "blk ! unat i = RPC_HEADER \<and> unat i + 32 < length blk")
    case True
    then have "unat i + 3 < length blk" by simp
    then obtain n where n: "get_length_from_byte_stream (padd (c_str blk) (uint i)) = Some n"
      "0 \<le> n" "n < 2 ^ 31" by (rule get_length_c_str)
    have "word_of_int (n + 4) = (of_nat (nat n + 4) :: u32)"
      using n(2) by simp
    then have end': "unat (i + word_of_int (n + 4)) = unat i + nat n + 4"
    proof -
      have "nat n < 2 ^ 31" using n(3) by simp
      then have "unat i + (nat n + 4) < 2 ^ 32" using True assms(1) by simp
      from add [OF this] \<open>word_of_int (n + 4) = of_nat (nat n + 4)\<close> show ?thesis by simp
    qed
    have "\<exists>m. load (c_str blk) (uint (i + 8)) mask_size_in_bytes = Some m"
      unfolding i8 using True uint_less_of_nat [of i "length blk - 32", OF less_diff_conv [THEN iffD2]]
      by (simp add: load_def c_str_def mask_size_in_bytes_def Let_def)
    then obtain m where m: "load (c_str blk) (uint (i + 8)) mask_size_in_bytes = Some m" by blast
    have g: "grep_at blk i = Some (if m = mask_bytes then found_reply blk i n else Inr (i + 1))"
      using True assms(2) n(1) m j three by (simp add: grep_at_def c_str_load8 Let_def)
    have end2: "unat (i + word_of_int (n + 4) - 1 + 1) = unat i + nat n + 4"
      unfolding diff_add_cancel by (rule end')
    show thesis
      by (rule that [OF g])
         (use one end' end2 in \<open>auto simp: found_reply_def Let_def split: if_splits\<close>)
  next
    case False
    have "grep_at blk i = Some (Inr (i + 1))"
    proof (cases "blk ! unat i = RPC_HEADER \<and> unat i + 3 < length blk")
      case True
      then obtain n where "get_length_from_byte_stream (padd (c_str blk) (uint i)) = Some n"
        using get_length_c_str by blast
      with True False assms(2) j three show ?thesis by (simp add: grep_at_def c_str_load8 Let_def)
    next
      case False
      with assms(2) three show ?thesis by (auto simp: grep_at_def c_str_load8)
    qed
    from that [OF this] one show thesis by simp
  qed
qed

lemma grep_scan_fuel:
  assumes "length blk < 2 ^ 31"
  shows "length blk \<le> unat i + n \<Longrightarrow> \<exists>r. grep_scan (Suc n) blk i = Some r \<and>
    (\<forall>k. r = Front k \<longrightarrow> 0 < unat k) \<and> (\<forall>st k. r = Middle st k \<longrightarrow> 0 < unat k) \<and>
    grep_scan (Suc n + m) blk i = Some r"
proof (induction n arbitrary: i)
  case 0
  then show ?case by (simp add: grep_scan.simps)
next
  case (Suc n)
  show ?case
  proof (cases "unat i < length blk")
    case False
    then show ?thesis by (simp add: grep_scan.simps)
  next
    case True
    from grep_at_progress [OF assms True] obtain r where r: "grep_at blk i = Some r"
      "\<And>i'. r = Inr i' \<Longrightarrow> unat i < unat i'"
      "\<And>k. r = Inl (Front k) \<Longrightarrow> 0 < unat k" "\<And>st k. r = Inl (Middle st k) \<Longrightarrow> 0 < unat k"
      by metis
    show ?thesis
    proof (cases r)
      case (Inl x)
      with True r show ?thesis by (simp add: grep_scan.simps)
    next
      case (Inr i')
      with r(2) Suc.prems have "length blk \<le> unat i' + n" by fastforce
      from Suc.IH [OF this] True r(1) Inr show ?thesis
        by (simp add: grep_scan.simps(2) [of "Suc n"] grep_scan.simps(2) [of "Suc (n + m)"])
    qed
  qed
qed

lemma grep_block_progress:
  assumes "grep_contiguous_block_for_chunks rep b s = Some (ins, b', s')"
    and "length (p_s_contiguous_block b) < 2 ^ 31"
  shows "length (p_s_contiguous_block b') < length (p_s_contiguous_block b) \<or>
    \<not> bModified b' \<and> length (p_s_contiguous_block b') \<le> length (p_s_contiguous_block b)"
proof -
  let ?blk = "p_s_contiguous_block b"
  from grep_scan_fuel [OF assms(2), of 0 "length ?blk" 0] obtain r where
    r: "grep_scan (length ?blk + 1) ?blk 0 = Some r"
    and pos: "\<forall>k. r = Front k \<longrightarrow> 0 < unat k" "\<forall>st k. r = Middle st k \<longrightarrow> 0 < unat k" by auto
  note ok = grep_scan_ok [OF r]
  show ?thesis
  proof (cases r)
    case (Front k)
    with pos(1) ok have "0 < unat k" "unat k \<le> length ?blk" by (simp_all add: scan_ok_def)
    with assms(1) r Front show ?thesis
      by (auto simp: grep_contiguous_block_for_chunks_def Let_def bind_eq_Some_conv)
  next
    case (AtEnd st k n)
    with ok show ?thesis by (simp add: scan_ok_def)
  next
    case (Middle st k)
    with pos(2) ok have "0 < unat k" "unat k \<le> length ?blk" by (simp_all add: scan_ok_def)
    with assms(1) r Middle show ?thesis
      by (auto simp: grep_contiguous_block_for_chunks_def Let_def bind_eq_Some_conv)
  next
    case Exhausted
    with assms(1) r show ?thesis by (auto simp: grep_contiguous_block_for_chunks_def Let_def)
  qed
qed

lemma grep_while_fuel:
  "length (p_s_contiguous_block b) < 2 ^ 31 \<Longrightarrow>
   (if bModified b then length (p_s_contiguous_block b) + 1 else 0) < n \<Longrightarrow>
   grep_while (n + m) rep b s = grep_while n rep b s"
proof (induction n arbitrary: b s)
  case (Suc n)
  show ?case
  proof (cases "bModified b \<and> starting_seq_number b < next_expected_seq_number b")
    case False
    then show ?thesis by (auto simp: grep_while.simps)
  next
    case True
    show ?thesis
    proof (cases "grep_contiguous_block_for_chunks rep b s")
      case None
      with True show ?thesis by (simp add: grep_while.simps)
    next
      case (Some r)
      obtain ins b1 s1 where r: "r = (ins, b1, s1)" by (cases r)
      note p = grep_block_progress [OF Some [unfolded r] Suc.prems(1)]
      with True Suc.prems have "length (p_s_contiguous_block b1) < 2 ^ 31"
        and "(if bModified b1 then length (p_s_contiguous_block b1) + 1 else 0) < n"
        by (auto split: if_splits)
      from Suc.IH [OF this, of s1] True Some r show ?thesis by (simp add: grep_while.simps)
    qed
  qed
qed simp

text \<open>A round of the loop, and the two ways a run of rounds can go: the loop returns, or a round is
  reached whose body has no defined result.\<close>

inductive while_round :: "(bytes \<Rightarrow> bytes) \<Rightarrow> ContiguousBlock \<times> SniffTcp \<Rightarrow>
    ContiguousBlock \<times> SniffTcp \<Rightarrow> bool" for object_rep where
  "bModified b \<Longrightarrow> starting_seq_number b < next_expected_seq_number b \<Longrightarrow>
   grep_contiguous_block_for_chunks object_rep b s = Some (ins, b', s') \<Longrightarrow>
   while_round object_rep (b, s) (b', s')"

lemma grep_while_returns:
  "length (p_s_contiguous_block b) < 2 ^ 31 \<Longrightarrow>
   (if bModified b then length (p_s_contiguous_block b) + 1 else 0) < n \<Longrightarrow>
   (\<exists>r. grep_while n rep b s = Some r) \<or>
   (\<exists>b' s'. (while_round rep)\<^sup>*\<^sup>* (b, s) (b', s') \<and>
      grep_contiguous_block_for_chunks rep b' s' = None)"
proof (induction n arbitrary: b s)
  case (Suc n)
  show ?case
  proof (cases "bModified b \<and> starting_seq_number b < next_expected_seq_number b")
    case False
    then show ?thesis by (auto simp: grep_while.simps)
  next
    case True
    show ?thesis
    proof (cases "grep_contiguous_block_for_chunks rep b s")
      case None
      then show ?thesis by blast
    next
      case (Some r)
      obtain ins b1 s1 where r: "r = (ins, b1, s1)" by (cases r)
      with True Some have round: "while_round rep (b, s) (b1, s1)" by (intro while_round.intros) simp_all
      note p = grep_block_progress [OF Some [unfolded r] Suc.prems(1)]
      with True Suc.prems have "length (p_s_contiguous_block b1) < 2 ^ 31"
        and "(if bModified b1 then length (p_s_contiguous_block b1) + 1 else 0) < n"
        by (auto split: if_splits)
      from Suc.IH [OF this, of s1] show ?thesis
      proof
        assume "\<exists>q. grep_while n rep b1 s1 = Some q"
        with True Some r show ?thesis by (auto simp: grep_while.simps)
      next
        assume "\<exists>b' s'. (while_round rep)\<^sup>*\<^sup>* (b1, s1) (b', s') \<and>
          grep_contiguous_block_for_chunks rep b' s' = None"
        with round show ?thesis by (meson converse_rtranclp_into_rtranclp)
      qed
    qed
  qed
qed simp

section \<open>Properties\<close>

text \<open>C26. The \<^verbatim>\<open>while\<close> loop of \<^verbatim>\<open>grep_flows_for_chunks\<close> on a block below 2 GB ends within as many
  rounds as the block has bytes, plus two: it returns, unless one of its rounds is reached whose body
  reads outside memory, and more fuel changes nothing. The scan inside it always returns a result,
  and never the "chunk ends with the block" case.\<close>

theorem grep_loops_end:
  assumes "length (p_s_contiguous_block b) < 2 ^ 31"
  shows "((\<exists>r. grep_while (length (p_s_contiguous_block b) + 2) object_rep b s = Some r) \<or>
      (\<exists>b' s'. (while_round object_rep)\<^sup>*\<^sup>* (b, s) (b', s') \<and>
        grep_contiguous_block_for_chunks object_rep b' s' = None)) \<and>
    grep_while (length (p_s_contiguous_block b) + 2 + m) object_rep b s =
      grep_while (length (p_s_contiguous_block b) + 2) object_rep b s \<and>
    (\<exists>r. grep_scan (length (p_s_contiguous_block b) + 1) (p_s_contiguous_block b) 0 = Some r \<and>
      (\<forall>st k n. r \<noteq> AtEnd st k n))"
proof -
  from grep_scan_fuel [OF assms, of 0 "length (p_s_contiguous_block b)" m] obtain r where
    "grep_scan (length (p_s_contiguous_block b) + 1) (p_s_contiguous_block b) 0 = Some r"
    by auto
  moreover from grep_scan_ok [OF this(1)] have "\<forall>st k n. r \<noteq> AtEnd st k n"
    by (auto simp: scan_ok_def)
  moreover have "grep_while (length (p_s_contiguous_block b) + 2 + m) object_rep b s =
      grep_while (length (p_s_contiguous_block b) + 2) object_rep b s"
    by (rule grep_while_fuel [OF assms]) simp
  moreover have "(\<exists>r. grep_while (length (p_s_contiguous_block b) + 2) object_rep b s = Some r) \<or>
      (\<exists>b' s'. (while_round object_rep)\<^sup>*\<^sup>* (b, s) (b', s') \<and>
        grep_contiguous_block_for_chunks object_rep b' s' = None)"
    by (rule grep_while_returns [OF assms]) simp
  ultimately show ?thesis by blast
qed

lemma grep_loops_end_witness:
  "grep_while (0 + 2 + 5) id ContiguousBlock_new (SniffTcp_new True) =
   grep_while (0 + 2) id ContiguousBlock_new (SniffTcp_new True)"
proof -
  have len: "length (p_s_contiguous_block ContiguousBlock_new) = 0"
    by (simp add: ContiguousBlock_new_def)
  then have "length (p_s_contiguous_block ContiguousBlock_new) < 2 ^ 31" by simp
  from grep_loops_end [OF this, of id "SniffTcp_new True" 5, unfolded len] show ?thesis by blast
qed

end
