(* ===== verification/HandleIp.thy ===== *)
theory HandleIp
  imports GrepFlows
begin

text \<open>
  \<^verbatim>\<open>src/sniffer/SniffTcp.cc\<close>, \<^verbatim>\<open>handle_ethernet\<close> and \<^verbatim>\<open>handle_ip\<close>, and the callback and capture loops
  that drive them: the path of a captured Ethernet frame into the state of \<open>SniffTcp\<close>.
\<close>

section \<open>A packet with TCP payload\<close>

text \<open>A chunk id the sniffer has not seen: a new chunk, filled from the packet and then from the
  flow's stored blocks.\<close>

definition unseen_chunk :: "bytes \<Rightarrow> FlowId \<Rightarrow> string \<Rightarrow> cptr \<Rightarrow> int \<Rightarrow> tcp_seq \<Rightarrow> SniffTcp \<Rightarrow>
    SniffTcp option" where
  "unseen_chunk p_cid fid fidstr payload size_payload seq_num s = do {
     chunk_len \<leftarrow> get_length_from_byte_stream payload;
     let p_rc = (ReconstructedChunk_new p_cid chunk_len)\<lparr>flow_seq_map := [fidstr \<mapsto> seq_num]\<rparr>;
     let s1 = s\<lparr>rc_map := (rc_map s)(p_cid \<mapsto> p_rc)\<rparr>;
     (b_chunk_done, e, s2) \<leftarrow> SniffTcp_fill_gaps p_cid fid fidstr payload size_payload seq_num s1;
     s3 \<leftarrow> send_if_done p_cid b_chunk_done s2;
     (b_chunk_done2, s4) \<leftarrow> deal_with_candidates_for_chunk p_cid fid fidstr s3;
     Some s4
   }"

text \<open>A chunk id seen before: the flow joins the flows that carry it.\<close>

definition seen_chunk :: "bytes \<Rightarrow> ReconstructedChunk \<Rightarrow> FlowId \<Rightarrow> string \<Rightarrow> cptr \<Rightarrow> int \<Rightarrow> tcp_seq \<Rightarrow>
    SniffTcp \<Rightarrow> SniffTcp option" where
  "seen_chunk p_cid rc fid fidstr payload size_payload seq_num s = do {
     let rc1 = rc\<lparr>flow_seq_map := (flow_seq_map rc)(fidstr \<mapsto> seq_num)\<rparr>;
     let s1 = s\<lparr>rc_map := (rc_map s)(p_cid \<mapsto> rc1)\<rparr>;
     (b_chunk_done, e, s2) \<leftarrow> SniffTcp_fill_gaps p_cid fid fidstr payload size_payload seq_num s1;
     send_if_done p_cid b_chunk_done s2
   }"

text \<open>A flow without an entry in \<^verbatim>\<open>flow_chunk_map\<close>.\<close>

definition new_flow_packet :: "FlowId \<Rightarrow> string \<Rightarrow> cptr \<Rightarrow> int \<Rightarrow> tcp_seq \<Rightarrow> SniffTcp \<Rightarrow>
    SniffTcp option" where
  "new_flow_packet fid fidstr payload size_payload seq_num s = do {
     p_cid_offset_pair \<leftarrow> getChunkId payload size_payload;
     (case p_cid_offset_pair of
        None \<Rightarrow> map_option snd (SniffTcp_insert fid payload size_payload seq_num s)
      | Some (p_cid, chunk_offset) \<Rightarrow> do {
          (payload, size_payload, seq_num, s1) \<leftarrow>
            (if 0 < chunk_offset then do {
               (e, s1) \<leftarrow> SniffTcp_insert fid payload chunk_offset seq_num s;
               Some (padd payload chunk_offset, size_payload - chunk_offset,
                     seq_num + word_of_int chunk_offset, s1)
             }
             else Some (payload, size_payload, seq_num, s));
          c_len \<leftarrow> get_length_from_byte_stream payload;
          let s2 = s1\<lparr>flow_chunk_map :=
                     (flow_chunk_map s1)(fidstr \<mapsto> [ChunkInfo_new p_cid seq_num c_len])\<rparr>;
          (case rc_map s2 p_cid of
             None \<Rightarrow> unseen_chunk p_cid fid fidstr payload size_payload seq_num s2
           | Some rc \<Rightarrow> seen_chunk p_cid rc fid fidstr payload size_payload seq_num s2)
        })
   }"

text \<open>A flow that has carried a chunk id before. A \<^verbatim>\<open>ChunkInfo\<close> is added only for a chunk id the
  flow does not list yet.\<close>

definition add_chunk_info :: "bytes \<Rightarrow> string \<Rightarrow> cptr \<Rightarrow> tcp_seq \<Rightarrow> SniffTcp \<Rightarrow> SniffTcp option" where
  "add_chunk_info p_cid fidstr payload seq_num s = do {
     cis \<leftarrow> flow_chunk_map s fidstr;
     if p_cid \<in> chunk_id ` set cis then Some s
     else do {
       c_len \<leftarrow> get_length_from_byte_stream payload;
       Some (s\<lparr>flow_chunk_map :=
               (flow_chunk_map s)(fidstr \<mapsto> cis @ [ChunkInfo_new p_cid seq_num c_len])\<rparr>)
     }
   }"

definition old_flow_packet :: "FlowId \<Rightarrow> string \<Rightarrow> cptr \<Rightarrow> int \<Rightarrow> tcp_seq \<Rightarrow> SniffTcp \<Rightarrow>
    SniffTcp option" where
  "old_flow_packet fid fidstr payload size_payload seq_num s = do {
     p_cid_offset_pair \<leftarrow> getChunkId payload size_payload;
     (case p_cid_offset_pair of
        None \<Rightarrow> deal_with_pkt_without_chunkid fid fidstr payload size_payload seq_num s
      | Some (p_cid, chunk_offset) \<Rightarrow> do {
          (payload, size_payload, seq_num, s1) \<leftarrow>
            (if 0 < chunk_offset then do {
               s1 \<leftarrow> deal_with_pkt_without_chunkid fid fidstr payload chunk_offset seq_num s;
               Some (padd payload chunk_offset, size_payload - chunk_offset,
                     seq_num + word_of_int chunk_offset, s1)
             }
             else Some (payload, size_payload, seq_num, s));
          s2 \<leftarrow> add_chunk_info p_cid fidstr payload seq_num s1;
          (case rc_map s2 p_cid of
             None \<Rightarrow> unseen_chunk p_cid fid fidstr payload size_payload seq_num s2
           | Some rc \<Rightarrow> seen_chunk p_cid rc fid fidstr payload size_payload seq_num s2)
        })
   }"

definition tcp_payload :: "FlowId \<Rightarrow> cptr \<Rightarrow> int \<Rightarrow> tcp_seq \<Rightarrow> SniffTcp \<Rightarrow> SniffTcp option" where
  "tcp_payload fid payload size_payload seq_num s =
     (let fidstr = toString fid
      in if \<not> g_multi_chances s
         then map_option snd (SniffTcp_insert fid payload size_payload seq_num s)
         else case flow_chunk_map s fidstr of
                None \<Rightarrow> new_flow_packet fid fidstr payload size_payload seq_num s
              | Some _ \<Rightarrow> old_flow_packet fid fidstr payload size_payload seq_num s)"

section \<open>Headers\<close>

definition IP_V :: "byte \<Rightarrow> byte" where "IP_V vhl = drop_bit 4 (vhl AND 0xf0)"
definition IP_HL :: "byte \<Rightarrow> byte" where "IP_HL vhl = vhl AND 0x0f"
definition TH_OFF :: "byte \<Rightarrow> byte" where "TH_OFF offx2 = drop_bit 4 (offx2 AND 0xf0)"
definition IPPROTO_TCP :: byte where "IPPROTO_TCP = 6"
definition ETHERTYPE_IP :: u16 where "ETHERTYPE_IP = 0x0800"
definition ETHER_HDRLEN :: int where "ETHER_HDRLEN = 14"

text \<open>\<^verbatim>\<open>handle_ip\<close> from the TCP header on: \<open>ip\<close> the IP packet, \<open>ip_len\<close> its total length field.\<close>

definition handle_tcp :: "cptr \<Rightarrow> int \<Rightarrow> int \<Rightarrow> SniffTcp \<Rightarrow> SniffTcp option" where
  "handle_tcp ip ip_hlen ip_len s = do {
     let tcp = padd ip ip_hlen;
     offx2 \<leftarrow> load8 tcp 12;
     let size_tcp_header = uint (TH_OFF offx2) * 4;
     if size_tcp_header < 20 then Some s
     else do {
       let payload = padd ip (ip_hlen + size_tcp_header);
       let size_payload = ip_len - (ip_hlen + size_tcp_header);
       if 0 < size_payload then do {
         let s1 = s\<lparr>numTcpPacketsCaptured := numTcpPacketsCaptured s + 1,
                    numBytesOfTcpPacketsCaptured :=
                      numBytesOfTcpPacketsCaptured s + word_of_int size_payload\<rparr>;
         src_ip \<leftarrow> load ip 12 4;
         dst_ip \<leftarrow> load ip 16 4;
         seq_num \<leftarrow> EXTRACT_32BITS tcp 4;
         th_sport \<leftarrow> EXTRACT_16BITS tcp 0;
         th_dport \<leftarrow> EXTRACT_16BITS tcp 2;
         let fid = FlowId_new (inet_ntoa src_ip) (inet_ntoa dst_ip) (ucast th_sport) (ucast th_dport);
         tcp_payload fid payload size_payload seq_num s1
       }
       else Some s
     }
   }"

text \<open>\<^verbatim>\<open>handle_ip\<close> from its start: every guard returns with the state unchanged. The fragment
  offset is read and only printed.\<close>

definition handle_ip :: "int \<Rightarrow> cptr \<Rightarrow> SniffTcp \<Rightarrow> SniffTcp option" where
  "handle_ip len ip_packet s =
     (if len < 20 then Some s
      else do {
        ip_len \<leftarrow> EXTRACT_16BITS ip_packet 2;
        ip_vhl \<leftarrow> load8 ip_packet 0;
        let ip_hlen = uint (IP_HL ip_vhl) * 4;
        if IP_V ip_vhl \<noteq> 4 then Some s
        else if ip_hlen < 20 then Some s
        else if len < uint ip_len then Some s
        else do {
          off \<leftarrow> EXTRACT_16BITS ip_packet 6;
          ip_p \<leftarrow> load8 ip_packet 9;
          if ip_p \<noteq> IPPROTO_TCP then Some s
          else handle_tcp ip_packet ip_hlen (uint ip_len) s
        }
      })"

text \<open>\<^verbatim>\<open>handle_ethernet\<close>: the EtherType, or \<^verbatim>\<open>~0\<close> for a short frame. \<^verbatim>\<open>caplen\<close> is the number of bytes
  captured, the length of the buffer.\<close>

definition handle_ethernet :: "bytes \<Rightarrow> u16 option" where
  "handle_ethernet packet =
     (if int (length packet) < ETHER_HDRLEN then Some (NOT 0)
      else EXTRACT_16BITS (packet, 0) 12)"

definition my_callback_ethernet :: "bytes \<Rightarrow> SniffTcp \<Rightarrow> SniffTcp option" where
  "my_callback_ethernet packet s = do {
     type \<leftarrow> handle_ethernet packet;
     if type = ETHERTYPE_IP
     then handle_ip (int (length packet) - ETHER_HDRLEN) (padd (packet, 0) ETHER_HDRLEN) s
     else Some s
   }"

section \<open>Capture loops\<close>

text \<open>The callback on each packet of a batch, in order.\<close>

primrec dispatch :: "bytes list \<Rightarrow> SniffTcp \<Rightarrow> SniffTcp option" where
  "dispatch [] s = Some s"
| "dispatch (pkt # pkts) s = do { s1 \<leftarrow> my_callback_ethernet pkt s; dispatch pkts s1 }"

text \<open>One round of the endless loop of \<^verbatim>\<open>run_pcap_live\<close>: \<^verbatim>\<open>pcap_dispatch\<close> hands over a batch and
  returns \<open>ret\<close>, which is added to the counter whatever it is.\<close>

definition live_round :: "(bytes \<Rightarrow> bytes) \<Rightarrow> bytes list \<Rightarrow> int \<Rightarrow> SniffTcp \<Rightarrow> SniffTcp option" where
  "live_round object_rep pkts ret s = do {
     s1 \<leftarrow> dispatch pkts s;
     grep_flows_for_chunks object_rep (s1\<lparr>numPacketsCaptured := numPacketsCaptured s1 + ret\<rparr>)
   }"

text \<open>\<^verbatim>\<open>run_pcap_offline\<close>: all packets of the dump, then one search.\<close>

definition run_pcap_offline :: "(bytes \<Rightarrow> bytes) \<Rightarrow> bytes list \<Rightarrow> SniffTcp \<Rightarrow> SniffTcp option" where
  "run_pcap_offline object_rep dump s = do {
     s1 \<leftarrow> dispatch dump s;
     grep_flows_for_chunks object_rep s1
   }"

section \<open>A sample frame\<close>

text \<open>The start of a reply that announces a chunk of \<open>len\<close> bytes (the low 16 bits of the record
  mark), and a frame of the flow from port \<open>port\<close>, used to run the model on concrete inputs.\<close>

definition sample_header :: "byte \<Rightarrow> byte \<Rightarrow> bytes" where
  "sample_header len1 len0 = [0x80, 0, len1, len0] @ replicate 4 7 @ mask_bytes @ replicate 8 0 @
     [0, 0, 0, 20] @ replicate 20 5 @ [0, 0, 4, 0] @ replicate 8 9"

definition sample_frame :: "byte \<Rightarrow> bytes \<Rightarrow> bytes \<Rightarrow> bytes" where
  "sample_frame port seq payload = replicate 12 1 @ [8, 0] @
     [0x45, 0, 0, 40 + of_nat (length payload), 0, 0, 0, 0, 64, 6, 0, 0, 10, 0, 0, 1, 10, 0, 0, 2] @
     [0, port, 7, 208] @ seq @ [0, 0, 0, 0, 0x50, 0, 0, 0, 0, 0, 0, 0] @ payload"

definition sample_key :: string where "sample_key = ''10.0.0.1:80 => 10.0.0.2:2000''"

end
