(* ===== verification/CaptureInv.thy ===== *)
theory CaptureInv
  imports HandleIp
begin

text \<open>
  Invariants of the sniffer's state. The locale \<open>packet_invariant\<close> is the contract between a
  property of the state and the elementary updates the handlers are made of; its lemmas carry such
  a property through every handler, up to a captured frame. \<open>capture_invariant\<close> adds the search
  through the flow list and carries it over every reachable state. The interpretations discharge
  the contract for the invariants of the model: blocks keep their span, a flow is listed once, every
  chunk a flow lists exists and knows the flow, and the counters agree with what was sent.
\<close>

section \<open>The contract\<close>

text \<open>What a handler writes into the chunk list of a flow for the chunk \<open>cid\<close>.\<close>

definition lists_chunk :: "bytes \<Rightarrow> ChunkInfo list option \<Rightarrow> ChunkInfo list \<Rightarrow> bool" where
  "lists_chunk cid old cis \<longleftrightarrow>
     (case old of
        None \<Rightarrow> (\<exists>ci. chunk_id ci = cid \<and> cis = [ci])
      | Some l \<Rightarrow> cid \<in> chunk_id ` set l \<and> cis = l \<or>
          cid \<notin> chunk_id ` set l \<and> (\<exists>ci. chunk_id ci = cid \<and> cis = l @ [ci]))"

lemma add_chunk_info_cases:
  assumes "add_chunk_info cid fs p seq s = Some s'"
  obtains cis where "s' = s\<lparr>flow_chunk_map := (flow_chunk_map s)(fs \<mapsto> cis)\<rparr>"
    and "lists_chunk cid (flow_chunk_map s fs) cis"
proof -
  from assms obtain l where l: "flow_chunk_map s fs = Some l"
    by (auto simp: add_chunk_info_def bind_eq_Some_conv)
  show thesis
  proof (cases "cid \<in> chunk_id ` set l")
    case True
    with assms l have "s' = s" by (simp add: add_chunk_info_def)
    moreover have "(flow_chunk_map s)(fs \<mapsto> l) = flow_chunk_map s" using l by (rule map_upd_triv)
    ultimately show thesis using True l by (intro that [of l]) (simp_all add: lists_chunk_def)
  next
    case False
    with assms l obtain n where "s' = s\<lparr>flow_chunk_map :=
        (flow_chunk_map s)(fs \<mapsto> l @ [ChunkInfo_new cid seq n])\<rparr>"
      by (auto simp: add_chunk_info_def bind_eq_Some_conv)
    then show thesis by (rule that) (use False l in \<open>simp add: lists_chunk_def ChunkInfo_new_def\<close>)
  qed
qed

locale packet_invariant =
  fixes Inv :: "SniffTcp \<Rightarrow> bool"
  assumes ins: "SniffTcp_insert fid p sz seq s = Some (e, s') \<Longrightarrow> Inv s \<Longrightarrow> Inv s'"
    and fill: "SniffTcp_fill_gaps cid fid fs p sz seq s = Some (fin, e, s') \<Longrightarrow> Inv s \<Longrightarrow> Inv s'"
    and snd: "send_chunk_to_sniffer_plugin p s = Some s' \<Longrightarrow> Inv s \<Longrightarrow> Inv s'"
    and erase: "Inv s \<Longrightarrow> Inv (erase_block off k s)"
    and count: "Inv s \<Longrightarrow> Inv (s\<lparr>numTcpPacketsCaptured := i, numBytesOfTcpPacketsCaptured := n\<rparr>)"
    and new_rc: "Inv s \<Longrightarrow> rc_map s cid = None \<Longrightarrow> 0 \<le> len \<Longrightarrow>
      Inv (s\<lparr>rc_map := (rc_map s)
        (cid \<mapsto> (ReconstructedChunk_new cid len)\<lparr>flow_seq_map := [fs \<mapsto> seq]\<rparr>)\<rparr>)"
    and join_rc: "Inv s \<Longrightarrow> rc_map s cid = Some rc \<Longrightarrow>
      Inv (s\<lparr>rc_map := (rc_map s)
        (cid \<mapsto> rc\<lparr>flow_seq_map := (flow_seq_map rc)(fs \<mapsto> seq)\<rparr>)\<rparr>)"
    and list_chunk: "Inv s \<Longrightarrow> rc_map s cid = Some rc \<Longrightarrow> flow_seq_map rc fs \<noteq> None \<Longrightarrow>
      lists_chunk cid (flow_chunk_map s fs) cis \<Longrightarrow>
      Inv (s\<lparr>flow_chunk_map := (flow_chunk_map s)(fs \<mapsto> cis)\<rparr>)"
begin

lemma send_if_done: "send_if_done cid d s = Some s' \<Longrightarrow> Inv s \<Longrightarrow> Inv s'"
  by (erule send_if_done_frame) (auto dest: snd)

lemma deal_pkt_loop: "deal_pkt_loop fid fs p sz seq cis s = Some s' \<Longrightarrow> Inv s \<Longrightarrow> Inv s'"
  by (induction cis) (auto simp: bind_eq_Some_conv split: if_splits dest: ins fill send_if_done)

lemma deal_with_pkt_without_chunkid:
  "deal_with_pkt_without_chunkid fid fs p sz seq s = Some s' \<Longrightarrow> Inv s \<Longrightarrow> Inv s'"
  by (auto simp: deal_with_pkt_without_chunkid_def split: option.splits dest: deal_pkt_loop)

lemma take_candidate:
  "take_candidate cid fid fs off k s = Some (d, k', s') \<Longrightarrow> Inv s \<Longrightarrow> Inv s'"
  by (auto simp: take_candidate_def Let_def bind_eq_Some_conv intro: erase
      dest: fill send_if_done)

lemma deal_loop:
  "deal_loop n cid fid fs start len off k b s = Some (b', s') \<Longrightarrow> Inv s \<Longrightarrow> Inv s'"
proof (induction n arbitrary: k b s)
  case (Suc n)
  then show ?case by (auto simp: bind_eq_Some_conv split: if_splits dest: take_candidate)
qed simp

lemma deal_with_candidates_for_chunk:
  "deal_with_candidates_for_chunk cid fid fs s = Some (b, s') \<Longrightarrow> Inv s \<Longrightarrow> Inv s'"
proof -
  assume run: "deal_with_candidates_for_chunk cid fid fs s = Some (b, s')" and inv: "Inv s"
  from run obtain rc where rc: "rc_map s cid = Some rc"
    by (auto simp: deal_with_candidates_for_chunk_def bind_eq_Some_conv)
  let ?start = "case flow_seq_map rc fs of None \<Rightarrow> 0 | Some v \<Rightarrow> v"
  let ?s1 = "s\<lparr>rc_map := (rc_map s)(cid \<mapsto> rc\<lparr>flow_seq_map := (flow_seq_map rc)(fs \<mapsto> ?start)\<rparr>)\<rparr>"
  have "Inv ?s1" using inv rc by (rule join_rc)
  moreover have "s' = ?s1 \<or> (\<exists>n off. deal_loop n cid fid fs ?start (rc_length rc) off 0 False ?s1 =
      Some (b, s'))"
    using run rc by (auto simp: deal_with_candidates_for_chunk_def Let_def split: if_splits)
  ultimately show "Inv s'" using deal_loop by blast
qed

text \<open>A handler lists the chunk before it creates or joins it; the order does not show outside.\<close>

lemma unseen_chunk:
  assumes "unseen_chunk cid fid fs p sz seq
      (s\<lparr>flow_chunk_map := (flow_chunk_map s)(fs \<mapsto> cis)\<rparr>) = Some s'"
    and "Inv s" and "rc_map s cid = None" and "lists_chunk cid (flow_chunk_map s fs) cis"
  shows "Inv s'"
proof -
  from assms(1) obtain len where len: "get_length_from_byte_stream p = Some len"
    by (auto simp: unseen_chunk_def bind_eq_Some_conv)
  let ?rc = "(ReconstructedChunk_new cid len)\<lparr>flow_seq_map := [fs \<mapsto> seq]\<rparr>"
  let ?s1 = "s\<lparr>rc_map := (rc_map s)(cid \<mapsto> ?rc)\<rparr>"
  have "Inv ?s1" using assms(2,3) get_length_bounds(1) [OF len] by (rule new_rc)
  then have "Inv (?s1\<lparr>flow_chunk_map := (flow_chunk_map ?s1)(fs \<mapsto> cis)\<rparr>)"
    by (rule list_chunk [where cid = cid and rc = ?rc]) (use assms(4) in simp_all)
  moreover have "?s1\<lparr>flow_chunk_map := (flow_chunk_map ?s1)(fs \<mapsto> cis)\<rparr> =
      s\<lparr>flow_chunk_map := (flow_chunk_map s)(fs \<mapsto> cis), rc_map := (rc_map s)(cid \<mapsto> ?rc)\<rparr>"
    by simp
  ultimately have
    "Inv (s\<lparr>flow_chunk_map := (flow_chunk_map s)(fs \<mapsto> cis), rc_map := (rc_map s)(cid \<mapsto> ?rc)\<rparr>)"
    by (simp only:)
  then show ?thesis using assms(1) len
    by (auto simp: unseen_chunk_def Let_def bind_eq_Some_conv
        dest!: fill send_if_done deal_with_candidates_for_chunk)
qed

lemma seen_chunk:
  assumes "seen_chunk cid rc fid fs p sz seq
      (s\<lparr>flow_chunk_map := (flow_chunk_map s)(fs \<mapsto> cis)\<rparr>) = Some s'"
    and "Inv s" and "rc_map s cid = Some rc" and "lists_chunk cid (flow_chunk_map s fs) cis"
  shows "Inv s'"
proof -
  let ?rc = "rc\<lparr>flow_seq_map := (flow_seq_map rc)(fs \<mapsto> seq)\<rparr>"
  let ?s1 = "s\<lparr>rc_map := (rc_map s)(cid \<mapsto> ?rc)\<rparr>"
  have "Inv ?s1" using assms(2,3) by (rule join_rc)
  then have "Inv (?s1\<lparr>flow_chunk_map := (flow_chunk_map ?s1)(fs \<mapsto> cis)\<rparr>)"
    by (rule list_chunk [where cid = cid and rc = ?rc]) (use assms(4) in simp_all)
  moreover have "?s1\<lparr>flow_chunk_map := (flow_chunk_map ?s1)(fs \<mapsto> cis)\<rparr> =
      s\<lparr>flow_chunk_map := (flow_chunk_map s)(fs \<mapsto> cis), rc_map := (rc_map s)(cid \<mapsto> ?rc)\<rparr>"
    by simp
  ultimately have
    "Inv (s\<lparr>flow_chunk_map := (flow_chunk_map s)(fs \<mapsto> cis), rc_map := (rc_map s)(cid \<mapsto> ?rc)\<rparr>)"
    by (simp only:)
  then show ?thesis using assms(1)
    by (auto simp: seen_chunk_def Let_def bind_eq_Some_conv dest!: fill send_if_done)
qed

lemma chunk_packet:
  assumes "(case rc_map s cid of
      None \<Rightarrow> unseen_chunk cid fid fs p sz seq (s\<lparr>flow_chunk_map := (flow_chunk_map s)(fs \<mapsto> cis)\<rparr>)
    | Some rc \<Rightarrow> seen_chunk cid rc fid fs p sz seq
        (s\<lparr>flow_chunk_map := (flow_chunk_map s)(fs \<mapsto> cis)\<rparr>)) = Some s'"
    and "Inv s" and "lists_chunk cid (flow_chunk_map s fs) cis"
  shows "Inv s'"
  using assms unseen_chunk seen_chunk by (auto split: option.splits)

lemma new_flow_packet:
  assumes "new_flow_packet fid fs p sz seq s = Some s'" and "flow_chunk_map s fs = None"
    and "Inv s"
  shows "Inv s'"
proof -
  from assms(1) obtain r where r: "getChunkId p sz = Some r"
    by (auto simp: new_flow_packet_def bind_eq_Some_conv)
  show ?thesis
  proof (cases r)
    case None
    with assms r show ?thesis by (auto simp: new_flow_packet_def dest: ins)
  next
    case (Some co)
    obtain cid off where co: "co = (cid, off)" by (cases co)
    from assms(1) r Some co obtain p1 sz1 seq1 s1 len where
      pre: "(if 0 < off then do {
               (e, s1) \<leftarrow> SniffTcp_insert fid p off seq s;
               Some (padd p off, sz - off, seq + word_of_int off, s1)
             } else Some (p, sz, seq, s)) = Some (p1, sz1, seq1, s1)"
      and rest: "(case rc_map s1 cid of
          None \<Rightarrow> unseen_chunk cid fid fs p1 sz1 seq1
            (s1\<lparr>flow_chunk_map := (flow_chunk_map s1)(fs \<mapsto> [ChunkInfo_new cid seq1 len])\<rparr>)
        | Some rc \<Rightarrow> seen_chunk cid rc fid fs p1 sz1 seq1
            (s1\<lparr>flow_chunk_map := (flow_chunk_map s1)(fs \<mapsto> [ChunkInfo_new cid seq1 len])\<rparr>)) =
        Some s'"
      by (auto simp: new_flow_packet_def bind_eq_Some_conv Let_def)
    from pre assms(2,3) have "Inv s1" "flow_chunk_map s1 fs = None"
      by (auto simp: bind_eq_Some_conv split: if_splits dest: ins SniffTcp_insert_frame_ex)
    with rest show ?thesis
      by (intro chunk_packet [OF rest]) (simp_all add: lists_chunk_def ChunkInfo_new_def)
  qed
qed

lemma old_flow_packet:
  assumes "old_flow_packet fid fs p sz seq s = Some s'" and "Inv s"
  shows "Inv s'"
proof -
  from assms(1) obtain r where r: "getChunkId p sz = Some r"
    by (auto simp: old_flow_packet_def bind_eq_Some_conv)
  show ?thesis
  proof (cases r)
    case None
    with assms r show ?thesis
      by (auto simp: old_flow_packet_def dest: deal_with_pkt_without_chunkid)
  next
    case (Some co)
    obtain cid off where co: "co = (cid, off)" by (cases co)
    from assms(1) r Some co obtain p1 sz1 seq1 s1 s2 where
      pre: "(if 0 < off then do {
               s1 \<leftarrow> deal_with_pkt_without_chunkid fid fs p off seq s;
               Some (padd p off, sz - off, seq + word_of_int off, s1)
             } else Some (p, sz, seq, s)) = Some (p1, sz1, seq1, s1)"
      and add: "add_chunk_info cid fs p1 seq1 s1 = Some s2"
      and rest: "(case rc_map s2 cid of
          None \<Rightarrow> unseen_chunk cid fid fs p1 sz1 seq1 s2
        | Some rc \<Rightarrow> seen_chunk cid rc fid fs p1 sz1 seq1 s2) = Some s'"
      by (auto simp: old_flow_packet_def bind_eq_Some_conv)
    from pre assms(2) have "Inv s1"
      by (auto simp: bind_eq_Some_conv split: if_splits dest: deal_with_pkt_without_chunkid)
    from add obtain cis where s2: "s2 = s1\<lparr>flow_chunk_map := (flow_chunk_map s1)(fs \<mapsto> cis)\<rparr>"
      and l: "lists_chunk cid (flow_chunk_map s1 fs) cis" by (rule add_chunk_info_cases)
    from s2 have "rc_map s2 = rc_map s1" by simp
    from chunk_packet [OF rest [unfolded this, unfolded s2] \<open>Inv s1\<close> l] show ?thesis .
  qed
qed

lemma tcp_payload: "tcp_payload fid p sz seq s = Some s' \<Longrightarrow> Inv s \<Longrightarrow> Inv s'"
  by (auto simp: tcp_payload_def Let_def split: if_splits option.splits
      dest: ins new_flow_packet old_flow_packet)

lemma handle_tcp:
  assumes "handle_tcp ip hlen len s = Some s'" and "Inv s"
  shows "Inv s'"
proof -
  from assms(1) have "s' = s \<or> (\<exists>fid p sz seq i n. tcp_payload fid p sz seq
      (s\<lparr>numTcpPacketsCaptured := i, numBytesOfTcpPacketsCaptured := n\<rparr>) = Some s')"
    unfolding handle_tcp_def Let_def
    by (auto simp: bind_eq_Some_conv simp del: split_paired_Ex split_paired_All
        split: if_splits)
  with assms(2) show ?thesis using count tcp_payload by blast
qed

lemma handle_ip: "handle_ip len p s = Some s' \<Longrightarrow> Inv s \<Longrightarrow> Inv s'"
  by (auto simp: handle_ip_def Let_def bind_eq_Some_conv split: if_splits dest: handle_tcp)

lemma my_callback_ethernet: "my_callback_ethernet pkt s = Some s' \<Longrightarrow> Inv s \<Longrightarrow> Inv s'"
  by (auto simp: my_callback_ethernet_def bind_eq_Some_conv split: if_splits dest: handle_ip)

lemma dispatch: "dispatch pkts s = Some s' \<Longrightarrow> Inv s \<Longrightarrow> Inv s'"
  by (induction pkts arbitrary: s) (auto simp: bind_eq_Some_conv dest: my_callback_ethernet)

end

section \<open>Reachable states\<close>

text \<open>What can happen to the sniffer: a captured frame, a search through the flow list, the count a
  capture call returned.\<close>

inductive sniff_step :: "(bytes \<Rightarrow> bytes) \<Rightarrow> SniffTcp \<Rightarrow> SniffTcp \<Rightarrow> bool" for object_rep where
  frame: "my_callback_ethernet pkt s = Some s' \<Longrightarrow> sniff_step object_rep s s'"
| search: "grep_flows_for_chunks object_rep s = Some s' \<Longrightarrow> sniff_step object_rep s s'"
| counted: "sniff_step object_rep s (s\<lparr>numPacketsCaptured := numPacketsCaptured s + ret\<rparr>)"

inductive_cases sniff_stepE: "sniff_step object_rep s s'"

inductive reachable :: "(bytes \<Rightarrow> bytes) \<Rightarrow> SniffTcp \<Rightarrow> bool" for object_rep where
  start: "reachable object_rep (SniffTcp_new multi)"
| step: "reachable object_rep s \<Longrightarrow> sniff_step object_rep s s' \<Longrightarrow> reachable object_rep s'"

lemma dispatch_reachable:
  "dispatch pkts s = Some s' \<Longrightarrow> reachable object_rep s \<Longrightarrow> reachable object_rep s'"
proof (induction pkts arbitrary: s)
  case (Cons pkt pkts)
  then obtain s1 where "my_callback_ethernet pkt s = Some s1" "dispatch pkts s1 = Some s'"
    by (auto simp: bind_eq_Some_conv)
  with Cons show ?case by (blast intro: reachable.step sniff_step.frame)
qed simp

lemma live_round_reachable:
  "live_round object_rep pkts ret s = Some s' \<Longrightarrow> reachable object_rep s \<Longrightarrow> reachable object_rep s'"
  by (auto simp: live_round_def bind_eq_Some_conv
      intro: reachable.step [OF reachable.step [OF dispatch_reachable sniff_step.counted]
        sniff_step.search])

locale capture_invariant = packet_invariant +
  assumes grep: "grep_flows_for_chunks object_rep s = Some s' \<Longrightarrow> Inv s \<Longrightarrow> Inv s'"
    and captured: "Inv s \<Longrightarrow> Inv (s\<lparr>numPacketsCaptured := i\<rparr>)"
    and initially: "Inv (SniffTcp_new multi)"
begin

lemma step: "sniff_step object_rep s s' \<Longrightarrow> Inv s \<Longrightarrow> Inv s'"
  by (erule sniff_stepE) (auto intro: my_callback_ethernet grep captured)

lemma reachable: "reachable object_rep s \<Longrightarrow> Inv s"
  by (induction rule: reachable.induct) (auto intro: initially step)

end

section \<open>Blocks keep their span\<close>

definition blocks_inv :: "SniffTcp \<Rightarrow> bool" where
  "blocks_inv s \<longleftrightarrow> flows_span s \<and> (\<forall>cid rc. rc_map s cid = Some rc \<longrightarrow> all_span (lcb rc))"

lemma fill_blocks_inv:
  assumes "SniffTcp_fill_gaps cid fid fs p sz seq s = Some (fin, e, s')" and "blocks_inv s"
  shows "blocks_inv s'"
  using assms(1)
proof (cases rule: SniffTcp_fill_gaps_cases)
  case (filled rc start diff s1 rc')
  have "flows_span s1 \<and> rc_map s1 = rc_map s"
  proof (cases "0 < diff")
    case True
    with filled(4) have i: "SniffTcp_insert fid (padd p (sz - diff)) diff
        (seq + word_of_int sz - word_of_int diff) s = Some (e, s1)" by simp
    from SniffTcp_insert_frame_ex [OF i] have "rc_map s1 = rc_map s" by auto
    moreover have "flows_span s1"
      by (rule SniffTcp_insert_keeps_span [OF i]) (use assms(2) in \<open>simp add: blocks_inv_def\<close>)
    ultimately show ?thesis by simp
  next
    case False
    with filled(4) assms(2) show ?thesis by (simp add: blocks_inv_def)
  qed
  moreover have "all_span (lcb rc')"
    using fill_gaps_keeps_span [OF filled(5)] filled(1) assms(2) by (simp add: blocks_inv_def)
  ultimately show ?thesis
    using assms(2) by (subst filled(6)) (simp add: blocks_inv_def flows_span_def)
qed (use assms(2) in simp)

lemma erase_block_span: "flows_span s \<Longrightarrow> flows_span (erase_block off k s)"
proof (cases "off < length (p_flow_list s)")
  case True
  assume fs: "flows_span s"
  have "all_span (erase_at k (blocks_of off s))"
    using flows_span_blocks [OF fs True]
    by (auto simp: erase_at_def all_span_def dest: in_set_takeD in_set_dropD)
  then show ?thesis
    unfolding erase_block_def using flows_span_update [OF fs] by (simp add: blocks_of_def)
next
  case False
  assume "flows_span s"
  with False show ?thesis by (simp add: erase_block_def flows_span_def list_update_beyond)
qed

lemma send_blocks_inv:
  "send_chunk_to_sniffer_plugin p s = Some s' \<Longrightarrow> blocks_inv s \<Longrightarrow> blocks_inv s'"
  by (erule send_frame) (simp_all add: blocks_inv_def flows_span_def)

interpretation blocks: capture_invariant blocks_inv
proof unfold_locales
  fix fid p sz seq s e s'
  assume "SniffTcp_insert fid p sz seq s = Some (e, s')" and "blocks_inv s"
  then show "blocks_inv s'"
    by (auto simp: blocks_inv_def dest: SniffTcp_insert_keeps_span SniffTcp_insert_frame_ex)
next
  fix object_rep s s'
  assume "grep_flows_for_chunks object_rep s = Some s'" and inv: "blocks_inv s"
  then obtain fl s1 where g: "grep_flow_list object_rep (p_flow_list s) s = Some (fl, s1)"
    and s': "s' = s1\<lparr>p_flow_list := fl\<rparr>"
    by (auto simp: grep_flows_for_chunks_def bind_eq_Some_conv)
  have "blocks_inv s1"
    by (rule grep_flow_list_sends [where P = blocks_inv, OF send_blocks_inv g inv])
  moreover have "\<forall>e \<in> set fl. all_span (snd e)"
    using grep_flow_list_spans [OF g] inv by (simp add: blocks_inv_def flows_span_def)
  ultimately show "blocks_inv s'" unfolding s' by (simp add: blocks_inv_def flows_span_def)
next
  show "blocks_inv (erase_block off k s)" if "blocks_inv s" for s off k
    using that by (simp add: blocks_inv_def erase_block_span) (simp add: erase_block_def)
qed (simp_all add: fill_blocks_inv send_blocks_inv,
    auto simp: blocks_inv_def flows_span_def SniffTcp_new_def ReconstructedChunk_new_def
      split: if_splits)

section \<open>A flow is listed once\<close>

definition flows_inv :: "SniffTcp \<Rightarrow> bool" where
  "flows_inv s \<longleftrightarrow> distinct (map fst (p_flow_list s))"

lemma map_fst_update: "map fst (xs[k := (fst (xs ! k), y)]) = map fst xs"
proof (cases "k < length xs")
  case True
  then have "map fst xs ! k = fst (xs ! k)" by simp
  then show ?thesis by (simp add: map_update) (metis list_update_id)
next
  case False
  then show ?thesis by (simp add: list_update_beyond)
qed

lemma insert_flows_inv:
  "SniffTcp_insert fid p sz seq s = Some (e, s') \<Longrightarrow> flows_inv s \<Longrightarrow> flows_inv s'"
  by (erule SniffTcp_insert_cases) (auto simp: flows_inv_def map_fst_update)

lemma fill_flows_inv:
  assumes "SniffTcp_fill_gaps cid fid fs p sz seq s = Some (fin, e, s')" and "flows_inv s"
  shows "flows_inv s'"
  using assms(1)
proof (cases rule: SniffTcp_fill_gaps_cases)
  case (filled rc start diff s1 rc')
  from filled(4) assms(2) have "flows_inv s1"
    by (cases "0 < diff") (auto dest: insert_flows_inv)
  then show ?thesis by (subst filled(6)) (simp add: flows_inv_def)
qed (use assms(2) in simp)

lemma send_flows_inv:
  "send_chunk_to_sniffer_plugin p s = Some s' \<Longrightarrow> flows_inv s \<Longrightarrow> flows_inv s'"
  by (erule send_frame) (simp_all add: flows_inv_def)

lemma grep_flows_inv:
  assumes "grep_flows_for_chunks object_rep s = Some s'" and "flows_inv s"
  shows "flows_inv s'"
proof -
  from assms(1) obtain fl s1 where g: "grep_flow_list object_rep (p_flow_list s) s = Some (fl, s1)"
    and s': "s' = s1\<lparr>p_flow_list := fl\<rparr>"
    by (auto simp: grep_flows_for_chunks_def bind_eq_Some_conv)
  have "map fst es' = map fst es" if "grep_flow_list object_rep es s = Some (es', s1)" for es es' s
    using that
    by (induction object_rep es s arbitrary: es' rule: grep_flow_list.induct)
       (fastforce simp: bind_eq_Some_conv)+
  from this [OF g] assms(2) show ?thesis unfolding s' by (simp add: flows_inv_def)
qed

interpretation flows: capture_invariant flows_inv
proof unfold_locales
  show "flows_inv (erase_block off k s)" if "flows_inv s" for s off k
    using that by (simp add: flows_inv_def erase_block_def map_fst_update)
qed (simp_all add: insert_flows_inv fill_flows_inv send_flows_inv grep_flows_inv,
    simp_all add: flows_inv_def SniffTcp_new_def)

section \<open>The chunks of a flow exist and know the flow\<close>

definition chunks_inv :: "SniffTcp \<Rightarrow> bool" where
  "chunks_inv s \<longleftrightarrow>
     (\<forall>fs cis. flow_chunk_map s fs = Some cis \<longrightarrow> cis \<noteq> [] \<and> distinct (map chunk_id cis) \<and>
        (\<forall>ci \<in> set cis. \<exists>rc. rc_map s (chunk_id ci) = Some rc \<and> fs \<in> dom (flow_seq_map rc))) \<and>
     (\<forall>cid rc. rc_map s cid = Some rc \<longrightarrow> p_chunk_id rc = cid \<and> 0 \<le> rc_length rc)"

text \<open>An update of \<open>rc_map\<close> that keeps ids, lengths and the flows known keeps the invariant.\<close>

lemma chunks_inv_update:
  assumes "chunks_inv s" and "rc_map s cid = Some rc" and "p_chunk_id rc' = p_chunk_id rc"
    and "rc_length rc' = rc_length rc" and "dom (flow_seq_map rc) \<subseteq> dom (flow_seq_map rc')"
    and "flow_chunk_map s' = flow_chunk_map s" and "rc_map s' = (rc_map s)(cid \<mapsto> rc')"
  shows "chunks_inv s'"
proof -
  have keep: "\<exists>rc2. rc_map s' c = Some rc2 \<and> fs \<in> dom (flow_seq_map rc2)"
    if "rc_map s c = Some rc1" "fs \<in> dom (flow_seq_map rc1)" for c rc1 fs
    using that assms(2,5,7) by (cases "c = cid") auto
  have ids: "p_chunk_id rc1 = c \<and> 0 \<le> rc_length rc1" if "rc_map s' c = Some rc1" for c rc1
    using that assms(1-4,7) by (cases "c = cid") (auto simp: chunks_inv_def)
  from assms(1) have "cis \<noteq> [] \<and> distinct (map chunk_id cis) \<and>
      (\<forall>ci \<in> set cis. \<exists>rc. rc_map s' (chunk_id ci) = Some rc \<and> fs \<in> dom (flow_seq_map rc))"
    if "flow_chunk_map s fs = Some cis" for fs cis
    using that keep unfolding chunks_inv_def by blast
  with ids show ?thesis unfolding chunks_inv_def assms(6) by blast
qed

lemma chunks_inv_frame:
  "chunks_inv s \<Longrightarrow> flow_chunk_map s' = flow_chunk_map s \<Longrightarrow> rc_map s' = rc_map s \<Longrightarrow> chunks_inv s'"
  by (simp add: chunks_inv_def)

lemma insert_chunks_inv:
  "SniffTcp_insert fid p sz seq s = Some (e, s') \<Longrightarrow> chunks_inv s \<Longrightarrow> chunks_inv s'"
  by (drule SniffTcp_insert_frame_ex) (auto elim!: chunks_inv_frame)

lemma fill_chunks_inv:
  assumes "SniffTcp_fill_gaps cid fid fs p sz seq s = Some (fin, e, s')" and "chunks_inv s"
  shows "chunks_inv s'"
  using assms(1)
proof (cases rule: SniffTcp_fill_gaps_cases)
  case (filled rc start diff s1 rc')
  have s1: "flow_chunk_map s1 = flow_chunk_map s" "rc_map s1 = rc_map s"
    using filled(4) by (cases "0 < diff"; auto dest: SniffTcp_insert_frame_ex)+
  show ?thesis
  proof (rule chunks_inv_update [OF assms(2) filled(1)])
    show "p_chunk_id rc' = p_chunk_id rc" "rc_length rc' = rc_length rc"
      "dom (flow_seq_map rc) \<subseteq> dom (flow_seq_map rc')"
      using fill_gaps_frame [OF filled(5)] by simp_all
    show "flow_chunk_map s' = flow_chunk_map s" by (subst filled(6)) (simp add: s1)
    show "rc_map s' = (rc_map s)(cid \<mapsto> rc')" by (subst filled(6)) (simp add: s1)
  qed
qed (use assms(2) in simp)

lemma send_chunks_inv:
  "send_chunk_to_sniffer_plugin p s = Some s' \<Longrightarrow> chunks_inv s \<Longrightarrow> chunks_inv s'"
  by (erule send_frame) (auto elim!: chunks_inv_frame)

lemma grep_chunks_inv:
  assumes "grep_flows_for_chunks object_rep s = Some s'" and "chunks_inv s"
  shows "chunks_inv s'"
proof -
  from assms(1) obtain fl s1 where g: "grep_flow_list object_rep (p_flow_list s) s = Some (fl, s1)"
    and s': "s' = s1\<lparr>p_flow_list := fl\<rparr>"
    by (auto simp: grep_flows_for_chunks_def bind_eq_Some_conv)
  have "chunks_inv s1"
    by (rule grep_flow_list_sends [where P = chunks_inv, OF send_chunks_inv g assms(2)])
  then show ?thesis by (rule chunks_inv_frame) (simp_all add: s')
qed

lemma new_rc_chunks_inv:
  assumes "chunks_inv s" and "rc_map s cid = None" and "0 \<le> len"
  shows "chunks_inv (s\<lparr>rc_map := (rc_map s)
    (cid \<mapsto> (ReconstructedChunk_new cid len)\<lparr>flow_seq_map := [fs \<mapsto> seq]\<rparr>)\<rparr>)"
proof -
  have "chunk_id ci \<noteq> cid" if "flow_chunk_map s f = Some cis" "ci \<in> set cis" for f cis ci
    using assms(1,2) that by (fastforce simp: chunks_inv_def)
  with assms(1,3) show ?thesis
    by (auto simp: chunks_inv_def ReconstructedChunk_new_def)
qed

lemma list_chunk_chunks_inv:
  assumes "chunks_inv s" and "rc_map s cid = Some rc" and "flow_seq_map rc fs \<noteq> None"
    and "lists_chunk cid (flow_chunk_map s fs) cis"
  shows "chunks_inv (s\<lparr>flow_chunk_map := (flow_chunk_map s)(fs \<mapsto> cis)\<rparr>)"
proof -
  have "\<exists>rc. rc_map s (chunk_id ci) = Some rc \<and> fs \<in> dom (flow_seq_map rc)" if "ci \<in> set cis" for ci
    using assms that by (fastforce simp: lists_chunk_def chunks_inv_def split: option.splits)
  moreover have "cis \<noteq> [] \<and> distinct (map chunk_id cis)"
    using assms(1,4) by (auto simp: lists_chunk_def chunks_inv_def split: option.splits)
  ultimately show ?thesis using assms(1) by (auto simp: chunks_inv_def)
qed

interpretation chunks: capture_invariant chunks_inv
proof unfold_locales
  show "chunks_inv (s\<lparr>rc_map := (rc_map s)
        (cid \<mapsto> rc\<lparr>flow_seq_map := (flow_seq_map rc)(fs \<mapsto> seq)\<rparr>)\<rparr>)"
    if "chunks_inv s" "rc_map s cid = Some rc" for s cid rc fs seq
    by (rule chunks_inv_update [OF that]) auto
next
  show "chunks_inv (SniffTcp_new multi)" for multi by (simp add: chunks_inv_def SniffTcp_new_def)
qed (erule (1) insert_chunks_inv fill_chunks_inv send_chunks_inv grep_chunks_inv |
    erule (2) new_rc_chunks_inv | erule (3) list_chunk_chunks_inv |
    (erule chunks_inv_frame; simp add: erase_block_def))+

section \<open>The counters count what was sent\<close>

definition counters_inv :: "SniffTcp \<Rightarrow> bool" where
  "counters_inv s \<longleftrightarrow> numChunksSniffed s = int (length (sent s)) \<and>
     numBytesOfChunksSniffed s = of_nat (\<Sum>d\<leftarrow>sent s. length d) \<and>
     (\<forall>d \<in> set (sent s). 1024 \<le> length d)"

lemma counters_inv_frame:
  "counters_inv s \<Longrightarrow> numChunksSniffed s' = numChunksSniffed s \<Longrightarrow>
   numBytesOfChunksSniffed s' = numBytesOfChunksSniffed s \<Longrightarrow> sent s' = sent s \<Longrightarrow> counters_inv s'"
  by (simp add: counters_inv_def)

lemma send_counters_inv:
  "send_chunk_to_sniffer_plugin p s = Some s' \<Longrightarrow> counters_inv s \<Longrightarrow> counters_inv s'"
  by (erule send_frame) (auto simp: counters_inv_def)

lemma fill_counters_inv:
  assumes "SniffTcp_fill_gaps cid fid fs p sz seq s = Some (fin, e, s')" and "counters_inv s"
  shows "counters_inv s'"
  using assms(2) by (rule counters_inv_frame) (subst SniffTcp_fill_gaps_frame [OF assms(1)], simp)+

lemma grep_counters_inv:
  assumes "grep_flows_for_chunks object_rep s = Some s'" and "counters_inv s"
  shows "counters_inv s'"
proof -
  from assms(1) obtain fl s1 where g: "grep_flow_list object_rep (p_flow_list s) s = Some (fl, s1)"
    and s': "s' = s1\<lparr>p_flow_list := fl\<rparr>"
    by (auto simp: grep_flows_for_chunks_def bind_eq_Some_conv)
  have "counters_inv s1"
    by (rule grep_flow_list_sends [where P = counters_inv, OF send_counters_inv g assms(2)])
  then show ?thesis by (rule counters_inv_frame) (simp_all add: s')
qed

interpretation counters: capture_invariant counters_inv
proof unfold_locales
  show "counters_inv s'" if "SniffTcp_insert fid p sz seq s = Some (e, s')" "counters_inv s"
    for fid p sz seq s e s'
    using SniffTcp_insert_frame_ex [OF that(1)] that(2) by (auto elim!: counters_inv_frame)
next
  show "counters_inv (SniffTcp_new multi)" for multi
    by (simp add: counters_inv_def SniffTcp_new_def)
qed (erule (1) fill_counters_inv send_counters_inv grep_counters_inv |
    (erule counters_inv_frame; simp add: erase_block_def))+

text \<open>A reachable state with a chunk, from one captured frame.\<close>

lemma sample_run:
  "map_option (\<lambda>s. (flow_chunk_map s sample_key,
      map_option (\<lambda>rc. (flow_seq_map rc sample_key, rc_length rc, length (lcb rc))) (rc_map s (replicate 20 5))))
     (my_callback_ethernet (sample_frame 80 [0, 0, 3, 232] (sample_header 4 24)) (SniffTcp_new True)) =
   Some (Some [ChunkInfo_new (replicate 20 5) 1000 1048], Some (Some 1000, 1048, 1))"
  by code_simp

lemma sample_reachable:
  obtains s rc where "reachable id s"
    and "flow_chunk_map s sample_key = Some [ChunkInfo_new (replicate 20 5) 1000 1048]"
    and "rc_map s (replicate 20 5) = Some rc" and "flow_seq_map rc sample_key = Some 1000"
    and "rc_length rc = 1048" and "length (lcb rc) = 1"
proof -
  from sample_run obtain s where
    run: "my_callback_ethernet (sample_frame 80 [0, 0, 3, 232] (sample_header 4 24))
      (SniffTcp_new True) = Some s"
    and "flow_chunk_map s sample_key = Some [ChunkInfo_new (replicate 20 5) 1000 1048]"
    and "map_option (\<lambda>rc. (flow_seq_map rc sample_key, rc_length rc, length (lcb rc)))
      (rc_map s (replicate 20 5)) = Some (Some 1000, 1048, 1)"
    by (auto simp only: map_option_eq_Some prod.inject)
  moreover have "reachable id s"
    by (rule reachable.step [OF reachable.start sniff_step.frame [OF run]])
  ultimately show thesis using that by (auto simp only: map_option_eq_Some prod.inject)
qed

section \<open>Properties\<close>

text \<open>C19. In every reachable state each block, of a flow or of a chunk, ends its size after its
  start, in 32-bit arithmetic.\<close>

theorem reachable_blocks_span:
  assumes "reachable object_rep s"
  shows "(\<forall>e \<in> set (p_flow_list s). \<forall>b \<in> set (snd e). next_expected_seq_number b =
      starting_seq_number b + of_nat (length (p_s_contiguous_block b))) \<and>
    (\<forall>cid rc. rc_map s cid = Some rc \<longrightarrow> (\<forall>b \<in> set (lcb rc). next_expected_seq_number b =
      starting_seq_number b + of_nat (length (p_s_contiguous_block b))))"
  using blocks.reachable [OF assms]
  by (auto simp: blocks_inv_def flows_span_def all_span_def spans_def)

lemma reachable_blocks_span_witness:
  "\<exists>s rc b. reachable id s \<and> rc_map s (replicate 20 5) = Some rc \<and> b \<in> set (lcb rc) \<and>
    next_expected_seq_number b = starting_seq_number b + of_nat (length (p_s_contiguous_block b))"
proof -
  obtain s rc where s: "reachable id s" "rc_map s (replicate 20 5) = Some rc" "length (lcb rc) = 1"
    by (rule sample_reachable)
  then have "hd (lcb rc) \<in> set (lcb rc)" by (cases "lcb rc") simp_all
  with reachable_blocks_span [OF s(1)] s show ?thesis by blast
qed

text \<open>C18. In every reachable state the chunk of every \<^verbatim>\<open>ChunkInfo\<close> of a flow is in
  \<^verbatim>\<open>chunkId_reconstructedChunk_map\<close> under its own id, and its \<^verbatim>\<open>flow_seq_map\<close> has the flow: the
  unchecked \<^verbatim>\<open>find\<close> of \<^verbatim>\<open>deal_with_pkt_without_chunkid\<close> never yields \<^verbatim>\<open>end()\<close>.\<close>

theorem reachable_chunks_known:
  assumes "reachable object_rep s" and "flow_chunk_map s fs = Some cis" and "ci \<in> set cis"
  shows "\<exists>rc start. rc_map s (chunk_id ci) = Some rc \<and> p_chunk_id rc = chunk_id ci \<and>
    flow_seq_map rc fs = Some start"
  using chunks.reachable [OF assms(1)] assms(2,3) by (fastforce simp: chunks_inv_def)

lemma reachable_chunks_known_witness:
  "\<exists>s rc start. reachable id s \<and> rc_map s (replicate 20 5) = Some rc \<and>
    flow_seq_map rc sample_key = Some start"
proof -
  obtain s where s: "reachable id s"
    "flow_chunk_map s sample_key = Some [ChunkInfo_new (replicate 20 5) 1000 1048]"
    by (rule sample_reachable)
  from reachable_chunks_known [OF s(1,2), of "ChunkInfo_new (replicate 20 5) 1000 1048"] s(1)
  show ?thesis by (auto simp: ChunkInfo_new_def)
qed

text \<open>In every reachable state the flow list has no flow twice and the counters agree with the
  calls made to the plugin: as many chunks, as many bytes (modulo \<open>2 ^ 64\<close>), none below the minimal
  chunk size.\<close>

theorem reachable_counters:
  assumes "reachable object_rep s"
  shows "distinct (map fst (p_flow_list s)) \<and> numChunksSniffed s = int (length (sent s)) \<and>
    numBytesOfChunksSniffed s = of_nat (sum_list (map length (sent s))) \<and>
    (\<forall>d \<in> set (sent s). MIN_CHUNK_SIZE \<le> int (length d))"
  using flows.reachable [OF assms] counters.reachable [OF assms]
  by (auto simp: flows_inv_def counters_inv_def MIN_CHUNK_SIZE_def)

lemma reachable_counters_witness:
  "\<exists>s rc. reachable id s \<and> rc_map s (replicate 20 5) = Some rc \<and>
    numChunksSniffed s = int (length (sent s))"
proof -
  obtain s rc where s: "reachable id s" "rc_map s (replicate 20 5) = Some rc"
    by (rule sample_reachable)
  from reachable_counters [OF s(1)] s show ?thesis by blast
qed

end
