(* ===== verification/SniffSafety.thy ===== *)
theory SniffSafety
  imports CaptureInv
begin

text \<open>
  Which calls of the sniffer always return: filling a chunk from a packet that starts inside it
  reads nothing outside the packet, whatever wraps or overlaps; the loops over candidates and over
  stored blocks end. Which calls read outside their buffer: a packet that lies behind the end of
  its chunk, a header cut off by the capture, a reply whose data length is larger than the reply.
\<close>

section \<open>What reaches beyond a chunk\<close>

lemma chunk_excess_within:
  assumes "0 \<le> len" and "len < 2 ^ 31" and "0 \<le> sz" and "sz < 2 ^ 31"
    and "start \<le> seq" and "seq \<le> start + word_of_int len"
  shows "chunk_excess seq sz start len =
    max 0 (sz - int (unat (start + word_of_int len) - unat seq))"
proof -
  let ?finish = "start + word_of_int len"
  let ?a = "unat ?finish - unat seq"
  have "unat (?finish - start) \<le> unat (word_of_int len :: u32)"
    using order_trans [OF assms(5,6)] by (intro sub_le_size32) simp_all
  moreover have "unat (word_of_int len :: u32) = nat len"
    using assms(1,2) by (intro unat_word_of_int32) simp_all
  moreover have "unat (?finish - start) = unat ?finish - unat start"
    using order_trans [OF assms(5,6)] by (rule unat_sub)
  moreover have "unat start \<le> unat seq" using assms(5) by (simp only: word_le_nat_alt)
  ultimately have "?a \<le> nat len" by linarith
  with assms(1,2) have a: "int ?a < 2 ^ 31" by linarith
  have "of_nat (unat (?finish - seq)) = ?finish - seq" by (rule of_nat_unat [THEN trans]) simp
  then have e: "?finish - seq = word_of_int (int ?a)" unfolding unat_sub [OF assms(6)] by simp
  have "(seq + word_of_int sz) - ?finish = word_of_int sz - (?finish - seq)" by simp
  then have d: "(seq + word_of_int sz) - ?finish = word_of_int (sz - int ?a)" unfolding e by simp
  have "sint (word_of_int (sz - int ?a) :: u32) = sz - int ?a"
    using a assms(3,4) by (intro sint_word_of_int32) linarith+
  moreover have "(if x < 0 then 0 else x) = max 0 x" for x :: int by simp
  ultimately show ?thesis unfolding chunk_excess_def Let_def d by (simp only:)
qed

section \<open>Filling a chunk reads only the packet\<close>

lemma load_suffix:
  assumes "load p 0 sz = Some bs" and "0 \<le> d" and "d \<le> sz"
  shows "load (padd p (sz - d)) 0 d = Some (drop (nat (sz - d)) bs)"
proof -
  have "load p (0 + (sz - d)) d = Some (slice bs (nat (sz - d)) (nat d))"
    using assms by (intro load_sub [OF assms(1)]) simp_all
  moreover have "length bs = nat sz" by (rule load_length [OF assms(1)])
  then have "slice bs (nat (sz - d)) (nat d) = drop (nat (sz - d)) bs"
    using assms(2,3) by (simp add: slice_def nat_diff_distrib)
  ultimately show ?thesis by simp
qed

lemma fill_returns:
  assumes "blocks_inv s" and "rc_map s cid = Some rc"
    and "load p 0 sz = Some bytes" and "sz < 2 ^ 31"
    and "\<And>start. flow_seq_map rc fs = Some start \<Longrightarrow> chunk_excess seq sz start (rc_length rc) \<le> sz"
  shows "\<exists>fin e s'. SniffTcp_fill_gaps cid fid fs p sz seq s = Some (fin, e, s')"
proof (cases "flow_seq_map rc fs")
  case None
  with assms(2) show ?thesis by (auto simp: SniffTcp_fill_gaps_def)
next
  case (Some start)
  define d where "d = chunk_excess seq sz start (rc_length rc)"
  have d: "0 \<le> d" "d \<le> sz"
    using assms(5) [OF Some] by (simp_all add: d_def chunk_excess_def Let_def)
  have "\<exists>e s1. (if 0 < d then SniffTcp_insert fid (padd p (sz - d)) d
      (seq + word_of_int sz - word_of_int d) s else Some (NoEdit, s)) = Some (e, s1)"
  proof (cases "0 < d")
    case True
    from assms(1) have "flows_span s" by (simp add: blocks_inv_def)
    from SniffTcp_insert_total [OF load_suffix [OF assms(3) d] this] True show ?thesis
      by (simp only: if_True) blast
  qed simp
  then obtain e s1 where i: "(if 0 < d then SniffTcp_insert fid (padd p (sz - d)) d
      (seq + word_of_int sz - word_of_int d) s else Some (NoEdit, s)) = Some (e, s1)" by blast
  have "load p 0 (sz - d) = Some (take (nat (sz - d)) bytes)"
    using d by (intro load_take [OF assms(3)]) simp_all
  moreover have "sz - d < 2 ^ 31" using d assms(4) by linarith
  moreover have "all_span (lcb rc)" using assms(1,2) by (simp add: blocks_inv_def)
  ultimately obtain fin rc' dup' where
    "fill_gaps_in_chunk fs p (sz - d) seq rc (numDuplicateBytes s1) = Some (fin, rc', dup')"
    using fill_gaps_total by blast
  with i Some assms(2) show ?thesis
    by (simp add: SniffTcp_fill_gaps_def Let_def d_def [symmetric])
qed

section \<open>The loop over candidates ends\<close>

text \<open>What one edit does to a list whose iterator is at \<open>k\<close>, counted by \<open>weight\<close>: two for each
  candidate from \<open>k\<close> on and one for each block.\<close>

definition weight :: "(ContiguousBlock \<Rightarrow> bool) \<Rightarrow> ContiguousBlock list \<Rightarrow> nat" where
  "weight c bs = 2 * length (filter c bs) + length bs"

lemma weight_simps [simp]: "weight c [] = 0"
  "weight c (b # bs) = (if c b then 3 else 1) + weight c bs"
  by (simp_all add: weight_def)

lemma weight_append [simp]: "weight c (xs @ ys) = weight c xs + weight c ys"
  by (simp add: weight_def)

text \<open>\<open>insert_loop\<close> on the whole list, relative to its start.\<close>

definition edited :: "(ContiguousBlock \<Rightarrow> bool) \<Rightarrow> edit \<Rightarrow> nat \<Rightarrow> ContiguousBlock list \<Rightarrow>
    ContiguousBlock list \<Rightarrow> bool" where
  "edited c e pos bs bs' \<longleftrightarrow> (case e of
     NoEdit \<Rightarrow> list_all2 (\<lambda>b b'. c b' \<longrightarrow> c b) bs bs'
   | InsertedAt j \<Rightarrow> pos \<le> j \<and> (\<exists>xs x ys. length xs = j - pos \<and> bs = xs @ ys \<and> bs' = xs @ x # ys \<and> \<not> c x)
   | ErasedAt j \<Rightarrow> pos < j \<and> (\<exists>xs b b' y ys. length xs = j - pos - 1 \<and> bs = xs @ b # y # ys \<and>
       bs' = xs @ b' # ys \<and> (c b' \<longrightarrow> c b)))"

lemma edited_Cons:
  assumes "edited c e (Suc pos) bs bs'"
  shows "edited c e pos (b # bs) (b # bs')"
proof (cases e)
  case NoEdit
  with assms show ?thesis by (simp add: edited_def)
next
  case (InsertedAt j)
  with assms obtain xs x ys where "Suc pos \<le> j" "length xs = j - Suc pos" "bs = xs @ ys"
    "bs' = xs @ x # ys" "\<not> c x" by (auto simp: edited_def)
  with InsertedAt show ?thesis
    by (simp add: edited_def) (intro exI [of _ "b # xs"], simp)
next
  case (ErasedAt j)
  with assms obtain xs a b' y ys where "Suc pos < j" "length xs = j - Suc pos - 1"
    "bs = xs @ a # y # ys" "bs' = xs @ b' # ys" "c b' \<longrightarrow> c a" by (auto simp: edited_def)
  with ErasedAt show ?thesis
    by (simp add: edited_def) (intro exI [of _ "b # xs"], auto)
qed

lemma edited_refl: "edited c NoEdit pos bs bs"
  by (simp add: edited_def list_all2_refl)

lemma insert_loop_edited:
  assumes "insert_loop p sz seq pos bs = Some (e, bs')"
    and "\<And>b. starting_seq_number b = seq \<Longrightarrow> \<not> c b"
    and "\<And>b b'. starting_seq_number b = starting_seq_number b' \<Longrightarrow> c b = c b'"
    and "\<forall>b \<in> set bs. \<not> bInit b"
  shows "edited c e pos bs bs'"
  using assms(1,4)
proof (induction bs arbitrary: pos e bs')
  case Nil
  then obtain x where "cb_append p sz seq ContiguousBlock_new = Some x"
    "e = InsertedAt pos" "bs' = [x]" by (auto simp: bind_eq_Some_conv)
  moreover from this(1) have "\<not> c x"
    by (intro assms(2)) (auto simp: cb_append_iff ContiguousBlock_new_def)
  ultimately show ?case by (simp add: edited_def)
next
  case (Cons b bs)
  consider (lt) "seq < next_expected_seq_number b" | (eq) "seq = next_expected_seq_number b"
    | (gt) "\<not> seq < next_expected_seq_number b" "seq \<noteq> next_expected_seq_number b" by blast
  then show ?case
  proof cases
    case lt
    consider (pre) "seq + word_of_int sz = starting_seq_number b"
      | (gap) "seq + word_of_int sz \<noteq> starting_seq_number b"
          "seq + word_of_int sz < starting_seq_number b"
      | (over) "seq + word_of_int sz \<noteq> starting_seq_number b"
          "\<not> seq + word_of_int sz < starting_seq_number b" by blast
    then show ?thesis
    proof cases
      case pre
      with lt Cons.prems(1) obtain b' where "cb_prepend p sz seq b = Some b'" "e = NoEdit" "bs' = b' # bs"
        by (auto simp: bind_eq_Some_conv)
      moreover from this(1) have "\<not> c b'" by (intro assms(2)) (auto simp: cb_prepend_iff)
      ultimately show ?thesis by (simp add: edited_def list_all2_refl)
    next
      case gap
      with lt Cons.prems(1) obtain x where "cb_append p sz seq ContiguousBlock_new = Some x"
        "e = InsertedAt pos" "bs' = x # b # bs" by (auto simp: bind_eq_Some_conv)
      moreover from this(1) have "\<not> c x"
        by (intro assms(2)) (auto simp: cb_append_iff ContiguousBlock_new_def)
      ultimately show ?thesis by (simp add: edited_def)
    next
      case over
      with lt Cons.prems(1) show ?thesis by (simp add: edited_refl)
    qed
  next
    case eq
    with Cons.prems(1) obtain b' where b': "cb_append p sz (seq + word_of_int sz) b = Some b'"
      by (auto simp: bind_eq_Some_conv)
    then have "starting_seq_number b' = starting_seq_number b"
      using Cons.prems(2) by (auto simp: cb_append_iff)
    then have c1: "c b' = c b" by (rule assms(3))
    show ?thesis
    proof (cases "\<exists>y ys. bs = y # ys \<and> next_expected_seq_number b' = starting_seq_number y")
      case True
      then obtain y ys where y: "bs = y # ys" "next_expected_seq_number b' = starting_seq_number y"
        by blast
      let ?m = "cb_append_string (p_s_contiguous_block y) (next_expected_seq_number y) b'"
      have "c ?m = c b'" by (rule assms(3)) (simp add: cb_append_string_def)
      with c1 eq b' y Cons.prems(1) show ?thesis by (auto simp: edited_def)
    next
      case False
      with eq b' Cons.prems(1) have "e = NoEdit" "bs' = b' # bs" by (auto split: list.splits)
      with c1 show ?thesis by (simp add: edited_def list_all2_refl)
    qed
  next
    case gt
    with Cons.prems(1) obtain bs1 where "insert_loop p sz seq (Suc pos) bs = Some (e, bs1)" "bs' = b # bs1"
      by (auto simp: bind_eq_Some_conv)
    with Cons.IH [OF this(1)] Cons.prems(2) show ?thesis by (auto intro: edited_Cons)
  qed
qed

lemma weight_mono:
  "list_all2 (\<lambda>b b'. c b' \<longrightarrow> c b) bs bs' \<Longrightarrow> weight c bs' \<le> weight c bs"
  by (induction rule: list_all2_induct) auto

lemma drop_erase_at: "k \<le> length xs \<Longrightarrow> drop k (erase_at k xs) = drop (Suc k) xs"
  by (simp add: erase_at_def)

lemma weight_drop_candidate:
  "k < length bs \<Longrightarrow> c (bs ! k) \<Longrightarrow> weight c (drop k bs) = 3 + weight c (drop (Suc k) bs)"
  by (simp flip: Cons_nth_drop_Suc)

text \<open>Taking a candidate lowers the weight of what is left, even when the rest behind the chunk is
  inserted further on.\<close>

lemma edited_weight:
  assumes "edited c e 0 bs bs'" and "k < length bs" and "c (bs ! k)" and "adjust e k = Some k'"
  shows "weight c (drop k' (erase_at k' bs')) < weight c (drop k bs)"
proof (cases e)
  case NoEdit
  with assms(1,4) have k: "k' = k" and all: "list_all2 (\<lambda>b b'. c b' \<longrightarrow> c b) bs bs'"
    by (simp_all add: edited_def adjust_def)
  from all have "length bs' = length bs" by (simp add: list_all2_lengthD)
  moreover have "weight c (drop (Suc k) bs') \<le> weight c (drop (Suc k) bs)"
    by (rule weight_mono) (use all in \<open>simp add: list_all2_dropI\<close>)
  ultimately show ?thesis
    using assms(2,3) k by (simp add: drop_erase_at weight_drop_candidate)
next
  case (InsertedAt j)
  with assms(1) obtain xs x ys where xs: "length xs = j" "bs = xs @ ys" "bs' = xs @ x # ys" "\<not> c x"
    by (auto simp: edited_def)
  show ?thesis
  proof (cases "j \<le> k")
    case True
    with InsertedAt assms(4) have "k' = Suc k" by (simp add: adjust_def)
    moreover have "drop (Suc (Suc k)) bs' = drop (Suc k) bs"
      using True xs by (simp add: Suc_diff_le)
    ultimately show ?thesis
      using assms(2,3) xs(2,3) by (simp only: drop_erase_at weight_drop_candidate) (simp add: drop_erase_at)
  next
    case False
    with InsertedAt assms(4) have "k' = k" by (simp add: adjust_def)
    moreover have "k < length xs" "c (xs ! k)"
      using False assms(3) xs by (auto simp: nth_append)
    ultimately show ?thesis
      using xs by (simp add: drop_erase_at weight_drop_candidate)
  qed
next
  case (ErasedAt j)
  with assms(1) obtain xs b b' y ys where xs: "0 < j" "length xs = j - 1" "bs = xs @ b # y # ys"
    "bs' = xs @ b' # ys" "c b' \<longrightarrow> c b" by (auto simp: edited_def)
  from ErasedAt assms(4) have j: "j \<noteq> k" "k' = (if j < k then k - 1 else k)"
    by (auto simp: adjust_def split: if_splits)
  show ?thesis
  proof (cases "j < k")
    case True
    then obtain i where i: "k = length xs + 2 + i" using xs(1,2)
      by (metis Suc_leI add_2_eq_Suc' add_Suc_right diff_Suc_1 gr0_conv_Suc le_Suc_ex)
    with True j have "k' = length xs + 1 + i" by simp
    moreover have "i < length ys" "c (ys ! i)"
      using assms(2,3) i xs(3) by (auto simp: nth_append)
    ultimately show ?thesis
      using i xs(3,4) by (simp add: drop_erase_at weight_drop_candidate)
  next
    case False
    then have k: "k' = k" "k \<le> length xs" using j xs(1,2) by auto
    show ?thesis
    proof (cases "k = length xs")
      case True
      with k assms(2,3) xs(3-5) show ?thesis by (simp add: drop_erase_at weight_drop_candidate)
    next
      case False
      with k assms(3) xs(3) have "k < length xs" "c (xs ! k)" by (auto simp: nth_append)
      with k xs(3-5) show ?thesis by (simp add: drop_erase_at weight_drop_candidate)
    qed
  qed
qed

definition loop_ctx :: "bytes \<Rightarrow> FlowId \<Rightarrow> string \<Rightarrow> tcp_seq \<Rightarrow> int \<Rightarrow> nat \<Rightarrow> SniffTcp \<Rightarrow> bool" where
  "loop_ctx cid fid fs start len off s \<longleftrightarrow> blocks_inv s \<and> get_flow_offset fid s = int off \<and>
     (\<exists>rc. rc_map s cid = Some rc \<and> flow_seq_map rc fs = Some start \<and> rc_length rc = len)"

lemma loop_ctx_length: "loop_ctx cid fid fs start len off s \<Longrightarrow> off < length (p_flow_list s)"
  by (cases rule: get_flow_offset_cases [of fid s]) (auto simp: loop_ctx_def)

lemma flow_offset_from_fst:
  "map fst es = map fst es' \<Longrightarrow> flow_offset_from i fid es = flow_offset_from i fid es'"
proof (induction es arbitrary: es' i)
  case (Cons e es)
  then obtain f fs where "es' = f # fs" "fst f = fst e" "map fst es = map fst fs"
    by (cases es') auto
  with Cons.IH [of fs "i + 1"] show ?case by simp
qed simp

lemma get_flow_offset_fst:
  "map fst (p_flow_list s) = map fst (p_flow_list s') \<Longrightarrow>
   get_flow_offset fid s = get_flow_offset fid s'"
  unfolding get_flow_offset_def by (rule flow_offset_from_fst)

lemma take_candidate_ctx:
  assumes "take_candidate cid fid fs off k s = Some (d, k', s')"
    and ctx: "loop_ctx cid fid fs start len off s"
    and k: "k < length (blocks_of off s)" and cand: "is_candidate start len (blocks_of off s ! k)"
  shows "loop_ctx cid fid fs start len off s'"
    and "weight (is_candidate start len) (drop k' (blocks_of off s')) <
      weight (is_candidate start len) (drop k (blocks_of off s))"
proof -
  let ?b = "blocks_of off s ! k"
  let ?p = "c_str (p_s_contiguous_block ?b)"
  let ?sz = "int_of_size (length (p_s_contiguous_block ?b))"
  let ?seq = "starting_seq_number ?b"
  from assms(1) obtain e s1 s2 where
    fill: "SniffTcp_fill_gaps cid fid fs ?p ?sz ?seq s = Some (d, e, s1)"
    and snd: "send_if_done cid d s1 = Some s2" and adj: "adjust e k = Some k'"
    and s': "s' = erase_block off k' s2"
    by (auto simp: take_candidate_def Let_def bind_eq_Some_conv)
  note len = loop_ctx_length [OF ctx]
  from ctx obtain rc where inv: "blocks_inv s" and off: "get_flow_offset fid s = int off"
    and rc: "rc_map s cid = Some rc" "flow_seq_map rc fs = Some start" "rc_length rc = len"
    by (auto simp: loop_ctx_def)
  have s2: "p_flow_list s2 = p_flow_list s1" "rc_map s2 = rc_map s1"
    using snd by (auto elim!: send_if_done_frame send_frame)
  have inv': "blocks_inv s'"
    unfolding s' by (rule blocks.erase, rule blocks.send_if_done [OF snd], rule blocks.fill [OF fill inv])
  from fill have "\<exists>bs'. edited (is_candidate start len) e 0 (blocks_of off s) bs' \<and>
      p_flow_list s1 = (p_flow_list s)[off := (fst (p_flow_list s ! off), bs')] \<and>
      (\<exists>rc'. rc_map s1 cid = Some rc' \<and> flow_seq_map rc' fs = Some start \<and> rc_length rc' = len)"
  proof (cases rule: SniffTcp_fill_gaps_cases)
    case (unknown rc1)
    with rc show ?thesis by simp
  next
    case (filled rc1 start1 diff s0 rc')
    with rc have rc1: "rc1 = rc" "start1 = start" by simp_all
    have rc': "rc_map s1 cid = Some rc' \<and> flow_seq_map rc' fs = Some start \<and> rc_length rc' = len"
      using fill_gaps_frame [OF filled(5)] rc rc1 by (subst filled(6)) simp
    have fl: "p_flow_list s1 = p_flow_list s0" by (subst filled(6)) simp
    show ?thesis
    proof (cases "0 < diff")
      case False
      with filled(4) have "e = NoEdit" "s0 = s" by simp_all
      with fl rc' show ?thesis
        by (intro exI [of _ "blocks_of off s"]) (simp add: edited_refl blocks_of_def list_update_same_conv)
    next
      case True
      then have seq: "?seq + word_of_int ?sz - word_of_int diff = start + word_of_int len"
        using filled(3) rc rc1 by (simp add: chunk_excess_def Let_def split: if_splits)
      from True filled(4) have ins: "SniffTcp_insert fid (padd ?p (?sz - diff)) diff
          (?seq + word_of_int ?sz - word_of_int diff) s = Some (e, s0)" by simp
      then show ?thesis
      proof (cases rule: SniffTcp_insert_cases)
        case (new c)
        with off show ?thesis by simp
      next
        case (old j bs')
        with off have "j = off" by simp
        have "edited (is_candidate start len) e 0 (blocks_of off s) bs'"
        proof (rule insert_loop_edited [OF old(4) [unfolded \<open>j = off\<close> seq]])
          show "\<forall>b \<in> set (blocks_of off s). \<not> bInit b"
            using inv flows_span_blocks [of s off] len
            by (auto simp: blocks_inv_def all_span_def spans_def)
        qed (auto simp: is_candidate_def)
        moreover have "p_flow_list s0 = (p_flow_list s)[off := (fst (p_flow_list s ! off), bs')]"
          using old(3,5) \<open>j = off\<close> by simp
        ultimately show ?thesis using fl rc' by auto
      qed
    qed
  qed
  then obtain bs' rc' where ed: "edited (is_candidate start len) e 0 (blocks_of off s) bs'"
    and fl: "p_flow_list s1 = (p_flow_list s)[off := (fst (p_flow_list s ! off), bs')]"
    and rc': "rc_map s1 cid = Some rc'" "flow_seq_map rc' fs = Some start" "rc_length rc' = len"
    by blast
  have fl': "p_flow_list s' = (p_flow_list s)[off := (fst (p_flow_list s ! off), erase_at k' bs')]"
    using len by (simp add: s' erase_block_def s2 fl)
  then have "map fst (p_flow_list s') = map fst (p_flow_list s)" by (simp only: map_fst_update)
  then have "get_flow_offset fid s' = int off" using off get_flow_offset_fst by metis
  moreover have "rc_map s' = rc_map s1" by (simp add: s' erase_block_def s2)
  ultimately show "loop_ctx cid fid fs start len off s'"
    using inv' rc' by (simp add: loop_ctx_def)
  have "blocks_of off s' = erase_at k' bs'" using len by (simp add: blocks_of_def fl')
  with edited_weight [OF ed k cand adj] show
    "weight (is_candidate start len) (drop k' (blocks_of off s')) <
      weight (is_candidate start len) (drop k (blocks_of off s))" by simp
qed

lemma deal_loop_fuel:
  "loop_ctx cid fid fs start len off s \<Longrightarrow>
   weight (is_candidate start len) (drop k (blocks_of off s)) < n \<Longrightarrow>
   deal_loop (n + m) cid fid fs start len off k b s = deal_loop n cid fid fs start len off k b s"
proof (induction n arbitrary: k b s)
  case (Suc n)
  show ?case
  proof (cases "k < length (blocks_of off s)")
    case k: True
    show ?thesis
    proof (cases "is_candidate start len (blocks_of off s ! k)")
      case True
      show ?thesis
      proof (cases "take_candidate cid fid fs off k s")
        case None
        with k True show ?thesis by simp
      next
        case (Some r)
        obtain d k' s' where r: "r = (d, k', s')" by (cases r)
        note tc = take_candidate_ctx [OF Some [unfolded r] Suc.prems(1) k True]
        with Suc.prems(2) have "weight (is_candidate start len) (drop k' (blocks_of off s')) < n"
          by simp
        from Suc.IH [OF tc(1) this] k True Some r show ?thesis by simp
      qed
    next
      case False
      have "weight (is_candidate start len) (drop k (blocks_of off s)) =
          1 + weight (is_candidate start len) (drop (Suc k) (blocks_of off s))"
        using k False by (simp flip: Cons_nth_drop_Suc)
      with Suc.prems(2) have "weight (is_candidate start len) (drop (Suc k) (blocks_of off s)) < n"
        by simp
      from Suc.IH [OF Suc.prems(1) this] k False show ?thesis by simp
    qed
  qed simp
qed simp

text \<open>One round of the loop, and the ways a run can go: the loop returns, or a candidate is reached
  whose treatment has no defined result.\<close>

inductive deal_round :: "bytes \<Rightarrow> FlowId \<Rightarrow> string \<Rightarrow> tcp_seq \<Rightarrow> int \<Rightarrow> nat \<Rightarrow> nat \<times> SniffTcp \<Rightarrow>
    nat \<times> SniffTcp \<Rightarrow> bool" for cid fid fs start len off where
  take: "k < length (blocks_of off s) \<Longrightarrow> is_candidate start len (blocks_of off s ! k) \<Longrightarrow>
    take_candidate cid fid fs off k s = Some (d, k', s') \<Longrightarrow>
    deal_round cid fid fs start len off (k, s) (k', s')"
| skip: "k < length (blocks_of off s) \<Longrightarrow> \<not> is_candidate start len (blocks_of off s ! k) \<Longrightarrow>
    deal_round cid fid fs start len off (k, s) (Suc k, s)"

lemma deal_loop_returns:
  "loop_ctx cid fid fs start len off s \<Longrightarrow>
   weight (is_candidate start len) (drop k (blocks_of off s)) < n \<Longrightarrow>
   (\<exists>r. deal_loop n cid fid fs start len off k b s = Some r) \<or>
   (\<exists>k' s'. (deal_round cid fid fs start len off)\<^sup>*\<^sup>* (k, s) (k', s') \<and>
      take_candidate cid fid fs off k' s' = None)"
proof (induction n arbitrary: k b s)
  case (Suc n)
  let ?R = "deal_round cid fid fs start len off"
  show ?case
  proof (cases "k < length (blocks_of off s)")
    case k: True
    show ?thesis
    proof (cases "is_candidate start len (blocks_of off s ! k)")
      case True
      show ?thesis
      proof (cases "take_candidate cid fid fs off k s")
        case None
        then show ?thesis by blast
      next
        case (Some r)
        obtain d k' s' where r: "r = (d, k', s')" by (cases r)
        note tc = take_candidate_ctx [OF Some [unfolded r] Suc.prems(1) k True]
        with Suc.prems(2) have "weight (is_candidate start len) (drop k' (blocks_of off s')) < n"
          by simp
        note ih = Suc.IH [OF tc(1) this, of "b \<or> d"]
        have "?R (k, s) (k', s')" using k True Some r by (intro deal_round.take) simp_all
        with ih k True Some r show ?thesis
          by (auto intro: converse_rtranclp_into_rtranclp simp del: split_paired_Ex)
      qed
    next
      case False
      have "weight (is_candidate start len) (drop k (blocks_of off s)) =
          1 + weight (is_candidate start len) (drop (Suc k) (blocks_of off s))"
        using k False by (simp flip: Cons_nth_drop_Suc)
      with Suc.prems(2) have "weight (is_candidate start len) (drop (Suc k) (blocks_of off s)) < n"
        by simp
      note ih = Suc.IH [OF Suc.prems(1) this, of b]
      have "?R (k, s) (Suc k, s)" using k False by (rule deal_round.skip)
      with ih k False show ?thesis
        by (auto intro: converse_rtranclp_into_rtranclp simp del: split_paired_Ex)
    qed
  qed simp
qed simp

section \<open>Calls that leave their buffer\<close>

lemma send_None_iff:
  assumes "extract_chunk_response p = Some (Some r)"
  shows "send_chunk_to_sniffer_plugin p s = None \<longleftrightarrow>
    load (chunk_data_base r) 0 (uint (chunk_data_len r)) = None"
  by (simp add: send_chunk_to_sniffer_plugin_def assms bind_eq_None_conv)

lemma extract_chunk_response_base:
  assumes "extract_chunk_response p = Some (Some r)"
  shows "chunk_data_base r = padd p 68"
proof -
  from assms obtain n where "extract_chunk_response p = Some (Some r)" and
    n: "get_length_from_byte_stream p = Some n" "\<not> n < MIN_PAYLOAD_LENGTH"
    by (auto simp: extract_chunk_response_def bind_eq_Some_conv split: if_splits)
  then show ?thesis
    by (auto simp: extract_chunk_response_def Let_def bind_eq_Some_conv padd_def
        DOT_OFFSET_FIELD_FROM_RPC_HEADER_def DOT_OFFSET_FIELD_LEN_def CHUNK_ID_LEN_FIELD_def
        LEN_OF_CHUNK_ID_def CHUNK_LEN_FIELD_def split: if_splits)
qed

section \<open>Properties\<close>



text \<open>C27. The loop of \<^verbatim>\<open>deal_with_candidates_for_chunk\<close> ends, although filling a chunk may insert a
  new block into the list it runs over: with the fuel it is given it returns, unless it reaches a
  candidate whose treatment reads outside memory, and more fuel changes nothing.\<close>

theorem candidates_loop_ends:
  assumes "blocks_inv s" and "get_flow_offset fid s = int off"
    and "rc_map s cid = Some rc" and "flow_seq_map rc fs = Some start"
  shows "((\<exists>r. deal_loop (deal_fuel off s) cid fid fs start (rc_length rc) off 0 b s = Some r) \<or>
      (\<exists>k' s'. (deal_round cid fid fs start (rc_length rc) off)\<^sup>*\<^sup>* (0, s) (k', s') \<and>
        take_candidate cid fid fs off k' s' = None)) \<and>
    deal_loop (deal_fuel off s + m) cid fid fs start (rc_length rc) off 0 b s =
      deal_loop (deal_fuel off s) cid fid fs start (rc_length rc) off 0 b s"
proof -
  have ctx: "loop_ctx cid fid fs start (rc_length rc) off s" using assms by (simp add: loop_ctx_def)
  have "length (filter c bs) \<le> length bs" for c :: "ContiguousBlock \<Rightarrow> bool" and bs
    by (rule length_filter_le)
  then have fuel: "weight (is_candidate start (rc_length rc)) (drop 0 (blocks_of off s)) < deal_fuel off s"
    by (simp add: weight_def deal_fuel_def less_Suc_eq_le)
  show ?thesis by (rule conjI [OF deal_loop_returns [OF ctx fuel] deal_loop_fuel [OF ctx fuel]])
qed

lemma candidates_loop_ends_witness:
  "\<exists>s fid. deal_loop (deal_fuel 0 s + 9) [1] fid ''f'' 5 7 0 0 False s =
     deal_loop (deal_fuel 0 s) [1] fid ''f'' 5 7 0 0 False s \<and> length (blocks_of 0 s) = 1"
proof -
  let ?fid = "FlowId_new [] [] 0 0"
  let ?b = "\<lparr>starting_seq_number = 7, next_expected_seq_number = 9,
    p_s_contiguous_block = [1, 2], bInit = False, bModified = True\<rparr>"
  let ?rc = "(ReconstructedChunk_new [1] 7)\<lparr>flow_seq_map := [''f'' \<mapsto> 5]\<rparr>"
  let ?s = "(SniffTcp_new True)\<lparr>p_flow_list := [(?fid, [?b])], rc_map := [[1] \<mapsto> ?rc]\<rparr>"
  have "blocks_inv ?s"
    by (simp add: blocks_inv_def flows_span_def spans_def ReconstructedChunk_new_def)
  moreover have "get_flow_offset ?fid ?s = int 0" by (simp add: get_flow_offset_def)
  ultimately have "deal_loop (deal_fuel 0 ?s + 9) [1] ?fid ''f'' 5 (rc_length ?rc) 0 0 False ?s =
      deal_loop (deal_fuel 0 ?s) [1] ?fid ''f'' 5 (rc_length ?rc) 0 0 False ?s"
    by (rule candidates_loop_ends [THEN conjunct2]) simp_all
  then show ?thesis
    by (intro exI [of _ ?s] exI [of _ ?fid]) (simp add: ReconstructedChunk_new_def blocks_of_def)
qed

text \<open>Two flows that announce different lengths for one chunk: a packet of the second that lies
  in its longer chunk but behind the end of the first makes the code compute a negative size and
  read in front of the packet.\<close>

theorem conflicting_lengths_read_outside:
  "dispatch [sample_frame 80 [0, 0, 3, 232] (sample_header 4 24),
             sample_frame 81 [0, 0, 3, 232] (sample_header 8 0)] (SniffTcp_new True) \<noteq> None \<and>
   dispatch [sample_frame 80 [0, 0, 3, 232] (sample_header 4 24),
             sample_frame 81 [0, 0, 3, 232] (sample_header 8 0),
             sample_frame 81 [0, 0, 9, 196] [1, 2, 3]] (SniffTcp_new True) = None"
  by code_simp

text \<open>A reply whose data length field is larger than what was received: sending it reads behind
  the buffer, since the field is checked against the minimum only.\<close>

theorem send_reads_beyond:
  assumes "extract_chunk_response p = Some (Some r)"
    and "int (length (fst p)) < snd p + 68 + uint (chunk_data_len r)"
  shows "send_chunk_to_sniffer_plugin p s = None"
  using assms by (simp add: send_None_iff extract_chunk_response_base load_def padd_def Let_def)

lemma send_reads_beyond_witness:
  "send_chunk_to_sniffer_plugin (c_str (sample_header 4 24)) (SniffTcp_new True) = None"
proof -
  have "map_option (map_option (\<lambda>r. chunk_data_len r)) (extract_chunk_response (c_str (sample_header 4 24))) =
      Some (Some 1024)" by code_simp
  then obtain r where r: "extract_chunk_response (c_str (sample_header 4 24)) = Some (Some r)"
    "chunk_data_len r = 1024" by auto
  have "length (sample_header 4 24) = 76" by code_simp
  with send_reads_beyond [OF r(1)] r(2) show ?thesis by (simp add: c_str_def)
qed

text \<open>A frame too short for an IP header, or whose protocol byte is not TCP, leaves the sniffer
  unchanged, and nothing outside the frame is read.\<close>

theorem non_tcp_ignored:
  assumes "length pkt < 34 \<or> pkt ! 23 \<noteq> IPPROTO_TCP"
  shows "my_callback_ethernet pkt s = Some s"
proof (cases "length pkt < 34")
  case True
  then show ?thesis
    by (auto simp: my_callback_ethernet_def handle_ethernet_def handle_ip_def ETHER_HDRLEN_def
        EXTRACT_16BITS_def load8_def ETHERTYPE_IP_def)
next
  case False
  with assms show ?thesis
    by (auto simp: my_callback_ethernet_def handle_ethernet_def handle_ip_def ETHER_HDRLEN_def
        EXTRACT_16BITS_def load8_def padd_def Let_def)
qed

lemma non_tcp_ignored_witness:
  "my_callback_ethernet (replicate 60 8) (SniffTcp_new True) = Some (SniffTcp_new True)"
  by (rule non_tcp_ignored) (simp add: IPPROTO_TCP_def)

text \<open>The TCP header is read before its length is checked against the packet: an IP packet with
  protocol TCP that ends with its IP header makes \<^verbatim>\<open>handle_ip\<close> read behind the frame.\<close>

theorem tcp_header_unchecked:
  assumes "length pkt = 34" and "pkt ! 12 = 8" and "pkt ! 13 = 0" and "pkt ! 14 = 0x45"
    and "pkt ! 16 = 0" and "pkt ! 17 = 20" and "pkt ! 23 = IPPROTO_TCP"
  shows "my_callback_ethernet pkt s = None"
  using assms
  by (simp add: my_callback_ethernet_def handle_ethernet_def handle_ip_def ETHER_HDRLEN_def
      EXTRACT_16BITS_def load8_def padd_def Let_def handle_tcp_def be16_def ETHERTYPE_IP_def
      IP_HL_def IP_V_def)

lemma tcp_header_unchecked_witness:
  "my_callback_ethernet (take 34 ((sample_frame 80 [0, 0, 0, 0] [])[17 := 20])) (SniffTcp_new True) = None"
  by (rule tcp_header_unchecked) code_simp+

end
