(* ===== verification/SniffDelivery.thy ===== *)
theory SniffDelivery
  imports SniffSafety
begin

text \<open>
  The sniffer end to end on one flow: a chunk reply cut into TCP packets that arrive in any order
  after the first one, with retransmissions, is handed to the plugin once, with the bytes of the
  chunk, as soon as the last byte is there. \<open>chunk_record\<close> says what a reply looks like,
  \<open>carries_chunk\<close> what a packet of it is.
\<close>

section \<open>The reply\<close>

definition chunk_record :: "bytes \<Rightarrow> bytes \<Rightarrow> bool" where
  "chunk_record D data \<longleftrightarrow>
     get_length_from_byte_stream (D, 0) = Some (int (length D)) \<and>
     MIN_PAYLOAD_LENGTH \<le> int (length D) \<and>
     EXTRACT_32BITS (D, 0) 40 = Some 20 \<and>
     (case EXTRACT_32BITS (D, 0) 64 of
        None \<Rightarrow> False
      | Some n \<Rightarrow> 1024 \<le> uint n \<and> 68 + unat n \<le> length D \<and> data = slice D 68 (unat n))"

lemma chunk_record_size: "chunk_record D data \<Longrightarrow> 0 < length data \<and> length data \<le> length D"
proof -
  assume "chunk_record D data"
  then obtain n :: u32 where n: "1024 \<le> uint n" "68 + unat n \<le> length D" "data = slice D 68 (unat n)"
    by (auto simp: chunk_record_def split: option.splits)
  then have "length data = unat n" by (simp add: length_slice)
  moreover have "0 < unat n" using n(1) by (simp add: unat_gt_0) auto
  ultimately show ?thesis using n(2) by linarith
qed

lemma load8_c_str: "load8 (D, 0) k = Some b \<Longrightarrow> load8 (c_str D) k = Some b"
  by (auto simp: load8_def c_str_def Let_def nth_append split: if_splits)

lemma EXTRACT_32BITS_c_str: "EXTRACT_32BITS (D, 0) k = Some w \<Longrightarrow> EXTRACT_32BITS (c_str D) k = Some w"
  by (auto simp: EXTRACT_32BITS_def bind_eq_Some_conv load8_c_str)

lemma get_length_c_str_record:
  "get_length_from_byte_stream (D, 0) = Some n \<Longrightarrow> get_length_from_byte_stream (c_str D) = Some n"
  by (auto simp: get_length_from_byte_stream_def bind_eq_Some_conv load8_c_str)

lemma EXTRACT_32BITS_padd: "EXTRACT_32BITS (padd p j) k = EXTRACT_32BITS p (j + k)"
  by (simp add: EXTRACT_32BITS_def add.assoc)

lemma chunk_record_length: "chunk_record D data \<Longrightarrow> length D < 2 ^ 31 \<and> 1048 \<le> length D"
  using get_length_bounds(2) [of "(D, 0)" "int (length D)"]
  by (auto simp: chunk_record_def MIN_PAYLOAD_LENGTH_def MIN_CHUNK_SIZE_def RPC_HEADER_LEN_def)

lemma send_record:
  assumes "chunk_record D data"
  shows "send_chunk_to_sniffer_plugin (c_str D) s =
    Some (s\<lparr>numChunksSniffed := numChunksSniffed s + 1,
            numBytesOfChunksSniffed := numBytesOfChunksSniffed s + of_nat (length data),
            sent := sent s @ [data]\<rparr>)"
proof -
  from assms obtain n where len: "get_length_from_byte_stream (c_str D) = Some (int (length D))"
    and min: "MIN_PAYLOAD_LENGTH \<le> int (length D)"
    and id: "EXTRACT_32BITS (c_str D) 40 = Some 20" and n: "EXTRACT_32BITS (c_str D) 64 = Some n"
    and data: "1024 \<le> uint n" "68 + unat n \<le> length D" "data = slice D 68 (unat n)"
    by (auto simp: chunk_record_def get_length_c_str_record EXTRACT_32BITS_c_str
        split: option.splits)
  have "load (c_str D) 0 (int (length D)) = Some D" by (simp add: load_c_str)
  then have "load (c_str D) (0 + 68) (int (unat n)) =
      Some (slice D (nat 68) (nat (int (unat n))))"
    using of_nat_mono [OF data(2), where 'a = int] by (intro load_sub) simp_all
  then have ld: "load (padd (c_str D) 68) 0 (uint n) = Some data" by (simp add: data(3))
  have "extract_chunk_response (c_str D) = Some (Some \<lparr>chunk_id_base = padd (c_str D) 44,
      chunk_id_len = 20, chunk_data_base = padd (c_str D) 68, chunk_data_len = n\<rparr>)"
    using len min id n data(1)
    by (simp add: extract_chunk_response_def Let_def EXTRACT_32BITS_padd layout_defs not_less)
  with ld show ?thesis by (simp add: send_chunk_to_sniffer_plugin_def)
qed

section \<open>Packets of the reply\<close>

text \<open>The first packet announces the chunk, the others do not look like an announcement.\<close>

definition carries_chunk :: "bytes \<Rightarrow> bytes \<Rightarrow> tcp_seq \<Rightarrow> cptr \<times> int \<times> tcp_seq \<Rightarrow> bool" where
  "carries_chunk D cid start x = (case x of (p, sz, seq) \<Rightarrow>
     0 < sz \<and> segment D p sz (unat (seq - start)) \<and>
     (if seq = start then 4 \<le> sz \<and> getChunkId p sz = Some (Some (cid, 0))
      else getChunkId p sz = Some None))"

definition place :: "tcp_seq \<Rightarrow> cptr \<times> int \<times> tcp_seq \<Rightarrow> nat set" where
  "place start x = (case x of (p, sz, seq) \<Rightarrow> {unat (seq - start)..<unat (seq - start) + nat sz})"

definition good_rc :: "bytes \<Rightarrow> string \<Rightarrow> tcp_seq \<Rightarrow> nat set set \<Rightarrow> ReconstructedChunk \<Rightarrow> bool" where
  "good_rc D fs start R rc \<longleftrightarrow> flow_seq_map rc = [fs \<mapsto> start] \<and> rebuilds D rc \<and>
     nonempty (lcb rc) \<and> received rc = \<Union> R"

definition aligned :: "nat set set \<Rightarrow> nat set \<Rightarrow> bool" where
  "aligned R r \<longleftrightarrow> (\<forall>q \<in> R. q = r \<or> q \<inter> r = {})"

text \<open>Filling the chunk from such a packet: nothing reaches beyond it, and the state changes in the
  chunk only.\<close>

lemma carries_excess:
  assumes seg: "segment D p sz (unat (seq - start))" and sz: "0 < sz"
    and len: "length D < 2 ^ 31" and fit: "unat start + length D < 2 ^ 32"
  shows "chunk_excess seq sz start (int (length D)) = 0" and "start \<le> seq"
    and "seq < start + word_of_int (int (length D))"
proof -
  let ?n = "unat (seq - start)" and ?L = "length D"
  from seg have n: "?n + nat sz \<le> ?L" by (simp add: segment_def)
  have ends: "unat (start + word_of_int (int ?L)) = unat start + ?L"
    using unat_add_of_nat32 [OF fit] by simp
  have "unat (start + of_nat ?n) = unat start + ?n"
    using n fit by (intro unat_add_of_nat32) simp
  moreover have "start + of_nat ?n = seq" by simp
  ultimately have seq: "unat seq = unat start + ?n" by (simp only:)
  then show le: "start \<le> seq" by (simp add: word_le_nat_alt)
  show "seq < start + word_of_int (int ?L)"
    using ends seq n sz by (simp only: word_less_nat_alt)
  then have "seq \<le> start + word_of_int (int ?L)" by simp
  moreover have "nat sz < 2 ^ 31" using n len by linarith
  then have "sz < 2 ^ 31" by (simp add: nat_less_iff)
  ultimately have "chunk_excess seq sz start (int ?L) =
      max 0 (sz - int (unat (start + word_of_int (int ?L)) - unat seq))"
    using len sz le by (intro chunk_excess_within) simp_all
  also have "sz - int (unat (start + word_of_int (int ?L)) - unat seq) \<le> 0"
    unfolding ends seq using n sz by linarith
  then have "max 0 (sz - int (unat (start + word_of_int (int ?L)) - unat seq)) = 0"
    by (rule max_absorb1)
  finally show "chunk_excess seq sz start (int ?L) = 0" .
qed

lemma fill_carries:
  assumes "rc_map s cid = Some rc" and good: "good_rc D fs start R rc"
    and seg: "segment D p sz (unat (seq - start))" and sz: "0 < sz"
    and len: "length D < 2 ^ 31" and fit: "unat start + length D < 2 ^ 32" and ne: "D \<noteq> []"
    and al: "aligned R (place start (p, sz, seq))"
  obtains fin rc' dup where
    "SniffTcp_fill_gaps cid fid fs p sz seq s = Some (fin, NoEdit,
       s\<lparr>rc_map := (rc_map s)(cid \<mapsto> rc'), numDuplicateBytes := dup\<rparr>)"
    and "good_rc D fs start (insert (place start (p, sz, seq)) R) rc'"
    and "fin \<longleftrightarrow> \<Union> R \<noteq> {..<length D} \<and> \<Union> (insert (place start (p, sz, seq)) R) = {..<length D}"
proof -
  let ?n = "unat (seq - start)"
  from good have fs: "flow_seq_map rc fs = Some start" and rb: "rebuilds D rc"
    and nonempty: "nonempty (lcb rc)" and rec: "received rc = \<Union> R"
    by (simp_all add: good_rc_def)
  have rl: "rc_length rc = int (length D)" using rb by (simp add: rebuilds_def)
  note ex = carries_excess(1) [OF seg sz len fit]
  obtain fin rc' dup where f: "fill_gaps_in_chunk fs p sz seq rc (numDuplicateBytes s) = Some (fin, rc', dup)"
      "rebuilds D rc'" "flow_seq_map rc' = flow_seq_map rc"
      "received rc' = received rc \<union> {?n..<kept_end ?n (?n + nat sz) (lcb rc)}"
      "fin \<longleftrightarrow> received rc \<noteq> {..<length D} \<and> received rc' = {..<length D}"
    by (rule fill_gaps_refines [OF rb ne fs seg])
  have "kept_end ?n (?n + nat sz) (lcb rc) = ?n + nat sz"
    by (rule aligned_no_overrun [OF rb nonempty _ rec])
       (use sz al in \<open>auto simp: aligned_def place_def\<close>)
  with f(4) rec have rec': "received rc' = \<Union> (insert (place start (p, sz, seq)) R)"
    by (simp add: place_def Un_commute)
  have "nonempty (lcb rc')" by (rule fill_gaps_nonempty [OF f(1) sz nonempty])
  then have "good_rc D fs start (insert (place start (p, sz, seq)) R) rc'"
    using f(2,3) good rec' by (simp add: good_rc_def)
  moreover have "SniffTcp_fill_gaps cid fid fs p sz seq s = Some (fin, NoEdit,
       s\<lparr>rc_map := (rc_map s)(cid \<mapsto> rc'), numDuplicateBytes := dup\<rparr>)"
    using assms(1) fs f(1) ex by (simp add: SniffTcp_fill_gaps_def rl)
  ultimately show thesis using that f(5) rec rec' by metis
qed

text \<open>The state of the sniffer while the reply arrives.\<close>

definition carrying :: "bytes \<Rightarrow> bytes \<Rightarrow> string \<Rightarrow> tcp_seq \<Rightarrow> nat set set \<Rightarrow> SniffTcp \<Rightarrow> bool" where
  "carrying D cid fs start R s \<longleftrightarrow> g_multi_chances s \<and>
     flow_chunk_map s fs = Some [ChunkInfo_new cid start (int (length D))] \<and>
     (\<exists>rc. rc_map s cid = Some rc \<and> good_rc D fs start R rc)"

text \<open>Filling and sending, together: the chunk goes out with the packet that completes it.\<close>

lemma fill_and_send:
  assumes rec: "chunk_record D data" and rc: "rc_map s cid = Some rc"
    and good: "good_rc D fs start R rc"
    and seg: "segment D p sz (unat (seq - start))" and sz: "0 < sz"
    and fit: "unat start + length D < 2 ^ 32"
    and al: "aligned R (place start (p, sz, seq))"
  obtains fin s1 s2 where "SniffTcp_fill_gaps cid fid fs p sz seq s = Some (fin, NoEdit, s1)"
    and "send_if_done cid fin s1 = Some s2"
    and "sent s2 = sent s @ (if fin then [data] else [])"
    and "fin \<longleftrightarrow> \<Union> R \<noteq> {..<length D} \<and> \<Union> (insert (place start (p, sz, seq)) R) = {..<length D}"
    and "p_flow_list s2 = p_flow_list s" and "flow_chunk_map s2 = flow_chunk_map s"
    and "g_multi_chances s2 = g_multi_chances s"
    and "\<exists>rc. rc_map s2 cid = Some rc \<and> good_rc D fs start (insert (place start (p, sz, seq)) R) rc"
proof -
  have len: "length D < 2 ^ 31" and ne: "D \<noteq> []" using chunk_record_length [OF rec] by auto
  let ?R = "insert (place start (p, sz, seq)) R"
  obtain fin rc' dup where f: "SniffTcp_fill_gaps cid fid fs p sz seq s = Some (fin, NoEdit,
       s\<lparr>rc_map := (rc_map s)(cid \<mapsto> rc'), numDuplicateBytes := dup\<rparr>)"
      and g: "good_rc D fs start ?R rc'"
      and fin: "fin \<longleftrightarrow> \<Union> R \<noteq> {..<length D} \<and> \<Union> ?R = {..<length D}"
    by (rule fill_carries [OF rc good seg sz len fit ne al])
  let ?s1 = "s\<lparr>rc_map := (rc_map s)(cid \<mapsto> rc'), numDuplicateBytes := dup\<rparr>"
  show thesis
  proof (cases fin)
    case False
    then have "send_if_done cid fin ?s1 = Some ?s1" by (simp add: send_if_done_def)
    from that [OF f this _ fin] show thesis using False g by simp
  next
    case True
    with fin g have "rebuilds D rc'" "received rc' = {..<length D}" by (simp_all add: good_rc_def)
    then have "get_data rc' = Some (c_str D)" using ne by (intro complete_get_data)
    then have "send_if_done cid fin ?s1 = send_chunk_to_sniffer_plugin (c_str D) ?s1"
      using True by (simp add: send_if_done_def)
    then obtain s2 where s2: "send_if_done cid fin ?s1 = Some s2"
      and "s2 = ?s1\<lparr>numChunksSniffed := numChunksSniffed ?s1 + 1,
        numBytesOfChunksSniffed := numBytesOfChunksSniffed ?s1 + of_nat (length data),
        sent := sent ?s1 @ [data]\<rparr>" using send_record [OF rec, of ?s1] by simp
    then show thesis by (intro that [OF f s2 _ fin]) (use True g in simp_all)
  qed
qed

lemma old_packet:
  assumes rec: "chunk_record D data" and car: "carrying D cid (toString fid) start R s"
    and x: "carries_chunk D cid start (p, sz, seq)" and fit: "unat start + length D < 2 ^ 32"
    and al: "aligned R (place start (p, sz, seq))"
  obtains s' fin where "tcp_payload fid p sz seq s = Some s'"
    and "carrying D cid (toString fid) start (insert (place start (p, sz, seq)) R) s'"
    and "sent s' = sent s @ (if fin then [data] else [])"
    and "fin \<longleftrightarrow> \<Union> R \<noteq> {..<length D} \<and> \<Union> (insert (place start (p, sz, seq)) R) = {..<length D}"
proof -
  let ?fs = "toString fid" and ?ci = "ChunkInfo_new cid start (int (length D))"
  from x have sz: "0 < sz" and seg: "segment D p sz (unat (seq - start))"
    by (simp_all add: carries_chunk_def)
  have len: "length D < 2 ^ 31" using chunk_record_length [OF rec] by simp
  from car obtain rc where multi: "g_multi_chances s" and fc: "flow_chunk_map s ?fs = Some [?ci]"
    and rc: "rc_map s cid = Some rc" and good: "good_rc D ?fs start R rc"
    by (auto simp: carrying_def)
  have pay: "tcp_payload fid p sz seq s = old_flow_packet fid ?fs p sz seq s"
    using multi fc by (simp add: tcp_payload_def)
  show thesis
  proof (cases "seq = start")
    case False
    then have "getChunkId p sz = Some None" using x by (simp add: carries_chunk_def)
    moreover have "lies_within ?ci seq"
      using carries_excess(2,3) [OF seg sz len fit] False by (simp add: lies_within_def ChunkInfo_new_def)
    moreover obtain fin s1 s2 where
      "SniffTcp_fill_gaps cid fid ?fs p sz seq s = Some (fin, NoEdit, s1)"
      "send_if_done cid fin s1 = Some s2"
      "sent s2 = sent s @ (if fin then [data] else [])"
      "fin \<longleftrightarrow> \<Union> R \<noteq> {..<length D} \<and> \<Union> (insert (place start (p, sz, seq)) R) = {..<length D}"
      "flow_chunk_map s2 = flow_chunk_map s" "g_multi_chances s2 = g_multi_chances s"
      "\<exists>rc. rc_map s2 cid = Some rc \<and> good_rc D ?fs start (insert (place start (p, sz, seq)) R) rc"
      by (rule fill_and_send [OF rec rc good seg sz fit al])
    ultimately show thesis
      using multi fc pay
      by (intro that [of s2 fin])
         (simp_all add: old_flow_packet_def deal_with_pkt_without_chunkid_def carrying_def
           ChunkInfo_new_def)
  next
    case True
    let ?s1 = "s\<lparr>rc_map := (rc_map s)(cid \<mapsto> rc)\<rparr>"
    have same: "rc\<lparr>flow_seq_map := (flow_seq_map rc)(?fs \<mapsto> seq)\<rparr> = rc"
      using True good by (simp add: good_rc_def)
    have g: "getChunkId p sz = Some (Some (cid, 0))" using x True by (simp add: carries_chunk_def)
    obtain fin s1 s2 where f:
      "SniffTcp_fill_gaps cid fid ?fs p sz seq ?s1 = Some (fin, NoEdit, s1)"
      "send_if_done cid fin s1 = Some s2"
      "sent s2 = sent ?s1 @ (if fin then [data] else [])"
      "fin \<longleftrightarrow> \<Union> R \<noteq> {..<length D} \<and> \<Union> (insert (place start (p, sz, seq)) R) = {..<length D}"
      "flow_chunk_map s2 = flow_chunk_map ?s1" "g_multi_chances s2 = g_multi_chances ?s1"
      "\<exists>rc. rc_map s2 cid = Some rc \<and> good_rc D ?fs start (insert (place start (p, sz, seq)) R) rc"
      by (rule fill_and_send [OF rec _ good seg sz fit al, of ?s1 cid]) simp
    have "old_flow_packet fid ?fs p sz seq s = Some s2"
      using g fc rc f(1,2) same
      by (simp add: old_flow_packet_def add_chunk_info_def ChunkInfo_new_def seen_chunk_def Let_def)
    with f multi fc pay show thesis
      by (intro that [of s2 fin]) (simp_all add: carrying_def)
  qed
qed

lemma first_packet:
  assumes rec: "chunk_record D data" and x: "carries_chunk D cid start (p, sz, start)"
    and fit: "unat start + length D < 2 ^ 32" and multi: "g_multi_chances s"
    and fc: "flow_chunk_map s (toString fid) = None" and rc0: "rc_map s cid = None"
    and fl: "get_flow_offset fid s = - 1"
  obtains s' fin where "tcp_payload fid p sz start s = Some s'"
    and "carrying D cid (toString fid) start {place start (p, sz, start)} s'"
    and "sent s' = sent s @ (if fin then [data] else [])"
    and "fin \<longleftrightarrow> place start (p, sz, start) = {..<length D}"
proof -
  let ?fs = "toString fid" and ?ci = "ChunkInfo_new cid start (int (length D))"
  let ?rc = "(ReconstructedChunk_new cid (int (length D)))\<lparr>flow_seq_map := [?fs \<mapsto> start]\<rparr>"
  let ?s1 = "s\<lparr>flow_chunk_map := (flow_chunk_map s)(?fs \<mapsto> [?ci]), rc_map := (rc_map s)(cid \<mapsto> ?rc)\<rparr>"
  from x have sz: "4 \<le> sz" and seg: "segment D p sz (unat (start - start))"
    and g: "getChunkId p sz = Some (Some (cid, 0))" by (simp_all add: carries_chunk_def)
  have len: "length D < 2 ^ 31" and ne: "D \<noteq> []" using chunk_record_length [OF rec] by auto
  have "load8 p k = load8 (D, 0) k" if "0 \<le> k" "k < 4" for k
  proof -
    from seg have "load p 0 sz = Some (take (nat sz) D)" and "nat sz \<le> length D"
      by (simp_all add: segment_def slice_full)
    then have "0 \<le> snd p" "snd p + sz \<le> int (length (fst p))"
      and t: "take (nat sz) (drop (nat (snd p)) (fst p)) = take (nat sz) D"
      by (auto simp: load_def Let_def split: if_splits)
    moreover have "fst p ! nat (snd p + k) = D ! nat k"
      using arg_cong [OF t, of "\<lambda>l. l ! nat k"] that sz calculation(1,2) by (simp add: nat_add_distrib)
    ultimately show ?thesis using that sz \<open>nat sz \<le> length D\<close> by (simp add: load8_def)
  qed
  from this [of 0] this [of 1] this [of 2] this [of 3]
  have "get_length_from_byte_stream p = get_length_from_byte_stream (D, 0)"
    by (simp add: get_length_from_byte_stream_def)
  with rec have gl: "get_length_from_byte_stream p = Some (int (length D))"
    by (simp add: chunk_record_def)
  have good: "good_rc D ?fs start {} ?rc"
    using rebuilds_new [OF len, of cid]
    by (simp add: good_rc_def rebuilds_def ReconstructedChunk_new_def nonempty_def received_def)
  have "aligned {} (place start (p, sz, start))" by (simp add: aligned_def)
  moreover have "0 < sz" using sz by simp
  ultimately obtain fin s1 s2 where f:
      "SniffTcp_fill_gaps cid fid ?fs p sz start ?s1 = Some (fin, NoEdit, s1)"
      "send_if_done cid fin s1 = Some s2"
      "sent s2 = sent ?s1 @ (if fin then [data] else [])"
      "fin \<longleftrightarrow> \<Union> {} \<noteq> {..<length D} \<and> \<Union> {place start (p, sz, start)} = {..<length D}"
      "p_flow_list s2 = p_flow_list ?s1"
      "flow_chunk_map s2 = flow_chunk_map ?s1" "g_multi_chances s2 = g_multi_chances ?s1"
      "\<exists>rc. rc_map s2 cid = Some rc \<and> good_rc D ?fs start {place start (p, sz, start)} rc"
    by - (rule fill_and_send [OF rec _ good seg _ fit, of ?s1 cid], simp_all)
  then obtain rc2 where rc2: "rc_map s2 cid = Some rc2"
    "good_rc D ?fs start {place start (p, sz, start)} rc2" by blast
  let ?s3 = "s2\<lparr>rc_map := (rc_map s2)(cid \<mapsto> rc2)\<rparr>"
  have same: "rc2\<lparr>flow_seq_map := (flow_seq_map rc2)(?fs \<mapsto> start)\<rparr> = rc2"
    and fs2: "flow_seq_map rc2 ?fs = Some start"
    using rc2(2) by (simp_all add: good_rc_def)
  have "get_flow_offset fid ?s3 = - 1" using fl f(5) by (simp add: get_flow_offset_def)
  then have "deal_with_candidates_for_chunk cid fid ?fs s2 = Some (False, ?s3)"
    using rc2(1) fs2 same by (simp add: deal_with_candidates_for_chunk_def Let_def)
  with f(1,2) gl have "unseen_chunk cid fid ?fs p sz start
      (s\<lparr>flow_chunk_map := (flow_chunk_map s)(?fs \<mapsto> [?ci])\<rparr>) = Some ?s3"
    by (simp add: unseen_chunk_def Let_def)
  then have "tcp_payload fid p sz start s = Some ?s3"
    using multi fc g gl rc0 by (simp add: tcp_payload_def new_flow_packet_def)
  moreover have "carrying D cid ?fs start {place start (p, sz, start)} ?s3"
    using f(6,7) multi rc2(2) by (simp add: carrying_def)
  moreover have "sent ?s3 = sent s @ (if fin then [data] else [])" using f(3) by simp
  moreover have "fin \<longleftrightarrow> place start (p, sz, start) = {..<length D}" using f(4) ne by auto
  ultimately show thesis by (rule that)
qed

section \<open>The whole reply\<close>

text \<open>\<^verbatim>\<open>handle_ip\<close> on the payloads of one flow, in the order they are captured.\<close>

primrec tcp_payloads :: "FlowId \<Rightarrow> (cptr \<times> int \<times> tcp_seq) list \<Rightarrow> SniffTcp \<Rightarrow> SniffTcp option" where
  "tcp_payloads fid [] s = Some s"
| "tcp_payloads fid (x # xs) s = do {
     s1 \<leftarrow> tcp_payload fid (fst x) (fst (snd x)) (snd (snd x)) s;
     tcp_payloads fid xs s1
   }"

text \<open>The packets of a reply: the announcing one first, the others in any order; two of them lie at
  the same place or do not overlap.\<close>

definition reply_packets :: "bytes \<Rightarrow> bytes \<Rightarrow> tcp_seq \<Rightarrow> (cptr \<times> int \<times> tcp_seq) list \<Rightarrow> bool" where
  "reply_packets D cid start xs \<longleftrightarrow> xs \<noteq> [] \<and> snd (snd (hd xs)) = start \<and>
     list_all (carries_chunk D cid start) xs \<and>
     list_all (\<lambda>x. list_all (\<lambda>y. place start x = place start y \<or>
       place start x \<inter> place start y = {}) xs) xs"

lemma place_inside: "carries_chunk D cid start x \<Longrightarrow> place start x \<subseteq> {..<length D}"
  by (cases x) (auto simp: carries_chunk_def place_def segment_def)

lemma old_packets:
  assumes rec: "chunk_record D data" and fit: "unat start + length D < 2 ^ 32"
  shows "carrying D cid (toString fid) start R s \<Longrightarrow> list_all (carries_chunk D cid start) xs \<Longrightarrow>
    (\<forall>x \<in> set xs. aligned (R \<union> place start ` set xs) (place start x)) \<Longrightarrow>
    \<Union> R \<subseteq> {..<length D} \<Longrightarrow>
    \<exists>s'. tcp_payloads fid xs s = Some s' \<and> sent s' = sent s @
      (if \<Union> R \<noteq> {..<length D} \<and> \<Union> (R \<union> place start ` set xs) = {..<length D} then [data] else [])"
proof (induction xs arbitrary: R s)
  case (Cons x xs)
  obtain p sz seq where x: "x = (p, sz, seq)" by (cases x) auto
  let ?R = "insert (place start x) R"
  have c: "carries_chunk D cid start (p, sz, seq)" and al: "aligned R (place start (p, sz, seq))"
    using Cons.prems(2,3) x by (auto simp: aligned_def)
  obtain s1 fin where s1: "tcp_payload fid p sz seq s = Some s1"
    "carrying D cid (toString fid) start ?R s1" "sent s1 = sent s @ (if fin then [data] else [])"
    "fin \<longleftrightarrow> \<Union> R \<noteq> {..<length D} \<and> \<Union> ?R = {..<length D}"
    unfolding x by (rule old_packet [OF rec Cons.prems(1) c fit al])
  have sub: "\<Union> ?R \<subseteq> {..<length D}"
    using Cons.prems(4) place_inside [of D cid start x] Cons.prems(2) by simp
  have eq: "?R \<union> place start ` set xs = R \<union> place start ` set (x # xs)" by simp
  have "\<forall>y \<in> set xs. aligned (?R \<union> place start ` set xs) (place start y)"
    unfolding eq using Cons.prems(3) by simp
  then obtain s' where s': "tcp_payloads fid xs s1 = Some s'" "sent s' = sent s1 @
      (if \<Union> ?R \<noteq> {..<length D} \<and> \<Union> (?R \<union> place start ` set xs) = {..<length D} then [data] else [])"
    using Cons.IH [OF s1(2) _ _ sub] Cons.prems(2) by auto
  have all: "\<Union> (R \<union> place start ` set (x # xs)) \<subseteq> {..<length D}"
  proof -
    have "place start y \<subseteq> {..<length D}" if "y \<in> set (x # xs)" for y
      using that Cons.prems(2) place_inside [of D cid start y] by (auto simp: list_all_iff)
    with Cons.prems(4) show ?thesis by blast
  qed
  have "\<Union> R \<subseteq> \<Union> ?R" "\<Union> ?R \<subseteq> \<Union> (R \<union> place start ` set (x # xs))" by auto
  with s1(1,3,4) s' x sub all show ?case unfolding eq by auto
qed simp

lemma reply_delivered:
  assumes "chunk_record D data" and "reply_packets D cid start xs"
    and "unat start + length D < 2 ^ 32"
  shows "\<exists>s'. tcp_payloads fid xs (SniffTcp_new True) = Some s' \<and>
    sent s' = (if (\<Union>x \<in> set xs. place start x) = {..<length D} then [data] else [])"
proof -
  from assms(2) obtain p sz ys where xs: "xs = (p, sz, start) # ys"
    and c: "carries_chunk D cid start (p, sz, start)" "list_all (carries_chunk D cid start) ys"
    and al: "\<forall>x \<in> set xs. \<forall>y \<in> set xs. place start x = place start y \<or> place start x \<inter> place start y = {}"
    by (cases xs) (auto simp: reply_packets_def list_all_iff)
  let ?R = "{place start (p, sz, start)}"
  have fresh: "get_flow_offset fid (SniffTcp_new True) = - 1"
    by (simp add: get_flow_offset_def SniffTcp_new_def)
  obtain s1 fin where s1: "tcp_payload fid p sz start (SniffTcp_new True) = Some s1"
    "carrying D cid (toString fid) start ?R s1"
    "sent s1 = sent (SniffTcp_new True) @ (if fin then [data] else [])"
    "fin \<longleftrightarrow> place start (p, sz, start) = {..<length D}"
    by (rule first_packet [OF assms(1) c(1) assms(3) _ _ _ fresh]) (simp_all add: SniffTcp_new_def)
  have "\<forall>x \<in> set ys. aligned (?R \<union> place start ` set ys) (place start x)"
    using al xs by (fastforce simp: aligned_def)
  with old_packets [OF assms(1,3) s1(2) c(2)] place_inside [OF c(1)] obtain s' where
    s': "tcp_payloads fid ys s1 = Some s'" "sent s' = sent s1 @
      (if \<Union> ?R \<noteq> {..<length D} \<and> \<Union> (?R \<union> place start ` set ys) = {..<length D} then [data] else [])"
    by auto
  have "place start y \<subseteq> {..<length D}" if "y \<in> set ys" for y
    using that c(2) place_inside [of D cid start y] by (auto simp: list_all_iff)
  then have "\<Union> (?R \<union> place start ` set ys) \<subseteq> {..<length D}" using place_inside [OF c(1)] by blast
  moreover have "(\<Union>x \<in> set xs. place start x) = \<Union> (?R \<union> place start ` set ys)" by (simp add: xs)
  moreover have "sent (SniffTcp_new True) = []" by (simp add: SniffTcp_new_def)
  ultimately show ?thesis using s1(1,3,4) s' xs by auto
qed


text \<open>A record of 1092 bytes in three packets, the last two swapped and one sent again.\<close>

definition sample_record :: bytes where
  "sample_record = sample_header 4 0x44 @ replicate 1016 9"

definition sample_packets :: "(cptr \<times> int \<times> tcp_seq) list" where
  "sample_packets =
     [((take 600 sample_record, 0), 600, 1000), ((drop 900 sample_record, 0), 192, 1900),
      ((take 300 (drop 600 sample_record), 0), 300, 1600), ((drop 900 sample_record, 0), 192, 1900)]"

lemma sample_is_record: "chunk_record sample_record (slice sample_record 68 1024)"
  by code_simp

lemma length_sample_record: "length sample_record = 1092"
  by (simp add: sample_record_def sample_header_def mask_bytes_def mask_size_in_bytes_def)

lemma rpc_header_scan_clean:
  "(\<And>k. k < n \<Longrightarrow> \<exists>b. load8 p (i + int k) = Some b \<and> b \<noteq> RPC_HEADER) \<Longrightarrow>
   rpc_header_scan p i n = Some None"
proof (induction n arbitrary: i)
  case (Suc n)
  from Suc.prems [of 0] obtain b where "load8 p i = Some b" "b \<noteq> RPC_HEADER" by auto
  moreover have "rpc_header_scan p (i + 1) n = Some None"
  proof (rule Suc.IH)
    show "\<exists>b. load8 p (i + 1 + int k) = Some b \<and> b \<noteq> RPC_HEADER" if "k < n" for k
      using Suc.prems [of "Suc k"] that by (simp add: add.assoc)
  qed
  ultimately show ?case by simp
qed simp

lemma getChunkId_nines: "getChunkId (replicate m 9, 0) (int m) = Some None"
proof -
  have "rpc_header_scan (replicate m 9, 0) 0 m = Some None"
    by (rule rpc_header_scan_clean) (simp add: load8_def RPC_HEADER_def)
  then show ?thesis by (simp add: getChunkId_def rpc_header_in_stream_def)
qed

lemma drop_sample: "76 \<le> k \<Longrightarrow> drop k sample_record = replicate (1092 - k) 9"
proof -
  assume k: "76 \<le> k"
  then have "drop k sample_record = drop (k - 76) (drop 76 sample_record)" by simp
  moreover have "drop 76 sample_record = replicate 1016 9"
    by (simp add: sample_record_def sample_header_def mask_bytes_def mask_size_in_bytes_def)
  ultimately show ?thesis using k by simp
qed

lemma sample_segments:
  "segment sample_record (take 600 sample_record, 0) 600 0"
  "segment sample_record (drop 900 sample_record, 0) 192 900"
  "segment sample_record (take 300 (drop 600 sample_record), 0) 300 600"
  by (simp_all add: segment_def load_def slice_def length_sample_record)

lemma sample_packets_ok: "reply_packets sample_record (replicate 20 5) 1000 sample_packets"
proof -
  have "getChunkId (take 600 sample_record, 0) 600 = Some (Some (replicate 20 5, 0))"
    by code_simp
  moreover have "getChunkId (drop 900 sample_record, 0) 192 = Some None"
    using getChunkId_nines [of 192] by (simp add: drop_sample)
  moreover have "getChunkId (take 300 (drop 600 sample_record), 0) 300 = Some None"
    using getChunkId_nines [of 300] by (simp add: drop_sample)
  ultimately show ?thesis
    using sample_segments by (simp add: reply_packets_def sample_packets_def carries_chunk_def place_def)
qed


end
