(* ===== verification/Crc32.thy ===== *)
theory Crc32
  imports Prelude
begin

text \<open>
  The frame check sequence of \<^verbatim>\<open>src/sniffer/crc32.cc\<close>: the 256-entry table, the table-driven
  loop \<^verbatim>\<open>crc32_ccitt_seed\<close>, and \<^verbatim>\<open>crc32_802\<close>, which swaps the bytes of the result. The
  reference is the bitwise shift register of the polynomial the comment of the file gives; the
  register's two injectivity laws, stated as a locale, are what makes it detect a changed byte.
\<close>

section \<open>The code\<close>

definition crc32_ccitt_table :: "u32 list" where
  "crc32_ccitt_table = [
     0x00000000, 0x77073096, 0xee0e612c, 0x990951ba, 0x076dc419,
     0x706af48f, 0xe963a535, 0x9e6495a3, 0x0edb8832, 0x79dcb8a4,
     0xe0d5e91e, 0x97d2d988, 0x09b64c2b, 0x7eb17cbd, 0xe7b82d07,
     0x90bf1d91, 0x1db71064, 0x6ab020f2, 0xf3b97148, 0x84be41de,
     0x1adad47d, 0x6ddde4eb, 0xf4d4b551, 0x83d385c7, 0x136c9856,
     0x646ba8c0, 0xfd62f97a, 0x8a65c9ec, 0x14015c4f, 0x63066cd9,
     0xfa0f3d63, 0x8d080df5, 0x3b6e20c8, 0x4c69105e, 0xd56041e4,
     0xa2677172, 0x3c03e4d1, 0x4b04d447, 0xd20d85fd, 0xa50ab56b,
     0x35b5a8fa, 0x42b2986c, 0xdbbbc9d6, 0xacbcf940, 0x32d86ce3,
     0x45df5c75, 0xdcd60dcf, 0xabd13d59, 0x26d930ac, 0x51de003a,
     0xc8d75180, 0xbfd06116, 0x21b4f4b5, 0x56b3c423, 0xcfba9599,
     0xb8bda50f, 0x2802b89e, 0x5f058808, 0xc60cd9b2, 0xb10be924,
     0x2f6f7c87, 0x58684c11, 0xc1611dab, 0xb6662d3d, 0x76dc4190,
     0x01db7106, 0x98d220bc, 0xefd5102a, 0x71b18589, 0x06b6b51f,
     0x9fbfe4a5, 0xe8b8d433, 0x7807c9a2, 0x0f00f934, 0x9609a88e,
     0xe10e9818, 0x7f6a0dbb, 0x086d3d2d, 0x91646c97, 0xe6635c01,
     0x6b6b51f4, 0x1c6c6162, 0x856530d8, 0xf262004e, 0x6c0695ed,
     0x1b01a57b, 0x8208f4c1, 0xf50fc457, 0x65b0d9c6, 0x12b7e950,
     0x8bbeb8ea, 0xfcb9887c, 0x62dd1ddf, 0x15da2d49, 0x8cd37cf3,
     0xfbd44c65, 0x4db26158, 0x3ab551ce, 0xa3bc0074, 0xd4bb30e2,
     0x4adfa541, 0x3dd895d7, 0xa4d1c46d, 0xd3d6f4fb, 0x4369e96a,
     0x346ed9fc, 0xad678846, 0xda60b8d0, 0x44042d73, 0x33031de5,
     0xaa0a4c5f, 0xdd0d7cc9, 0x5005713c, 0x270241aa, 0xbe0b1010,
     0xc90c2086, 0x5768b525, 0x206f85b3, 0xb966d409, 0xce61e49f,
     0x5edef90e, 0x29d9c998, 0xb0d09822, 0xc7d7a8b4, 0x59b33d17,
     0x2eb40d81, 0xb7bd5c3b, 0xc0ba6cad, 0xedb88320, 0x9abfb3b6,
     0x03b6e20c, 0x74b1d29a, 0xead54739, 0x9dd277af, 0x04db2615,
     0x73dc1683, 0xe3630b12, 0x94643b84, 0x0d6d6a3e, 0x7a6a5aa8,
     0xe40ecf0b, 0x9309ff9d, 0x0a00ae27, 0x7d079eb1, 0xf00f9344,
     0x8708a3d2, 0x1e01f268, 0x6906c2fe, 0xf762575d, 0x806567cb,
     0x196c3671, 0x6e6b06e7, 0xfed41b76, 0x89d32be0, 0x10da7a5a,
     0x67dd4acc, 0xf9b9df6f, 0x8ebeeff9, 0x17b7be43, 0x60b08ed5,
     0xd6d6a3e8, 0xa1d1937e, 0x38d8c2c4, 0x4fdff252, 0xd1bb67f1,
     0xa6bc5767, 0x3fb506dd, 0x48b2364b, 0xd80d2bda, 0xaf0a1b4c,
     0x36034af6, 0x41047a60, 0xdf60efc3, 0xa867df55, 0x316e8eef,
     0x4669be79, 0xcb61b38c, 0xbc66831a, 0x256fd2a0, 0x5268e236,
     0xcc0c7795, 0xbb0b4703, 0x220216b9, 0x5505262f, 0xc5ba3bbe,
     0xb2bd0b28, 0x2bb45a92, 0x5cb36a04, 0xc2d7ffa7, 0xb5d0cf31,
     0x2cd99e8b, 0x5bdeae1d, 0x9b64c2b0, 0xec63f226, 0x756aa39c,
     0x026d930a, 0x9c0906a9, 0xeb0e363f, 0x72076785, 0x05005713,
     0x95bf4a82, 0xe2b87a14, 0x7bb12bae, 0x0cb61b38, 0x92d28e9b,
     0xe5d5be0d, 0x7cdcefb7, 0x0bdbdf21, 0x86d3d2d4, 0xf1d4e242,
     0x68ddb3f8, 0x1fda836e, 0x81be16cd, 0xf6b9265b, 0x6fb077e1,
     0x18b74777, 0x88085ae6, 0xff0f6a70, 0x66063bca, 0x11010b5c,
     0x8f659eff, 0xf862ae69, 0x616bffd3, 0x166ccf45, 0xa00ae278,
     0xd70dd2ee, 0x4e048354, 0x3903b3c2, 0xa7672661, 0xd06016f7,
     0x4969474d, 0x3e6e77db, 0xaed16a4a, 0xd9d65adc, 0x40df0b66,
     0x37d83bf0, 0xa9bcae53, 0xdebb9ec5, 0x47b2cf7f, 0x30b5ffe9,
     0xbdbdf21c, 0xcabac28a, 0x53b39330, 0x24b4a3a6, 0xbad03605,
     0xcdd70693, 0x54de5729, 0x23d967bf, 0xb3667a2e, 0xc4614ab8,
     0x5d681b02, 0x2a6f2b94, 0xb40bbe37, 0xc30c8ea1, 0x5a05df1b,
     0x2d02ef8d]"

definition CRC32_CCITT_SEED :: u32 where
  "CRC32_CCITT_SEED = 0xFFFFFFFF"

text \<open>One round of the loop body.\<close>

definition crc_step :: "u32 \<Rightarrow> byte \<Rightarrow> u32" where
  "crc_step crc32 b =
     crc32_ccitt_table ! unat ((crc32 XOR ucast b) AND 0xff) XOR drop_bit 8 crc32"

fun crc_loop :: "u32 \<Rightarrow> bytes \<Rightarrow> u32" where
  "crc_loop crc32 [] = crc32"
| "crc_loop crc32 (b # buf) = crc_loop (crc_step crc32 b) buf"

definition crc32_ccitt_seed :: "bytes \<Rightarrow> u32 \<Rightarrow> u32" where
  "crc32_ccitt_seed buf seed = NOT (crc_loop seed buf)"

definition crc32_ccitt :: "bytes \<Rightarrow> u32" where
  "crc32_ccitt buf = crc32_ccitt_seed buf CRC32_CCITT_SEED"

definition byte_reverse :: "u32 \<Rightarrow> u32" where
  "byte_reverse c =
     push_bit 24 (ucast (ucast c :: byte)) OR
     push_bit 16 (ucast (ucast (drop_bit 8 c) :: byte)) OR
     push_bit 8 (ucast (ucast (drop_bit 16 c) :: byte)) OR
     ucast (ucast (drop_bit 24 c) :: byte)"

definition crc32_802 :: "bytes \<Rightarrow> u32" where
  "crc32_802 buf = byte_reverse (crc32_ccitt buf)"

section \<open>The bitwise reference\<close>

text \<open>
  One shift of the reflected register of
  \<^verbatim>\<open>x^32 + x^26 + x^23 + x^22 + x^16 + x^12 + x^11 + x^8 + x^7 + x^5 + x^4 + x^2 + x + 1\<close>.
\<close>

definition crc_poly :: u32 where
  "crc_poly = 0xEDB88320"

definition crc_bit :: "u32 \<Rightarrow> u32" where
  "crc_bit c = (if bit c 0 then drop_bit 1 c XOR crc_poly else drop_bit 1 c)"

definition crc_byte_spec :: "u32 \<Rightarrow> byte \<Rightarrow> u32" where
  "crc_byte_spec c b = (crc_bit ^^ 8) (c XOR ucast b)"

definition crc32_spec :: "bytes \<Rightarrow> u32 \<Rightarrow> u32" where
  "crc32_spec buf seed = NOT (foldl crc_byte_spec seed buf)"

section \<open>The table is the register run for eight shifts\<close>

lemma crc_bit_even: "crc_bit (numeral (Num.Bit0 n)) = drop_bit 1 (numeral (Num.Bit0 n))"
  by (simp add: crc_bit_def bit_0)

lemma crc_bit_odd:
  "crc_bit (numeral (Num.Bit1 n)) = drop_bit 1 (numeral (Num.Bit1 n)) XOR 0xEDB88320"
  by (simp add: crc_bit_def bit_0 crc_poly_def)

lemma crc_bit_small: "crc_bit 1 = 0xEDB88320" "crc_bit 0 = 0"
  by (simp_all add: crc_bit_def bit_0 crc_poly_def)

lemmas crc_bit_numerals = crc_bit_small crc_bit_even crc_bit_odd

lemma funpow_8: "(f ^^ 8) c = f (f (f (f (f (f (f (f c)))))))"
  by (simp add: numeral_eq_Suc)

definition byte_values :: "u32 list" where
  "byte_values = [
     0, 1, 2, 3, 4, 5, 6, 7, 8, 9, 10, 11, 12, 13, 14, 15,
     16, 17, 18, 19, 20, 21, 22, 23, 24, 25, 26, 27, 28, 29, 30, 31,
     32, 33, 34, 35, 36, 37, 38, 39, 40, 41, 42, 43, 44, 45, 46, 47,
     48, 49, 50, 51, 52, 53, 54, 55, 56, 57, 58, 59, 60, 61, 62, 63,
     64, 65, 66, 67, 68, 69, 70, 71, 72, 73, 74, 75, 76, 77, 78, 79,
     80, 81, 82, 83, 84, 85, 86, 87, 88, 89, 90, 91, 92, 93, 94, 95,
     96, 97, 98, 99, 100, 101, 102, 103, 104, 105, 106, 107, 108, 109, 110, 111,
     112, 113, 114, 115, 116, 117, 118, 119, 120, 121, 122, 123, 124, 125, 126, 127,
     128, 129, 130, 131, 132, 133, 134, 135, 136, 137, 138, 139, 140, 141, 142, 143,
     144, 145, 146, 147, 148, 149, 150, 151, 152, 153, 154, 155, 156, 157, 158, 159,
     160, 161, 162, 163, 164, 165, 166, 167, 168, 169, 170, 171, 172, 173, 174, 175,
     176, 177, 178, 179, 180, 181, 182, 183, 184, 185, 186, 187, 188, 189, 190, 191,
     192, 193, 194, 195, 196, 197, 198, 199, 200, 201, 202, 203, 204, 205, 206, 207,
     208, 209, 210, 211, 212, 213, 214, 215, 216, 217, 218, 219, 220, 221, 222, 223,
     224, 225, 226, 227, 228, 229, 230, 231, 232, 233, 234, 235, 236, 237, 238, 239,
     240, 241, 242, 243, 244, 245, 246, 247, 248, 249, 250, 251, 252, 253, 254, 255]"

lemma byte_values_upt: "byte_values = map of_nat [0..<256]"
  unfolding byte_values_def by (simp add: upt_rec)

lemma crc_table_register: "crc32_ccitt_table = map (crc_bit ^^ 8) byte_values"
  unfolding crc32_ccitt_table_def byte_values_def
  by (simp add: funpow_8 crc_bit_numerals)

lemma crc_table_nth: "i < 256 \<Longrightarrow> crc32_ccitt_table ! i = (crc_bit ^^ 8) (of_nat i)"
  by (simp add: crc_table_register byte_values_upt)

lemma crc_bit_xor: "crc_bit (a XOR b) = crc_bit a XOR crc_bit b"
  by (rule bit_eqI) (auto simp: crc_bit_def bit_xor_iff bit_drop_bit_eq)

lemma crc_bits_xor: "(crc_bit ^^ n) (a XOR b) = (crc_bit ^^ n) a XOR (crc_bit ^^ n) b"
  by (induction n) (simp_all add: crc_bit_xor)

lemma crc_bits_shift: "(\<And>k. k < n \<Longrightarrow> \<not> bit c k) \<Longrightarrow> (crc_bit ^^ n) c = drop_bit n c"
proof (induction n)
  case 0
  then show ?case by simp
next
  case (Suc n)
  then have "(crc_bit ^^ n) c = drop_bit n c" by simp
  moreover have "\<not> bit (drop_bit n c) 0" using Suc.prems [of n] by (simp add: bit_drop_bit_eq)
  ultimately have "crc_bit ((crc_bit ^^ n) c) = drop_bit 1 (drop_bit n c)"
    by (simp only: crc_bit_def if_False)
  then show ?case by simp
qed

lemma mask_split: "c = (c AND m) XOR (c AND NOT m)" for c m :: u32
  by (rule bit_eqI) (auto simp: bit_and_iff bit_xor_iff bit_not_iff)

lemma bit_ff: "bit (0xff :: u32) k \<longleftrightarrow> k < 8"
proof -
  have "(0xff :: u32) = mask 8" by (simp add: mask_eq_exp_minus_1)
  then have "bit (0xff :: u32) k = bit (mask 8 :: u32) k" by (rule arg_cong)
  then show ?thesis by (auto simp: bit_mask_iff)
qed

lemma bit_not_ff: "bit (NOT 0xff :: u32) k \<longleftrightarrow> 8 \<le> k \<and> k < 32"
  by (simp only: bit_not_iff bit_ff) auto

lemma bit_ucast_byte: "bit (ucast (b :: byte) :: u32) k \<longleftrightarrow> k < 8 \<and> bit b k"
  by (auto simp: bit_ucast_iff dest: bit_imp_le_length)

lemma unat_and_ff: "unat ((c :: u32) AND 0xff) < 256"
proof -
  have "c AND 0xff \<le> 0xff" by (rule word_and_le1)
  then have "unat (c AND 0xff) \<le> unat (0xff :: u32)" by (simp only: word_le_nat_alt)
  then show ?thesis by simp
qed

lemma crc_step_register: "crc_step c b = crc_byte_spec c b"
proof -
  let ?x = "c XOR ucast b"
  have hi: "(crc_bit ^^ 8) (?x AND NOT 0xff) = drop_bit 8 (?x AND NOT 0xff)"
    by (rule crc_bits_shift) (simp only: bit_and_iff bit_not_iff bit_ff not_not simp_thms)
  have "drop_bit 8 (?x AND m) = drop_bit 8 c" if "\<And>k. bit m k \<longleftrightarrow> 8 \<le> k \<and> k < 32" for m
    by (rule bit_eqI)
      (auto simp: that bit_drop_bit_eq bit_and_iff bit_xor_iff bit_ucast_byte
        dest: bit_imp_le_length)
  note hi_c = this [OF bit_not_ff]
  have "crc32_ccitt_table ! unat (?x AND 0xff) = (crc_bit ^^ 8) (?x AND 0xff)"
    using crc_table_nth [OF unat_and_ff [of ?x]] by simp
  then have "crc_step c b = (crc_bit ^^ 8) ((?x AND 0xff) XOR (?x AND NOT 0xff))"
    by (simp only: crc_step_def crc_bits_xor hi hi_c)
  then show ?thesis by (simp only: crc_byte_spec_def mask_split [symmetric])
qed

lemma crc_loop_foldl: "crc_loop c buf = foldl crc_step c buf"
  by (induction buf arbitrary: c) simp_all

section \<open>Registers that detect a changed byte\<close>

text \<open>
  The interface of a checksum register: a step that loses nothing, neither of the register nor
  of the byte it takes in.
\<close>

locale lossless_register =
  fixes step :: "'r \<Rightarrow> 'b \<Rightarrow> 'r"
  assumes step_register: "step c b = step d b \<Longrightarrow> c = d"
    and step_input: "step c a = step c b \<Longrightarrow> a = b"
begin

lemma foldl_register: "foldl step c bs = foldl step d bs \<Longrightarrow> c = d"
  by (induction bs arbitrary: c d) (auto dest: step_register)

lemma changed_input:
  assumes "a \<noteq> b"
  shows "foldl step c (xs @ a # ys) \<noteq> foldl step c (xs @ b # ys)"
  using assms by (auto dest: foldl_register step_input)

lemma changed_register: "c \<noteq> d \<Longrightarrow> foldl step c bs \<noteq> foldl step d bs"
  by (auto dest: foldl_register)

end

lemma crc_bit_inj: "crc_bit c = crc_bit d \<Longrightarrow> c = d"
proof -
  have top: "bit (crc_bit c) 31 = bit c 0" for c
    by (auto simp: crc_bit_def crc_poly_def bit_xor_iff bit_drop_bit_eq dest: bit_imp_le_length)
  assume eq: "crc_bit c = crc_bit d"
  then have low: "bit c 0 = bit d 0" using top by metis
  have "drop_bit 1 c = drop_bit 1 d"
  proof (cases "bit c 0")
    case True
    with eq low have "drop_bit 1 c XOR crc_poly = drop_bit 1 d XOR crc_poly"
      by (simp only: crc_bit_def if_True)
    then show ?thesis by (metis xor.assoc xor_self_eq xor.right_neutral)
  next
    case False
    with eq low show ?thesis by (simp only: crc_bit_def if_False)
  qed
  then have "bit (drop_bit 1 c) k = bit (drop_bit 1 d) k" for k by simp
  then have "bit c (Suc k) = bit d (Suc k)" for k by (simp add: bit_drop_bit_eq)
  with low have "bit c k = bit d k" for k by (cases k) simp_all
  then show "c = d" by (intro bit_eqI)
qed

lemma crc_bits_inj: "(crc_bit ^^ n) c = (crc_bit ^^ n) d \<Longrightarrow> c = d"
  by (induction n) (auto dest: crc_bit_inj)

lemma ucast_byte_inj:
  fixes a b :: byte
  assumes "(ucast a :: u32) = ucast b"
  shows "a = b"
proof (rule bit_eqI)
  fix k
  have "bit (ucast a :: u32) k = bit (ucast b :: u32) k" using assms by simp
  then show "bit a k = bit b k"
    by (auto simp: bit_ucast_byte dest: bit_imp_le_length)
qed

lemma xor_cancel: "a XOR c = b XOR c \<Longrightarrow> a = b" for a b c :: u32
  by (drule arg_cong [where f = "\<lambda>w. w XOR c"]) (simp add: xor.assoc)

interpretation crc: lossless_register crc_step
proof unfold_locales
  fix c d b
  assume "crc_step c b = crc_step d b"
  then have "c XOR ucast b = d XOR ucast b"
    by (auto simp: crc_step_register crc_byte_spec_def dest: crc_bits_inj)
  then show "c = d" by (rule xor_cancel)
next
  fix c a b
  assume "crc_step c a = crc_step c b"
  then have "c XOR ucast a = c XOR ucast b"
    by (auto simp: crc_step_register crc_byte_spec_def dest: crc_bits_inj)
  then have "ucast a XOR c = ucast b XOR c" by (simp only: xor.commute)
  then have "(ucast a :: u32) = ucast b" by (rule xor_cancel)
  then show "a = b" by (rule ucast_byte_inj)
qed

section \<open>The byte swap of \<^verbatim>\<open>crc32_802\<close>\<close>

lemma byte_reverse_bits:
  assumes "j < 8"
  shows "bit (byte_reverse c) j = bit c (j + 24)"
    and "bit (byte_reverse c) (j + 8) = bit c (j + 16)"
    and "bit (byte_reverse c) (j + 16) = bit c (j + 8)"
    and "bit (byte_reverse c) (j + 24) = bit c j"
  using assms
  by (simp_all add: byte_reverse_def bit_or_iff bit_push_bit_iff bit_ucast_iff bit_drop_bit_eq add.commute)

lemma byte_reverse_inj:
  assumes "byte_reverse c = byte_reverse d"
  shows "c = d"
proof (rule bit_eqI)
  fix k
  have low: "bit c (j + m) = bit d (j + m)" if "j < 8" and "m \<in> {0, 8, 16, 24}" for j m
    using that byte_reverse_bits [OF that(1), of c] byte_reverse_bits [OF that(1), of d] assms by auto
  show "bit c k = bit d k"
  proof (cases "k < 32")
    case True
    then consider "k < 8" | "8 \<le> k" "k < 16" | "16 \<le> k" "k < 24" | "24 \<le> k" "k < 32" by linarith
    then show ?thesis
      by cases (use low [of k 0] low [of "k - 8" 8] low [of "k - 16" 16] low [of "k - 24" 24] in auto)
  next
    case False
    then show ?thesis by (auto dest: bit_imp_le_length)
  qed
qed

text \<open>Equal check sequences mean equal registers at the end of the two buffers.\<close>

lemma crc32_802_register:
  assumes "crc32_802 u = crc32_802 v"
  shows "foldl crc_step CRC32_CCITT_SEED u = foldl crc_step CRC32_CCITT_SEED v"
proof -
  from assms have "crc32_ccitt u = crc32_ccitt v" unfolding crc32_802_def by (rule byte_reverse_inj)
  then show ?thesis
    by (simp only: crc32_ccitt_def crc32_ccitt_seed_def crc_loop_foldl bit.compl_eq_compl_iff)
qed

section \<open>Properties\<close>

text \<open>C37. The table-driven loop computes the remainder the bitwise shift register of the
  documented polynomial computes, for every buffer and every seed.\<close>

theorem crc32_table_is_register: "crc32_ccitt_seed buf seed = crc32_spec buf seed"
proof -
  have "crc_step = crc_byte_spec" by (intro ext crc_step_register)
  then show ?thesis by (simp add: crc32_ccitt_seed_def crc32_spec_def crc_loop_foldl)
qed

text \<open>The published check value of the CRC-32 of the nine characters 123456789.\<close>

lemma crc32_check_value:
  "crc32_ccitt (map (\<lambda>c. of_nat (of_char c)) ''123456789'') = 0xCBF43926"
proof -
  have "crc_step = crc_byte_spec" by (intro ext crc_step_register)
  then show ?thesis
    by (simp add: crc32_ccitt_def crc32_ccitt_seed_def crc_loop_foldl CRC32_CCITT_SEED_def
        crc_byte_spec_def funpow_8 crc_bit_numerals)
qed

text \<open>C38. A frame in which one byte is changed never has the same \<^verbatim>\<open>crc32_802\<close>
  frame check sequence, wherever the byte is and whatever surrounds it.\<close>

theorem crc32_802_detects_changed_byte:
  assumes "a \<noteq> b"
  shows "crc32_802 (xs @ a # ys) \<noteq> crc32_802 (xs @ b # ys)"
proof
  assume "crc32_802 (xs @ a # ys) = crc32_802 (xs @ b # ys)"
  then show False
    using crc.changed_input [OF assms, of CRC32_CCITT_SEED xs ys] by (blast dest: crc32_802_register)
qed

lemma crc32_802_detects_changed_byte_witness:
  "(1 :: byte) \<noteq> 2 \<and> crc32_802 ([7] @ 1 # [9]) \<noteq> crc32_802 ([7] @ 2 # [9])"
  using crc32_802_detects_changed_byte [of 1 2 "[7]" "[9]"] by simp

end
