(* ===== verification/Wifi.thy ===== *)
theory Wifi
  imports Extract Crc32 HandleIp
begin

text \<open>
  The 802.11 path of \<^verbatim>\<open>src/sniffer/SniffTcp.cc\<close> (\<^verbatim>\<open>handle_80211\<close>, \<^verbatim>\<open>handle_data_frame\<close>,
  \<^verbatim>\<open>handle_llc\<close>) with the frame constants of \<^verbatim>\<open>ieee802_11.h\<close>, \<^verbatim>\<open>llc.h\<close> and \<^verbatim>\<open>oui.h\<close>. The code
  decodes each frame into local variables and prints which kind it is; the definitions return what it
  has decoded, and \<open>None\<close> when a read leaves the frame.
\<close>

section \<open>Frame layout\<close>

definition IEEE802_11_FC_LEN :: int where "IEEE802_11_FC_LEN = 2"
definition IEEE802_11_DUR_LEN :: int where "IEEE802_11_DUR_LEN = 2"
definition IEEE802_11_DA_LEN :: int where "IEEE802_11_DA_LEN = 6"
definition IEEE802_11_SA_LEN :: int where "IEEE802_11_SA_LEN = 6"
definition IEEE802_11_BSSID_LEN :: int where "IEEE802_11_BSSID_LEN = 6"
definition IEEE802_11_RA_LEN :: int where "IEEE802_11_RA_LEN = 6"
definition IEEE802_11_TA_LEN :: int where "IEEE802_11_TA_LEN = 6"
definition IEEE802_11_SEQ_LEN :: int where "IEEE802_11_SEQ_LEN = 2"
definition IEEE802_11_AID_LEN :: int where "IEEE802_11_AID_LEN = 2"

definition MGMT_HDRLEN :: int where
  "MGMT_HDRLEN = IEEE802_11_FC_LEN + IEEE802_11_DUR_LEN + IEEE802_11_DA_LEN + IEEE802_11_SA_LEN +
     IEEE802_11_BSSID_LEN + IEEE802_11_SEQ_LEN"

definition CTRL_RTS_HDRLEN :: int where
  "CTRL_RTS_HDRLEN = IEEE802_11_FC_LEN + IEEE802_11_DUR_LEN + IEEE802_11_RA_LEN + IEEE802_11_TA_LEN"

definition CTRL_CTS_HDRLEN :: int where
  "CTRL_CTS_HDRLEN = IEEE802_11_FC_LEN + IEEE802_11_DUR_LEN + IEEE802_11_RA_LEN"

definition CTRL_ACK_HDRLEN :: int where
  "CTRL_ACK_HDRLEN = IEEE802_11_FC_LEN + IEEE802_11_DUR_LEN + IEEE802_11_RA_LEN"

definition CTRL_PS_POLL_HDRLEN :: int where
  "CTRL_PS_POLL_HDRLEN = IEEE802_11_FC_LEN + IEEE802_11_AID_LEN + IEEE802_11_BSSID_LEN +
     IEEE802_11_TA_LEN"

definition CTRL_END_HDRLEN :: int where
  "CTRL_END_HDRLEN = IEEE802_11_FC_LEN + IEEE802_11_DUR_LEN + IEEE802_11_RA_LEN +
     IEEE802_11_BSSID_LEN"

definition CTRL_END_ACK_HDRLEN :: int where
  "CTRL_END_ACK_HDRLEN = IEEE802_11_FC_LEN + IEEE802_11_DUR_LEN + IEEE802_11_RA_LEN +
     IEEE802_11_BSSID_LEN"

definition DATA_HDRLEN :: int where
  "DATA_HDRLEN = IEEE802_11_FC_LEN + IEEE802_11_DUR_LEN + IEEE802_11_SA_LEN + IEEE802_11_DA_LEN +
     IEEE802_11_BSSID_LEN + IEEE802_11_SEQ_LEN"

definition DATA_WDS_HDRLEN :: int where
  "DATA_WDS_HDRLEN = IEEE802_11_FC_LEN + IEEE802_11_DUR_LEN + IEEE802_11_RA_LEN + IEEE802_11_TA_LEN +
     IEEE802_11_SA_LEN + IEEE802_11_DA_LEN + IEEE802_11_SEQ_LEN"

lemmas hdrlen_defs = MGMT_HDRLEN_def CTRL_RTS_HDRLEN_def CTRL_CTS_HDRLEN_def CTRL_ACK_HDRLEN_def
  CTRL_PS_POLL_HDRLEN_def CTRL_END_HDRLEN_def CTRL_END_ACK_HDRLEN_def DATA_HDRLEN_def
  DATA_WDS_HDRLEN_def IEEE802_11_FC_LEN_def IEEE802_11_DUR_LEN_def IEEE802_11_DA_LEN_def
  IEEE802_11_SA_LEN_def IEEE802_11_BSSID_LEN_def IEEE802_11_RA_LEN_def IEEE802_11_TA_LEN_def
  IEEE802_11_SEQ_LEN_def IEEE802_11_AID_LEN_def

definition T_MGMT :: u16 where "T_MGMT = 0x0"
definition T_CTRL :: u16 where "T_CTRL = 0x1"
definition T_DATA :: u16 where "T_DATA = 0x2"

definition CTRL_PS_POLL :: u16 where "CTRL_PS_POLL = 0xA"
definition CTRL_RTS :: u16 where "CTRL_RTS = 0xB"
definition CTRL_CTS :: u16 where "CTRL_CTS = 0xC"
definition CTRL_ACK :: u16 where "CTRL_ACK = 0xD"
definition CTRL_CF_END :: u16 where "CTRL_CF_END = 0xE"
definition CTRL_END_ACK :: u16 where "CTRL_END_ACK = 0xF"

lemmas ctrl_defs = CTRL_PS_POLL_def CTRL_RTS_def CTRL_CTS_def CTRL_ACK_def CTRL_CF_END_def
  CTRL_END_ACK_def
lemmas type_defs = T_MGMT_def T_CTRL_def T_DATA_def

definition FC_TYPE :: "u16 \<Rightarrow> u16" where "FC_TYPE fc = drop_bit 2 fc AND 0x3"
definition FC_SUBTYPE :: "u16 \<Rightarrow> u16" where "FC_SUBTYPE fc = drop_bit 4 fc AND 0xF"
definition FC_TO_DS :: "u16 \<Rightarrow> bool" where "FC_TO_DS fc \<longleftrightarrow> fc AND 0x0100 \<noteq> 0"
definition FC_FROM_DS :: "u16 \<Rightarrow> bool" where "FC_FROM_DS fc \<longleftrightarrow> fc AND 0x0200 \<noteq> 0"
definition FC_WEP :: "u16 \<Rightarrow> bool" where "FC_WEP fc \<longleftrightarrow> fc AND 0x4000 \<noteq> 0"

text \<open>The header structs. Their \<^verbatim>\<open>fcs\<close> fields are never written and are left out.\<close>

record data_hdr_ibss =
  hd_fc :: u16
  hd_duration :: u16
  hd_seq :: u16
  hd_frag :: byte

record data_hdr = data_hdr_ibss +
  hd_sa :: u64
  hd_da :: u64
  hd_bssid :: u64

text \<open>\<^verbatim>\<open>wds_sa\<close> is an option: \<^verbatim>\<open>MAC()\<close> leaves the value unset.\<close>

record data_hdr_wds = data_hdr_ibss +
  wds_ra :: u64
  wds_ta :: u64
  wds_sa :: "u64 option"
  wds_da :: u64

record llc_hdr =
  dsap :: byte
  ssap :: byte
  control :: byte
  oui :: u16
  llc_type :: u16

definition OUI_ENCAP_ETHER :: u16 where "OUI_ENCAP_ETHER = 0x0000"
definition OUI_CISCO_90 :: u16 where "OUI_CISCO_90 = 0x00f8"

section \<open>Decoding\<close>

text \<open>\<^verbatim>\<open>extract_header_length\<close>.\<close>

definition ctrl_header_length :: "u16 \<Rightarrow> int" where
  "ctrl_header_length subtype =
     (if subtype = CTRL_PS_POLL then CTRL_PS_POLL_HDRLEN
      else if subtype = CTRL_RTS then CTRL_RTS_HDRLEN
      else if subtype = CTRL_CTS then CTRL_CTS_HDRLEN
      else if subtype = CTRL_ACK then CTRL_ACK_HDRLEN
      else if subtype = CTRL_CF_END then CTRL_END_HDRLEN
      else if subtype = CTRL_END_ACK then CTRL_END_ACK_HDRLEN
      else 0)"

definition extract_header_length :: "u16 \<Rightarrow> int" where
  "extract_header_length fc =
     (if FC_TYPE fc = T_MGMT then MGMT_HDRLEN
      else if FC_TYPE fc = T_CTRL then ctrl_header_length (FC_SUBTYPE fc)
      else if FC_TYPE fc = T_DATA then (if FC_TO_DS fc \<and> FC_FROM_DS fc then 30 else 24)
      else 0)"

text \<open>\<^verbatim>\<open>handle_llc\<close>: a header too short, another encapsulation, IP, or another type.\<close>

datatype llc_frame = TruncatedLlc | NotEncap llc_hdr | LlcIp llc_hdr | LlcOther llc_hdr

definition handle_llc :: "cptr \<Rightarrow> int \<Rightarrow> llc_frame option" where
  "handle_llc p len =
     (if len < 7 then Some TruncatedLlc
      else do {
        d \<leftarrow> EXTRACT_LE_8BITS p 0;
        s \<leftarrow> EXTRACT_LE_8BITS p 1;
        c \<leftarrow> EXTRACT_LE_8BITS p 2;
        ou \<leftarrow> EXTRACT_24BITS p 3;
        ty \<leftarrow> EXTRACT_16BITS p 6;
        let hdr = \<lparr>dsap = d, ssap = s, control = c, oui = ucast ou, llc_type = ty\<rparr>;
        Some (if oui hdr \<noteq> OUI_ENCAP_ETHER \<and> oui hdr \<noteq> OUI_CISCO_90 then NotEncap hdr
              else if llc_type hdr = ETHERTYPE_IP then LlcIp hdr
              else LlcOther hdr)
      })"

datatype data_body = Wep | Llc llc_frame

datatype data_frame = Ibss data_hdr_ibss | FromAp data_hdr data_body | ToAp data_hdr data_body
  | Wds data_hdr_wds data_body

text \<open>The end of \<^verbatim>\<open>handle_data_frame\<close>: what follows the header, without the frame check sequence.\<close>

definition frame_body :: "cptr \<Rightarrow> int \<Rightarrow> u16 \<Rightarrow> int \<Rightarrow> data_body option" where
  "frame_body p len fc hdrlen =
     (if FC_WEP fc then Some Wep
      else map_option Llc (handle_llc (padd p hdrlen) (len - hdrlen - 4)))"

text \<open>\<^verbatim>\<open>handle_data_frame\<close>. In the WDS case the code assigns \<^verbatim>\<open>hdr.da\<close> twice and \<^verbatim>\<open>hdr.sa\<close> never.\<close>

definition handle_data_frame :: "cptr \<Rightarrow> int \<Rightarrow> u16 \<Rightarrow> data_frame option" where
  "handle_data_frame p len fc = do {
     du \<leftarrow> EXTRACT_LE_16BITS p 2;
     seq_ctl \<leftarrow> pletohs p 22;
     let seq = COOK_SEQUENCE_NUMBER seq_ctl;
     let frag = (ucast (COOK_FRAGMENT_NUMBER seq_ctl) :: byte);
     if \<not> FC_TO_DS fc \<and> \<not> FC_FROM_DS fc then
       Some (Ibss \<lparr>hd_fc = fc, hd_duration = du, hd_seq = seq, hd_frag = frag\<rparr>)
     else if \<not> FC_TO_DS fc \<and> FC_FROM_DS fc then do {
       sa \<leftarrow> MAC p 16; da \<leftarrow> MAC p 4; bssid \<leftarrow> MAC p 10;
       body \<leftarrow> frame_body p len fc DATA_HDRLEN;
       Some (FromAp \<lparr>hd_fc = fc, hd_duration = du, hd_seq = seq, hd_frag = frag,
                     hd_sa = sa, hd_da = da, hd_bssid = bssid\<rparr> body)
     }
     else if FC_TO_DS fc \<and> \<not> FC_FROM_DS fc then do {
       sa \<leftarrow> MAC p 10; da \<leftarrow> MAC p 16; bssid \<leftarrow> MAC p 4;
       body \<leftarrow> frame_body p len fc DATA_HDRLEN;
       Some (ToAp \<lparr>hd_fc = fc, hd_duration = du, hd_seq = seq, hd_frag = frag,
                   hd_sa = sa, hd_da = da, hd_bssid = bssid\<rparr> body)
     }
     else do {
       ra \<leftarrow> MAC p 4; ta \<leftarrow> MAC p 10; da0 \<leftarrow> MAC p 16; da \<leftarrow> MAC p 24;
       body \<leftarrow> frame_body p len fc DATA_WDS_HDRLEN;
       Some (Wds \<lparr>hd_fc = fc, hd_duration = du, hd_seq = seq, hd_frag = frag,
                  wds_ra = ra, wds_ta = ta, wds_sa = None, wds_da = da\<rparr> body)
     }
   }"

text \<open>\<^verbatim>\<open>handle_80211\<close>; the flag of the constructors is \<^verbatim>\<open>fcs_ok\<close>. \<^verbatim>\<open>len\<close> is a \<^verbatim>\<open>u_int\<close>, and becomes an
  \<^verbatim>\<open>int\<close> in the call of \<^verbatim>\<open>handle_data_frame\<close>.\<close>

datatype frame_80211 = Unknown | Mgmt bool | Data bool data_frame | Ctrl bool | Reserved bool

definition Check80211FCS :: bool where "Check80211FCS = True"

definition check_fcs :: "cptr \<Rightarrow> u32 \<Rightarrow> int \<Rightarrow> bool option" where
  "check_fcs packet len hdrlen =
     (if Check80211FCS \<and> word_of_int hdrlen + 4 \<le> len then do {
        fcs_sent \<leftarrow> EXTRACT_32BITS packet (uint (len - 4));
        frame \<leftarrow> load packet 0 (uint (len - 4));
        Some (crc32_802 frame = fcs_sent)
      }
      else Some False)"

definition handle_80211 :: "cptr \<Rightarrow> u32 \<Rightarrow> frame_80211 option" where
  "handle_80211 packet len =
     (if len < 2 then Some Unknown
      else do {
        fc \<leftarrow> EXTRACT_LE_16BITS packet 0;
        let hdrlen = extract_header_length fc;
        if uint len < IEEE802_11_FC_LEN \<or> uint len < hdrlen then Some Unknown
        else do {
          fcs_ok \<leftarrow> check_fcs packet len hdrlen;
          if FC_TYPE fc = T_MGMT then Some (Mgmt fcs_ok)
          else if FC_TYPE fc = T_DATA then
            map_option (Data fcs_ok) (handle_data_frame packet (sint len) fc)
          else if FC_TYPE fc = T_CTRL then Some (Ctrl fcs_ok)
          else Some (Reserved fcs_ok)
        }
      })"

definition my_callback_wifi :: "bytes \<Rightarrow> frame_80211 option" where
  "my_callback_wifi packet = handle_80211 (packet, 0) (of_nat (length packet))"

section \<open>Every read stays inside the frame\<close>

lemma load8_in: "0 \<le> snd p + k \<Longrightarrow> snd p + k < int (length (fst p)) \<Longrightarrow> \<exists>b. load8 p k = Some b"
  by (simp add: load8_within)

lemma EXTRACT_16_in:
  "0 \<le> snd p + k \<Longrightarrow> snd p + k + 1 < int (length (fst p)) \<Longrightarrow> \<exists>w. EXTRACT_16BITS p k = Some w"
  by (simp add: EXTRACT_16BITS_def load8_within add.assoc [symmetric])

lemma EXTRACT_LE_16_in:
  "0 \<le> snd p + k \<Longrightarrow> snd p + k + 1 < int (length (fst p)) \<Longrightarrow> \<exists>w. EXTRACT_LE_16BITS p k = Some w"
  by (simp add: EXTRACT_LE_16BITS_def load8_within add.assoc [symmetric])

lemma pletohs_in:
  "0 \<le> snd p + k \<Longrightarrow> snd p + k + 1 < int (length (fst p)) \<Longrightarrow> \<exists>w. pletohs p k = Some w"
  by (simp add: pletohs_def load8_within add.assoc [symmetric])

lemma EXTRACT_24_in:
  "0 \<le> snd p + k \<Longrightarrow> snd p + k + 2 < int (length (fst p)) \<Longrightarrow> \<exists>w. EXTRACT_24BITS p k = Some w"
  by (simp add: EXTRACT_24BITS_def load8_within add.assoc [symmetric])

lemma EXTRACT_32_in:
  "0 \<le> snd p + k \<Longrightarrow> snd p + k + 3 < int (length (fst p)) \<Longrightarrow> \<exists>w. EXTRACT_32BITS p k = Some w"
  by (simp add: EXTRACT_32BITS_def load8_within add.assoc [symmetric])

lemma MAC_in:
  "0 \<le> snd p + k \<Longrightarrow> snd p + k + 5 < int (length (fst p)) \<Longrightarrow> \<exists>w. MAC p k = Some w"
  by (simp add: MAC_def load8_within add.assoc [symmetric])

lemma handle_llc_total:
  assumes "0 \<le> snd p" and "snd p + len + 4 \<le> int (length (fst p))"
  shows "\<exists>r. handle_llc p len = Some r"
proof (cases "len < 7")
  case False
  with assms obtain d s c ou ty where "EXTRACT_LE_8BITS p 0 = Some d" "EXTRACT_LE_8BITS p 1 = Some s"
    "EXTRACT_LE_8BITS p 2 = Some c" "EXTRACT_24BITS p 3 = Some ou" "EXTRACT_16BITS p 6 = Some ty"
    using load8_in [of p 0] load8_in [of p 1] load8_in [of p 2] EXTRACT_24_in [of p 3]
      EXTRACT_16_in [of p 6] by (auto simp: EXTRACT_LE_8BITS_def)
  then show ?thesis by (simp add: handle_llc_def Let_def)
qed (simp add: handle_llc_def)

lemma frame_body_total:
  assumes "0 \<le> hdrlen" and "len \<le> int (length packet)"
  shows "\<exists>r. frame_body (packet, 0) len fc hdrlen = Some r"
  using handle_llc_total [of "padd (packet, 0) hdrlen" "len - hdrlen - 4"] assms
  by (auto simp: frame_body_def padd_def)

lemma handle_data_frame_total:
  assumes "extract_header_length fc \<le> int (length packet)" and "FC_TYPE fc = T_DATA"
    and "len \<le> int (length packet)"
  shows "\<exists>r. handle_data_frame (packet, 0) len fc = Some r"
proof -
  have hdr: "24 \<le> int (length packet)" "FC_TO_DS fc \<Longrightarrow> FC_FROM_DS fc \<Longrightarrow> 30 \<le> int (length packet)"
    using assms(1,2) by (simp_all add: extract_header_length_def type_defs split: if_splits)
  obtain du sc where "EXTRACT_LE_16BITS (packet, 0) 2 = Some du" "pletohs (packet, 0) 22 = Some sc"
    using EXTRACT_LE_16_in [of "(packet, 0)" 2] pletohs_in [of "(packet, 0)" 22] hdr by auto
  moreover obtain m4 m10 m16 where "MAC (packet, 0) 4 = Some m4" "MAC (packet, 0) 10 = Some m10"
    "MAC (packet, 0) 16 = Some m16"
    using MAC_in [of "(packet, 0)" 4] MAC_in [of "(packet, 0)" 10] MAC_in [of "(packet, 0)" 16] hdr
    by auto
  moreover obtain m24 where "FC_TO_DS fc \<Longrightarrow> FC_FROM_DS fc \<Longrightarrow> MAC (packet, 0) 24 = Some m24"
    using MAC_in [of "(packet, 0)" 24] hdr by (cases "FC_TO_DS fc \<and> FC_FROM_DS fc") auto
  moreover obtain b where "frame_body (packet, 0) len fc DATA_HDRLEN = Some b"
    using frame_body_total [of DATA_HDRLEN len packet fc] assms(3) by (auto simp: hdrlen_defs)
  moreover obtain w where "frame_body (packet, 0) len fc DATA_WDS_HDRLEN = Some w"
    using frame_body_total [of DATA_WDS_HDRLEN len packet fc] assms(3) by (auto simp: hdrlen_defs)
  ultimately show ?thesis by (simp add: handle_data_frame_def Let_def)
qed

lemma header_length_bounds: "0 \<le> extract_header_length fc" "extract_header_length fc \<le> 30"
  by (simp_all add: extract_header_length_def ctrl_header_length_def hdrlen_defs)

lemma fc_in: "2 \<le> length packet \<Longrightarrow>
    EXTRACT_LE_16BITS (packet, 0) 0 = Some (be16 (packet ! 1) (packet ! 0))"
  by (cases packet) (auto simp: EXTRACT_LE_16BITS_def load8_def)

lemma sint_le_uint: "sint (w :: u32) \<le> uint w"
  unfolding sint_uint signed_take_bit_int_less_eq_self_iff
  by (rule order_trans [OF _ uint_nonnegative]) simp

lemma check_fcs_total:
  assumes "unat len \<le> length packet" and "0 \<le> hdrlen" and "hdrlen \<le> 30"
  shows "\<exists>b. check_fcs (packet, 0) len hdrlen = Some b"
proof (cases "word_of_int hdrlen + 4 \<le> len")
  case True
  have "unat (word_of_int hdrlen + 4 :: u32) = nat hdrlen + 4"
    using assms(2,3) by (subst unat_add_lem [THEN iffD1]) (simp_all add: unat_word_of_int32)
  with True have len: "4 \<le> unat len" by (simp add: word_le_nat_alt)
  then have "unat (len - 4) = unat len - 4" by (subst unat_sub) (simp_all add: word_le_nat_alt)
  then have u: "uint (len - 4) = int (unat len - 4)" by (metis uint_nat)
  have "int (unat len - 4) + 4 \<le> int (length packet)" using len assms(1) by linarith
  then have "0 \<le> uint (len - 4)" "uint (len - 4) + 4 \<le> int (length packet)"
    unfolding u by simp_all
  with EXTRACT_32_in [of "(packet, 0)" "uint (len - 4)"] show ?thesis
    by (auto simp: check_fcs_def load_def)
qed (simp add: check_fcs_def, blast)

lemma handle_80211_total:
  assumes "unat len \<le> length packet"
  shows "\<exists>r. handle_80211 (packet, 0) len = Some r"
proof (cases "len < 2")
  case False
  let ?fc = "be16 (packet ! 1) (packet ! 0)" and ?h = "extract_header_length (be16 (packet ! 1) (packet ! 0))"
  from False assms have two: "2 \<le> length packet" by (simp add: word_less_nat_alt)
  have "int (unat len) \<le> int (length packet)" using assms by (simp only: of_nat_le_iff)
  then have uint: "uint len \<le> int (length packet)" by simp
  obtain ok where ok: "check_fcs (packet, 0) len ?h = Some ok"
    using check_fcs_total [OF assms header_length_bounds] by blast
  show ?thesis
  proof (cases "uint len < ?h")
    case True
    with False two show ?thesis by (simp add: handle_80211_def fc_in Let_def)
  next
    case fits: False
    have "\<exists>r. handle_data_frame (packet, 0) (sint len) ?fc = Some r" if "FC_TYPE ?fc = T_DATA"
    proof (rule handle_data_frame_total [OF _ that])
      show "?h \<le> int (length packet)" using fits uint by linarith
      show "sint len \<le> int (length packet)" using uint sint_le_uint [of len] by linarith
    qed
    with False two ok fits show ?thesis
      by (auto simp: handle_80211_def fc_in Let_def IEEE802_11_FC_LEN_def)
  qed
qed (simp add: handle_80211_def)

section \<open>The frame check sequence\<close>

definition be_bytes :: "u32 \<Rightarrow> bytes" where
  "be_bytes w = [ucast (drop_bit 24 w), ucast (drop_bit 16 w), ucast (drop_bit 8 w), ucast w]"

lemma be32_be_bytes:
  "be32 (ucast (drop_bit 24 w)) (ucast (drop_bit 16 w)) (ucast (drop_bit 8 w)) (ucast w) = w"
proof (rule bit_eqI)
  fix k assume "possible_bit TYPE(u32) k"
  then have "k < 32" by simp
  then consider "k < 8" | "8 \<le> k" "k < 16" | "16 \<le> k" "k < 24" | "24 \<le> k" "k < 32" by linarith
  then show "bit (be32 (ucast (drop_bit 24 w)) (ucast (drop_bit 16 w)) (ucast (drop_bit 8 w)) (ucast w)) k =
      bit w k"
    by cases (auto simp: be32_def bit_or_iff bit_push_bit_iff bit_ucast_byte32 bit_ucast_iff bit_drop_bit_eq)
qed

definition fcs_flag :: "frame_80211 \<Rightarrow> bool option" where
  "fcs_flag r = (case r of Unknown \<Rightarrow> None | Mgmt b \<Rightarrow> Some b | Data b _ \<Rightarrow> Some b | Ctrl b \<Rightarrow> Some b
     | Reserved b \<Rightarrow> Some b)"

text \<open>A frame and a check sequence sent behind it: the flag says whether they match.\<close>

lemma fcs_flag_compares:
  assumes "2 \<le> length body" and "length body + 4 < 2 ^ 32"
    and "extract_header_length (be16 (body ! 1) (body ! 0)) \<le> int (length body)"
  shows "map_option fcs_flag (my_callback_wifi (body @ be_bytes w)) = Some (Some (crc32_802 body = w))"
proof -
  let ?p = "body @ be_bytes w" and ?h = "extract_header_length (be16 (body ! 1) (body ! 0))"
  let ?len = "of_nat (length (body @ be_bytes w)) :: u32"
  have four: "length (be_bytes w) = 4" by (simp add: be_bytes_def)
  have len: "unat ?len = length body + 4" using assms(2) by (simp only: length_append four unat_of_nat) simp
  then have "4 \<le> ?len" by (simp add: word_le_nat_alt)
  then have "unat (?len - 4) = length body" using len by (subst unat_sub) simp_all
  then have sub: "uint (?len - 4) = int (length body)" by (metis uint_nat)
  have "0 < length body" "1 < length body" using assms(1) by linarith+
  then have nth: "?p ! 0 = body ! 0" "?p ! 1 = body ! 1" by (simp_all only: nth_append if_True)
  have u: "uint ?len = int (length body) + 4" using len by (metis uint_nat of_nat_add of_nat_numeral)
  have h: "0 \<le> ?h" "?h \<le> 30" by (rule header_length_bounds)+
  have "unat (word_of_int ?h + 4 :: u32) = nat ?h + 4"
    using h by (subst unat_add_lem [THEN iffD1]) (simp_all add: unat_word_of_int32)
  with len assms(3) have le: "word_of_int ?h + 4 \<le> ?len" by (simp add: word_le_nat_alt)
  have "EXTRACT_32BITS (?p, 0) (int (length body)) = Some w"
    by (simp add: EXTRACT_32BITS_def load8_within four nth_append nat_add_distrib be_bytes_def be32_be_bytes)
  moreover have "load (?p, 0) 0 (int (length body)) = Some body" by (simp add: load_def)
  ultimately have chk: "check_fcs (?p, 0) ?len ?h = Some (crc32_802 body = w)"
    using le by (simp only: check_fcs_def sub Check80211FCS_def) simp
  have "\<not> ?len < 2" using len by (simp add: word_less_nat_alt)
  moreover have "EXTRACT_LE_16BITS (?p, 0) 0 = Some (be16 (body ! 1) (body ! 0))"
    using fc_in [of ?p] assms(1) nth by (simp only: length_append le_add1 trans_le_add1)
  moreover have "\<not> uint ?len < IEEE802_11_FC_LEN" "\<not> uint ?len < ?h"
    using u assms by (simp_all add: IEEE802_11_FC_LEN_def)
  moreover obtain r where "handle_80211 (?p, 0) ?len = Some r"
    using handle_80211_total [of ?len ?p] len four by auto
  ultimately show ?thesis
    using chk by (auto simp: my_callback_wifi_def handle_80211_def fcs_flag_def Let_def split: if_splits)
qed

section \<open>Properties\<close>

text \<open>C36. Decoding an 802.11 frame never reads outside it: \<^verbatim>\<open>handle_80211\<close> returns for every captured
  frame, however short or malformed (the four bytes it sets aside for the check sequence also cover
  the one byte by which the guard of \<^verbatim>\<open>handle_llc\<close> is short).\<close>

theorem wifi_decoding_total: "\<exists>r. my_callback_wifi packet = Some r"
proof -
  have "unat (of_nat (length packet) :: u32) \<le> length packet" by (simp add: unat_of_nat)
  then show ?thesis unfolding my_callback_wifi_def by (rule handle_80211_total)
qed

text \<open>The check sequence works end to end: a frame followed by its big-endian \<^verbatim>\<open>crc32_802\<close> is
  marked good, and the same frame with any one byte behind the frame control field changed is marked
  bad.\<close>

theorem wifi_fcs_detects_change:
  assumes "2 \<le> length xs" and "length (xs @ a # ys) + 4 < 2 ^ 32" and "a \<noteq> b"
    and "extract_header_length (be16 (xs ! 1) (xs ! 0)) \<le> int (length (xs @ a # ys))"
  shows "map_option fcs_flag (my_callback_wifi (xs @ a # ys @ be_bytes (crc32_802 (xs @ a # ys)))) =
      Some (Some True) \<and>
    map_option fcs_flag (my_callback_wifi (xs @ b # ys @ be_bytes (crc32_802 (xs @ a # ys)))) =
      Some (Some False)"
proof -
  let ?w = "crc32_802 (xs @ a # ys)"
  have "0 < length xs" "1 < length xs" using assms(1) by linarith+
  then have nth: "(xs @ c # ys) ! 0 = xs ! 0" "(xs @ c # ys) ! Suc 0 = xs ! Suc 0" for c
    by (simp_all only: nth_append if_True One_nat_def)
  have good: "map_option fcs_flag (my_callback_wifi ((xs @ c # ys) @ be_bytes ?w)) =
      Some (Some (crc32_802 (xs @ c # ys) = ?w))" for c
  proof (rule fcs_flag_compares)
    show "extract_header_length (be16 ((xs @ c # ys) ! 1) ((xs @ c # ys) ! 0)) \<le> int (length (xs @ c # ys))"
      using assms(4) by (simp add: nth)
  qed (use assms(1,2) in simp_all)
  have "crc32_802 (xs @ b # ys) \<noteq> ?w"
    using crc.changed_input [OF not_sym [OF assms(3)], of CRC32_CCITT_SEED xs ys]
    by (blast dest: crc32_802_register)
  with good [of a] good [of b] show ?thesis by simp
qed

lemma wifi_fcs_detects_change_witness:
  "map_option fcs_flag (my_callback_wifi ([0xd4, 0] @ 1 # replicate 11 7 @
      be_bytes (crc32_802 ([0xd4, 0] @ 1 # replicate 11 7)))) = Some (Some True) \<and>
   map_option fcs_flag (my_callback_wifi ([0xd4, 0] @ 3 # replicate 11 7 @
      be_bytes (crc32_802 ([0xd4, 0] @ 1 # replicate 11 7)))) = Some (Some False)"
  by (rule wifi_fcs_detects_change)
     (simp_all add: extract_header_length_def ctrl_header_length_def hdrlen_defs FC_TYPE_def FC_SUBTYPE_def ctrl_defs type_defs be16_def)

text \<open>The organisation code is cut to 16 bits when it is stored, so the test for encapsulated
  Ethernet ignores its first byte: any organisation whose code ends in two zero bytes passes it.\<close>

theorem llc_oui_truncated:
  "handle_llc ([d, s, c, h, 0, 0, 8, 0], 0) 8 =
     Some (LlcIp \<lparr>dsap = d, ssap = s, control = c, oui = OUI_ENCAP_ETHER, llc_type = ETHERTYPE_IP\<rparr>)"
proof -
  have "ucast (push_bit 16 (ucast h :: u32) OR push_bit 8 (ucast (0 :: byte)) OR ucast (0 :: byte)) =
      (0 :: u16)"
    by (rule bit_eqI) (simp add: bit_ucast_iff bit_or_iff bit_push_bit_iff)
  moreover have "be16 8 0 = ETHERTYPE_IP" by (simp add: be16_def ETHERTYPE_IP_def)
  ultimately show ?thesis
    by (simp add: handle_llc_def EXTRACT_LE_8BITS_def EXTRACT_24BITS_def EXTRACT_16BITS_def load8_def
        OUI_ENCAP_ETHER_def Let_def)
qed

end
