(* ===== verification/PrintPayload.thy ===== *)
theory PrintPayload
  imports Prelude
begin

text \<open>
  \<^verbatim>\<open>print_hex_ascii_line\<close> and \<^verbatim>\<open>print_payload\<close> of \<^verbatim>\<open>src/sniffer/SniffTcp.cc\<close>: the hex dump of a
  payload. The result is the text written to stdout; \<open>None\<close> is a read outside the payload's buffer.
\<close>

section \<open>Formats\<close>

definition hex_digit :: "nat \<Rightarrow> char" where
  "hex_digit n = (if n < 10 then char_of (48 + n) else char_of (87 + n))"

text \<open>\<^verbatim>\<open>printf("%02x", b)\<close> of an \<^verbatim>\<open>unsigned char\<close>, \<^verbatim>\<open>printf("%05d", n)\<close>, and \<^verbatim>\<open>isprint\<close> in the C locale.\<close>

definition hex02 :: "byte \<Rightarrow> string" where
  "hex02 b = [hex_digit (unat b div 16), hex_digit (unat b mod 16)]"

definition dec05 :: "int \<Rightarrow> string" where
  "dec05 n = (let d = show_nat (nat \<bar>n\<bar>); sign = (if n < 0 then ''-'' else [])
     in sign @ replicate (5 - length sign - length d) CHR ''0'' @ d)"

definition isprint :: "byte \<Rightarrow> bool" where
  "isprint b \<longleftrightarrow> 32 \<le> b \<and> b \<le> 126"

definition spaces :: "nat \<Rightarrow> string" where
  "spaces n = replicate n CHR '' ''"

section \<open>The dump\<close>

text \<open>The loop of the hex column, from index \<open>i\<close>, with the extra space behind the eighth byte.\<close>

fun hex_column :: "nat \<Rightarrow> bytes \<Rightarrow> string" where
  "hex_column i [] = []"
| "hex_column i (b # bs) = hex02 b @ spaces 1 @ (if i = 7 then spaces 1 else []) @ hex_column (Suc i) bs"

definition ascii_column :: "bytes \<Rightarrow> string" where
  "ascii_column bs = map (\<lambda>b. if isprint b then char_of (unat b) else CHR ''.'') bs"

definition print_hex_ascii_line :: "cptr \<Rightarrow> int \<Rightarrow> int \<Rightarrow> string option" where
  "print_hex_ascii_line payload len offset = do {
     bs \<leftarrow> load payload 0 (if 0 < len then len else 0);
     Some (dec05 offset @ spaces 3 @ hex_column 0 bs @
           (if len < 8 then spaces 1 else []) @
           (if len < 16 then spaces (3 * nat (16 - len)) else []) @
           spaces 3 @ ascii_column bs @ [CHR 0x0A])
   }"

text \<open>The endless loop of \<^verbatim>\<open>print_payload\<close>, entered with more than a line left. A line is
  \<^verbatim>\<open>line_width % len_rem\<close> bytes, which is \<^verbatim>\<open>line_width\<close>; \<open>fuel\<close> bounds the rounds
  (\<open>print_loop_rows\<close> shows that it is enough).\<close>

fun print_loop :: "nat \<Rightarrow> cptr \<Rightarrow> int \<Rightarrow> int \<Rightarrow> string option" where
  "print_loop 0 ch len_rem offset = None"
| "print_loop (Suc n) ch len_rem offset = do {
     let line_len = 16 mod len_rem;
     l \<leftarrow> print_hex_ascii_line ch line_len offset;
     let len_rem = len_rem - line_len;
     let ch = padd ch line_len;
     let offset = offset + 16;
     if len_rem \<le> 16 then do {
       last \<leftarrow> print_hex_ascii_line ch len_rem offset;
       Some (l @ last)
     }
     else do {
       rest \<leftarrow> print_loop n ch len_rem offset;
       Some (l @ rest)
     }
   }"

definition print_payload :: "cptr \<Rightarrow> int \<Rightarrow> string option" where
  "print_payload payload len =
     (if len \<le> 0 then Some []
      else if len \<le> 16 then print_hex_ascii_line payload len 0
      else print_loop (nat len) payload len 0)"

section \<open>Rows\<close>

text \<open>What a row of the dump should be, and the dump as its rows.\<close>

definition row :: "bytes \<Rightarrow> nat \<Rightarrow> string" where
  "row bs offset = dec05 (int offset) @ spaces 3 @ hex_column 0 bs @
     spaces (52 - length (hex_column 0 bs)) @ ascii_column bs @ [CHR 0x0A]"

fun rows :: "nat \<Rightarrow> bytes \<Rightarrow> string" where
  "rows offset bs = (if bs = [] then [] else row (take 16 bs) offset @ rows (offset + 16) (drop 16 bs))"

declare rows.simps [simp del]

lemma length_hex_column:
  "length (hex_column i bs) = 3 * length bs + (if i \<le> 7 \<and> 7 < i + length bs then 1 else 0)"
  by (induction bs arbitrary: i) (auto simp: hex02_def spaces_def)

lemma spaces_add: "spaces m @ spaces n = spaces (m + n)"
  by (simp add: spaces_def replicate_add)

lemma length_show_nat: "n < 10 ^ k \<Longrightarrow> 0 < k \<Longrightarrow> length (show_nat n) \<le> k"
proof (induction k arbitrary: n)
  case (Suc k)
  show ?case
  proof (cases "n < 10")
    case False
    with Suc.prems have "n div 10 < 10 ^ k" "0 < k" by (auto simp: less_mult_imp_div_less intro: gr0I)
    with Suc.IH False show ?thesis by (subst show_nat.simps) simp
  qed (subst show_nat.simps; simp)
qed simp

lemma length_dec05: "offset < 100000 \<Longrightarrow> length (dec05 (int offset)) = 5"
  using length_show_nat [of offset 5] by (simp add: dec05_def Let_def)

lemma print_line_row:
  assumes "load p 0 (int n) = Some bs" and "n \<le> 16"
  shows "print_hex_ascii_line p (int n) (int offset) = Some (row bs offset)"
proof -
  have n: "length bs = n" using load_length [OF assms(1)] by simp
  let ?gap = "(if int n < 8 then spaces 1 else []) @
    (if int n < 16 then spaces (3 * nat (16 - int n)) else []) @ spaces 3"
  have "?gap = spaces (52 - length (hex_column 0 bs))"
  proof (cases "n = 16")
    case False
    then have "nat (16 - int n) = 16 - n" "n < 16" using assms(2) by linarith+
    then show ?thesis by (auto simp: spaces_add length_hex_column n intro: arg_cong [where f = spaces])
  qed (simp add: length_hex_column n)
  moreover have "(if 0 < int n then int n else 0) = int n" by simp
  ultimately show ?thesis
    using assms(1) by (simp add: print_hex_ascii_line_def row_def del: append_assoc flip: append_assoc)
qed

lemma load_pieces:
  assumes "load p 0 (int n) = Some bs" and "k \<le> n"
  shows "load p 0 (int k) = Some (take k bs)" and "load (padd p (int k)) 0 (int (n - k)) = Some (drop k bs)"
  using assms
  by (auto simp: load_Some_iff padd_def slice_def min_def drop_take nat_add_distrib nat_diff_distrib add.commute)

lemma print_loop_rows:
  "16 < n \<Longrightarrow> n \<le> m * 16 \<Longrightarrow> load p 0 (int n) = Some bs \<Longrightarrow>
   print_loop m p (int n) (int offset) = Some (rows offset bs)"
proof (induction m arbitrary: n p bs offset)
  case (Suc m)
  have len: "length bs = n" using load_length [OF Suc.prems(3)] by simp
  have "(16 :: int) mod int n = 16" using Suc.prems(1) by simp
  note first = load_pieces [OF Suc.prems(3), of 16]
  have l: "print_hex_ascii_line p 16 (int offset) = Some (row (take 16 bs) offset)"
    using print_line_row [of p 16 "take 16 bs" offset] first(1) Suc.prems(1) by simp
  have rest: "load (padd p 16) 0 (int (n - 16)) = Some (drop 16 bs)"
    using first(2) Suc.prems(1) by simp
  have ne: "bs \<noteq> []" "drop 16 bs \<noteq> []" using len Suc.prems(1) by auto
  have sub: "int n - 16 = int (n - 16)" using Suc.prems(1) by simp
  have off: "int offset + 16 = int (offset + 16)" by simp
  show ?case
  proof (cases "n - 16 \<le> 16")
    case True
    have "rows (offset + 16) (drop 16 bs) = row (drop 16 bs) (offset + 16)"
      using True len ne by (subst rows.simps) (simp add: rows.simps [of _ "[]"])
    moreover have "print_hex_ascii_line (padd p 16) (int (n - 16)) (int (offset + 16)) =
        Some (row (drop 16 bs) (offset + 16))"
      by (rule print_line_row [OF rest True])
    ultimately show ?thesis
      using l ne \<open>16 mod int n = 16\<close> True
      by (simp only: print_loop.simps Let_def sub off rows.simps [of offset bs]) simp
  next
    case False
    with Suc.IH [OF _ _ rest, of "offset + 16"] Suc.prems(2)
    have "print_loop m (padd p 16) (int (n - 16)) (int (offset + 16)) =
        Some (rows (offset + 16) (drop 16 bs))" by simp
    moreover have "\<not> n \<le> 32" using False by linarith
    ultimately show ?thesis
      using l ne \<open>16 mod int n = 16\<close> False
      by (simp only: print_loop.simps Let_def sub off rows.simps [of offset bs]) simp
  qed
qed simp

section \<open>Properties\<close>

text \<open>The hex dump of a readable payload is its rows: sixteen bytes to a row in order, none lost
  or repeated, each row with its offset; the loop ends. In each row the text column starts at the same
  place (column 60) however many bytes the row has.\<close>

theorem print_payload_rows:
  assumes "load p 0 (int n) = Some bs"
  shows "print_payload p (int n) = Some (rows 0 bs) \<and>
    (\<forall>k offset. offset < 100000 \<longrightarrow> length (row (take 16 (drop k bs)) offset) =
       60 + min 16 (length bs - k) + 1)"
proof (intro conjI allI impI)
  have len: "length bs = n" using load_length [OF assms] by simp
  show "print_payload p (int n) = Some (rows 0 bs)"
  proof (cases "n \<le> 16")
    case True
    have "rows 0 bs = (if n = 0 then [] else row bs 0)"
      by (subst rows.simps) (use True len in \<open>auto simp: rows.simps [of _ "[]"]\<close>)
    with print_line_row [OF assms True, of 0] True show ?thesis by (auto simp: print_payload_def)
  next
    case False
    with print_loop_rows [of n n p bs 0] assms show ?thesis by (simp add: print_payload_def)
  qed
next
  fix k offset :: nat
  assume "offset < 100000"
  then have "length (dec05 (int offset)) = 5" by (rule length_dec05)
  then show "length (row (take 16 (drop k bs)) offset) = 60 + min 16 (length bs - k) + 1"
    by (simp add: row_def length_hex_column spaces_def ascii_column_def min.commute)
qed

lemma print_payload_rows_witness:
  "load ([1, 2, 3], 0) 0 (int 3) = Some [1, 2, 3] \<and> print_payload ([1, 2, 3], 0) (int 3) = Some (rows 0 [1, 2, 3])"
proof -
  have "load ([1, 2, 3], 0) 0 (int 3) = Some [1, 2, 3 :: byte]" by (simp add: load_def)
  with print_payload_rows [OF this] show ?thesis by blast
qed

end
