(* ===== verification/CmdLine.thy ===== *)
theory CmdLine
  imports Prelude
begin

text \<open>
  The command line and \<^verbatim>\<open>main\<close> of \<^verbatim>\<open>src/sniffer/SniffTcp.cc\<close>. \<^verbatim>\<open>argv\<close> is the list of the arguments,
  the program name first; \<^verbatim>\<open>argc\<close> its length. \<^verbatim>\<open>atoi\<close> of a number outside \<^verbatim>\<open>int\<close> is undefined (\<open>None\<close>).
\<close>

section \<open>atoi\<close>

definition isspace :: "char \<Rightarrow> bool" where
  "isspace c \<longleftrightarrow> c = CHR '' '' \<or> (9 \<le> (of_char c :: nat) \<and> (of_char c :: nat) \<le> 13)"

definition digits_value :: "string \<Rightarrow> int" where
  "digits_value ds = foldl (\<lambda>v c. 10 * v + (int (of_char c) - 48)) 0 ds"

definition int_range :: "int \<Rightarrow> bool" where
  "int_range n \<longleftrightarrow> - (2 ^ 31) \<le> n \<and> n < 2 ^ 31"

definition atoi :: "string \<Rightarrow> int option" where
  "atoi s =
     (let t = dropWhile isspace s;
          (neg, u) = (case t of
             [] \<Rightarrow> (False, [])
           | c # cs \<Rightarrow> if c = CHR ''-'' then (True, cs) else if c = CHR ''+'' then (False, cs) else (False, t));
          v = digits_value (takeWhile is_digit u);
          n = (if neg then - v else v)
      in if int_range n then Some n else None)"

section \<open>Options\<close>

datatype run_mode = OFFLINE | ONLINE | OFFLINE_ONLINE | ONLINE_WIFI | OFFLINE_ONLINE_WIFI

record run_params =
  num_pkts :: int
  interface :: string
  socket :: string
  mode :: run_mode
  ip_to_ignore :: string
  multi_chance :: int

text \<open>\<^verbatim>\<open>g_run_options\<close> is a global, so it starts zeroed; null pointers are empty strings here, and are
  overwritten before they are read.\<close>

definition g_run_options :: run_params where
  "g_run_options = \<lparr>num_pkts = 0, interface = [], socket = [], mode = OFFLINE, ip_to_ignore = [],
     multi_chance = 0\<rparr>"

definition mode_of :: "int \<Rightarrow> run_mode option" where
  "mode_of n = (if n = 0 then Some OFFLINE else if n = 1 then Some ONLINE
     else if n = 2 then Some OFFLINE_ONLINE else if n = 3 then Some ONLINE_WIFI
     else if n = 4 then Some OFFLINE_ONLINE_WIFI else None)"

definition parse_command_line_args :: "string list \<Rightarrow> run_params \<Rightarrow> (bool \<times> run_params) option" where
  "parse_command_line_args argv o1 =
     (if length argv < 6 then Some (False, o1)
      else do {
        n \<leftarrow> atoi (argv ! 1);
        let o2 = o1\<lparr>num_pkts := n, interface := argv ! 2, socket := argv ! 3\<rparr>;
        m \<leftarrow> atoi (argv ! 4);
        (case mode_of m of
           None \<Rightarrow> Some (False, o2)
         | Some md \<Rightarrow> do {
             let o3 = o2\<lparr>mode := md, ip_to_ignore := argv ! 5\<rparr>;
             if length argv = 7 then do {
               c \<leftarrow> atoi (argv ! 6);
               Some (True, o3\<lparr>multi_chance := c\<rparr>)
             }
             else Some (True, o3)
           })
      })"

section \<open>main\<close>

text \<open>What \<^verbatim>\<open>main\<close> does, in order; \<open>RunLive\<close> does not return. The WIFI modes run nothing, their calls are
  commented out. The second component is \<^verbatim>\<open>g_multi_chances\<close> when the first capture starts.\<close>

datatype action = PrintUsage | RunOffline | RunLive | PrintFinished

definition run_actions :: "run_mode \<Rightarrow> action list" where
  "run_actions m = (case m of
     OFFLINE_ONLINE_WIFI \<Rightarrow> [PrintFinished]
   | ONLINE_WIFI \<Rightarrow> [PrintFinished]
   | OFFLINE_ONLINE \<Rightarrow> [RunOffline, RunLive]
   | ONLINE \<Rightarrow> [RunLive]
   | OFFLINE \<Rightarrow> [RunOffline, PrintFinished])"

definition main_actions :: "string list \<Rightarrow> (action list \<times> bool) option" where
  "main_actions argv = do {
     (ok, opts) \<leftarrow> parse_command_line_args argv g_run_options;
     if \<not> ok then Some ([PrintUsage], True)
     else Some (run_actions (mode opts), multi_chance opts \<noteq> 0)
   }"

section \<open>Properties\<close>

lemma digits_value_show_nat: "digits_value (show_nat n) = int n"
proof (induction n rule: show_nat.induct)
  case (1 n)
  have digit: "int (of_char (digit d)) - 48 = int d" if "d < 10" for d
    using that by (simp add: digit_def of_char_of)
  show ?case
  proof (cases "n < 10")
    case True
    then show ?thesis by (subst show_nat.simps) (simp add: digits_value_def digit)
  next
    case False
    with 1 have "digits_value (show_nat (n div 10)) = int (n div 10)" by simp
    with False show ?thesis
      by (subst show_nat.simps) (simp add: digits_value_def digit flip: of_nat_mod of_nat_div; presburger)
  qed
qed

lemma not_space_digit: "is_digit c \<Longrightarrow> \<not> isspace c \<and> c \<noteq> CHR ''-'' \<and> c \<noteq> CHR ''+''"
  by (auto simp: is_digit_def isspace_def)

lemma atoi_show_int: "int_range n \<Longrightarrow> atoi (show_int n) = Some n"
proof -
  assume n: "int_range n"
  obtain d ds where "show_nat (nat \<bar>n\<bar>) = d # ds" by (cases "show_nat (nat \<bar>n\<bar>)") simp_all
  moreover from this have "is_digit d" using show_nat_chars [of d "nat \<bar>n\<bar>"] by simp
  moreover from calculation(1) have "takeWhile is_digit ds = ds"
    using show_nat_chars [of _ "nat \<bar>n\<bar>"] by (simp add: takeWhile_eq_all_conv)
  moreover have "\<not> isspace (CHR ''-'')" by (simp add: isspace_def)
  ultimately show ?thesis
    using n not_space_digit [of d] digits_value_show_nat [of "nat \<bar>n\<bar>"]
    by (cases "n < 0") (auto simp: atoi_def show_int_def Let_def takeWhile_eq_all_conv [THEN iffD2])
qed

text \<open>The number of a mode in the usage text.\<close>

definition mode_number :: "run_mode \<Rightarrow> int" where
  "mode_number m = (case m of OFFLINE \<Rightarrow> 0 | ONLINE \<Rightarrow> 1 | OFFLINE_ONLINE \<Rightarrow> 2 | ONLINE_WIFI \<Rightarrow> 3
     | OFFLINE_ONLINE_WIFI \<Rightarrow> 4)"

lemma mode_of_number: "mode_of (mode_number m) = Some m" "int_range (mode_number m)"
  by (cases m; simp add: mode_of_def mode_number_def int_range_def)+

text \<open>C40. Every setting a user can name on the command line is taken over: from the decimal forms of
  two \<^verbatim>\<open>int\<close>s, the number of any of the five modes and any interface, socket and address,
  \<^verbatim>\<open>parse_command_line_args\<close> succeeds and fills every field of the options with what was named.\<close>

theorem command_line_roundtrip:
  assumes "int_range n" and "int_range c"
  shows "parse_command_line_args
      [prog, show_int n, ifc, sock, show_int (mode_number md), ip, show_int c] opts =
    Some (True, opts\<lparr>num_pkts := n, interface := ifc, socket := sock, mode := md, ip_to_ignore := ip,
      multi_chance := c\<rparr>)"
  using assms by (simp add: parse_command_line_args_def atoi_show_int mode_of_number)

lemma command_line_roundtrip_witness:
  "parse_command_line_args [''sniffTcp'', show_int 1000, ''lo'', ''/tmp/s'', show_int (mode_number ONLINE),
      ''128.2.223.103'', show_int 1] g_run_options =
    Some (True, g_run_options\<lparr>num_pkts := 1000, interface := ''lo'', socket := ''/tmp/s'', mode := ONLINE,
      ip_to_ignore := ''128.2.223.103'', multi_chance := 1\<rparr>)"
  by (rule command_line_roundtrip) (simp_all add: int_range_def)

text \<open>The usage text gives 1 as the default of \<^verbatim>\<open>multi_chances\<close>. A command line without that
  argument runs with reconstruction switched off instead: the option keeps the 0 of the zeroed global.
  Naming it 1 switches it on.\<close>

theorem multi_chances_default_off:
  assumes "int_range n"
  shows "main_actions [prog, show_int n, ifc, sock, show_int (mode_number md), ip] =
      Some (run_actions md, False) \<and>
    main_actions [prog, show_int n, ifc, sock, show_int (mode_number md), ip, show_int 1] =
      Some (run_actions md, True)"
proof -
  have "int_range 1" by (simp add: int_range_def)
  with assms show ?thesis
    by (simp add: main_actions_def parse_command_line_args_def atoi_show_int mode_of_number g_run_options_def)
qed

lemma multi_chances_default_off_witness:
  "main_actions [''sniffTcp'', show_int 5, ''lo'', ''/tmp/s'', show_int (mode_number OFFLINE), ''1.2.3.4''] =
      Some (run_actions OFFLINE, False)"
  by (rule multi_chances_default_off [THEN conjunct1]) (simp add: int_range_def)

end
