(* ===== verification/Util.thy ===== *)
theory Util
  imports Extract
begin

text \<open>
  The rest of \<^verbatim>\<open>src/sniffer/util.cc\<close> and \<^verbatim>\<open>util.h\<close>: the operators of \<^verbatim>\<open>MAC\<close>, the ring of buffers
  that \<^verbatim>\<open>va\<close> and \<^verbatim>\<open>tok2str\<close> format into, and the table of Ethernet types.
\<close>

section \<open>MAC comparison\<close>

definition MAC_eq :: "u64 \<Rightarrow> u64 \<Rightarrow> bool" where "MAC_eq a b \<longleftrightarrow> a = b"
definition MAC_neq :: "u64 \<Rightarrow> u64 \<Rightarrow> bool" where "MAC_neq a b \<longleftrightarrow> a \<noteq> b"
definition MAC_less :: "u64 \<Rightarrow> u64 \<Rightarrow> bool" where "MAC_less a b \<longleftrightarrow> a < b"

section \<open>Tokens\<close>

record tok =
  tok_v :: int
  tok_s :: "string option"

definition ethertype_values :: "tok list" where
  "ethertype_values = map (\<lambda>(v, s). \<lparr>tok_v = v, tok_s = Some s\<rparr>)
     [(0x0800, ''IPv4''), (0x8847, ''MPLS unicast''), (0x8848, ''MPLS multicast''), (0x86dd, ''IPv6''),
      (0x8100, ''802.1Q''), (0x9100, ''VMAN''), (0x0200, ''PUP''), (0x0806, ''ARP''),
      (0x8035, ''Reverse ARP''), (0x0600, ''NS''), (0x0500, ''Sprite''), (0x1000, ''Trail''),
      (0x6001, ''MOP DL''), (0x6002, ''MOP RC''), (0x6003, ''DN''), (0x6004, ''LAT''), (0x6007, ''SCA''),
      (0x8038, ''Lanbridge''), (0x803c, ''DEC DNS''), (0x803e, ''DEC DTS''), (0x805b, ''VEXP''),
      (0x805c, ''VPROD''), (0x809b, ''Appletalk''), (0x80f3, ''Appletalk ARP''), (0x8137, ''IPX''),
      (0x880b, ''PPP''), (0x8809, ''Slow Protocols''), (0x8863, ''PPPoE D''), (0x8864, ''PPPoE S''),
      (0x888e, ''EAPOL''), (0x8870, ''Jumbo''), (0x9000, ''Loopback''), (0xfefe, ''OSI''),
      (0x00FE, ''GRE-OSI'')] @ [\<lparr>tok_v = 0, tok_s = None\<rparr>]"

text \<open>The table walk of \<^verbatim>\<open>tok2strbuf\<close>: up to the entry without a string. Without one the walk leaves
  the table (\<open>None\<close>).\<close>

fun tok_find :: "tok list \<Rightarrow> int \<Rightarrow> string option option" where
  "tok_find [] v = None"
| "tok_find (lp # lps) v = (case tok_s lp of
     None \<Rightarrow> Some None
   | Some s \<Rightarrow> if tok_v lp = v then Some (Some s) else tok_find lps v)"

text \<open>The string found, or the call of \<^verbatim>\<open>snprintf\<close> that fills the buffer: its size, format and value.
  A null table is \<open>None\<close>.\<close>

datatype tok_text = Name string | Snprintf nat string int

definition tok2strbuf :: "tok list option \<Rightarrow> string option \<Rightarrow> int \<Rightarrow> nat \<Rightarrow> tok_text option" where
  "tok2strbuf lp fmt v bufsize = do {
     found \<leftarrow> (case lp of None \<Rightarrow> Some None | Some t \<Rightarrow> tok_find t v);
     Some (case found of
       Some s \<Rightarrow> Name s
     | None \<Rightarrow> Snprintf bufsize (case fmt of None \<Rightarrow> ''#%d'' | Some f \<Rightarrow> f) v)
   }"

text \<open>\<^verbatim>\<open>tok2str\<close>: the static index \<open>idx\<close> picks one of four buffers of 128 bytes. The result names the
  buffer used.\<close>

definition tok2str :: "tok list option \<Rightarrow> string option \<Rightarrow> int \<Rightarrow> nat \<Rightarrow> (tok_text \<times> nat \<times> nat) option" where
  "tok2str lp fmt v idx = do {
     r \<leftarrow> tok2strbuf lp fmt v 128;
     Some (r, idx, (idx + 1) AND 3)
   }"

text \<open>\<^verbatim>\<open>va\<close>: one of eight buffers of 512 bytes, and the next index. \<^verbatim>\<open>vsprintf\<close> has no bound, a text of
  512 characters or more overruns the buffer.\<close>

definition va :: "string \<Rightarrow> nat \<Rightarrow> (nat \<times> nat) option" where
  "va formatted index = (if length formatted < 512 then Some (index, (index + 1) mod 8) else None)"

section \<open>Properties\<close>

lemma and_3: "(n :: nat) AND 3 = n mod 4"
  using take_bit_eq_mask [of 2 n] by (simp add: take_bit_eq_mod mask_eq_exp_minus_1)

lemma tok_find_named:
  "(\<forall>t \<in> set ts. tok_s t \<noteq> None) \<Longrightarrow> distinct (map tok_v ts) \<Longrightarrow> t \<in> set ts \<Longrightarrow>
   tok_find (ts @ us) (tok_v t) = Some (tok_s t)"
  by (induction ts) (auto simp: image_iff)

lemma tok_find_absent:
  "(\<forall>t \<in> set ts. tok_s t \<noteq> None) \<Longrightarrow> v \<notin> tok_v ` set ts \<Longrightarrow> tok_find (ts @ us) v = tok_find us v"
  by (induction ts) auto

lemma ethertype_table:
  "ethertype_values = butlast ethertype_values @ [\<lparr>tok_v = 0, tok_s = None\<rparr>]"
  "\<forall>t \<in> set (butlast ethertype_values). tok_s t \<noteq> None"
  "distinct (map tok_v (butlast ethertype_values))"
  by (simp_all add: ethertype_values_def)

text \<open>Every entry of the Ethernet type table is printed by its own name (no number stands twice),
  and a number outside the table is formatted, by default as \<^verbatim>\<open>#%d\<close>, with the buffer's size as bound.
  The walk always stops inside the table, and the buffers are used in turn.\<close>

theorem tok2str_ethertypes:
  assumes "t \<in> set (butlast ethertype_values)" and "v \<notin> tok_v ` set (butlast ethertype_values)"
  shows "tok2str (Some ethertype_values) fmt (tok_v t) idx =
      Some (Name (the (tok_s t)), idx, (idx + 1) mod 4) \<and>
    tok2str (Some ethertype_values) None v idx = Some (Snprintf 128 ''#%d'' v, idx, (idx + 1) mod 4)"
proof -
  obtain s where s: "tok_s t = Some s" using assms(1) ethertype_table(2) by auto
  have "tok_find ethertype_values (tok_v t) = Some (Some s)"
    using tok_find_named [OF ethertype_table(2,3) assms(1)] s by (metis ethertype_table(1))
  moreover have "tok_find ethertype_values v = Some None"
    by (subst ethertype_table(1)) (simp add: tok_find_absent [OF ethertype_table(2) assms(2)])
  ultimately show ?thesis by (simp add: tok2str_def tok2strbuf_def and_3 s)
qed

lemma tok2str_ethertypes_witness:
  "tok2str (Some ethertype_values) None 0x86dd 3 = Some (Name ''IPv6'', 3, 0) \<and>
   tok2str (Some ethertype_values) None 7 3 = Some (Snprintf 128 ''#%d'' 7, 3, 0)"
proof -
  let ?t = "\<lparr>tok_v = 0x86dd, tok_s = Some ''IPv6''\<rparr>"
  have "?t \<in> set (butlast ethertype_values)" and "7 \<notin> tok_v ` set (butlast ethertype_values)"
    by (simp_all add: ethertype_values_def)
  from tok2str_ethertypes [OF this, of None 3] show ?thesis by simp
qed

end
