(* ===== verification/GtcdConfig.thy ===== *)
theory GtcdConfig
  imports Prelude
begin

text \<open>
  \<^verbatim>\<open>src/gtcd/configfile.cc\<close>: the plugin sections, the routing table and the sniffer section of the
  configuration file of the daemon. The tokenizer (\<^verbatim>\<open>parseargs\<close> of the RPC library) delivers lines of at
  least one word; a line is its first word and the others. \<^verbatim>\<open>join\<close> of the same library is a parameter.
  A missing file name is \<open>None\<close>; the warnings are left out.
\<close>

type_synonym cfg_line = "string \<times> string list"

definition tolower :: "char \<Rightarrow> char" where
  "tolower c = (if 65 \<le> (of_char c :: nat) \<and> (of_char c :: nat) \<le> 90 then char_of ((of_char c :: nat) + 32) else c)"

text \<open>\<^verbatim>\<open>!strcasecmp(a, b)\<close>.\<close>

definition same_word :: "string \<Rightarrow> string \<Rightarrow> bool" where
  "same_word a b \<longleftrightarrow> map tolower a = map tolower b"

datatype config_state = CONFIG_NONE | CONFIG_STORAGE | CONFIG_XFER | CONFIG_ROUTING | CONFIG_SNIFFER

section \<open>Plugin sections\<close>

record config =
  cfg_state :: config_state
  saw_storage :: bool
  saw_xfer :: bool
  saw_routing :: bool
  saw_sniffer :: bool
  errors :: bool
  sp_list :: "string list"
  xp_list :: "string list"

definition config_start :: "string list \<Rightarrow> string list \<Rightarrow> config" where
  "config_start sp xp = \<lparr>cfg_state = CONFIG_NONE, saw_storage = False, saw_xfer = False,
     saw_routing = False, saw_sniffer = False, errors = False, sp_list = sp, xp_list = xp\<rparr>"

text \<open>What a plugin line puts on its list: the plugin, the plugins it is chained to, its parameters.\<close>

definition plugin_entry :: "(string \<Rightarrow> string list \<Rightarrow> string) \<Rightarrow> cfg_line \<Rightarrow> string list" where
  "plugin_entry join ln = (case ln of (plugin, av) \<Rightarrow>
     (case av of [] \<Rightarrow> [plugin, [], []] | plg_list # conf \<Rightarrow> [plugin, plg_list, join '' '' conf]))"

definition config_step :: "(string \<Rightarrow> string list \<Rightarrow> string) \<Rightarrow> cfg_line \<Rightarrow> config \<Rightarrow> config" where
  "config_step join ln c =
     (if same_word (fst ln) ''[storage]'' then
        (if saw_storage c then c\<lparr>errors := True\<rparr>
         else c\<lparr>cfg_state := CONFIG_STORAGE, saw_storage := True\<rparr>)
      else if same_word (fst ln) ''[transfer]'' then
        (if saw_xfer c then c\<lparr>errors := True\<rparr> else c\<lparr>cfg_state := CONFIG_XFER, saw_xfer := True\<rparr>)
      else if same_word (fst ln) ''[routing]'' then
        (if saw_routing c then c\<lparr>errors := True\<rparr>
         else c\<lparr>cfg_state := CONFIG_ROUTING, saw_routing := True\<rparr>)
      else if same_word (fst ln) ''[sniffer]'' then
        (if saw_sniffer c then c\<lparr>errors := True\<rparr>
         else c\<lparr>cfg_state := CONFIG_SNIFFER, saw_sniffer := True\<rparr>)
      else (case cfg_state c of
          CONFIG_NONE \<Rightarrow> c\<lparr>errors := True\<rparr>
        | CONFIG_STORAGE \<Rightarrow> c\<lparr>sp_list := sp_list c @ plugin_entry join ln\<rparr>
        | CONFIG_XFER \<Rightarrow> c\<lparr>xp_list := xp_list c @ plugin_entry join ln\<rparr>
        | _ \<Rightarrow> c))"

definition config_lines :: "(string \<Rightarrow> string list \<Rightarrow> string) \<Rightarrow> cfg_line list \<Rightarrow> config \<Rightarrow> config" where
  "config_lines join ls c = foldl (\<lambda>c ln. config_step join ln c) c ls"

text \<open>\<^verbatim>\<open>parse_config\<close>: whether there were errors, and the two lists.\<close>

definition parse_config :: "(string \<Rightarrow> string list \<Rightarrow> string) \<Rightarrow> cfg_line list option \<Rightarrow>
    string list \<Rightarrow> string list \<Rightarrow> bool \<times> string list \<times> string list" where
  "parse_config join file sp xp = (case file of
     None \<Rightarrow> (True, sp, xp)
   | Some ls \<Rightarrow>
       let c = config_lines join ls (config_start sp xp)
       in (errors c \<or> \<not> saw_storage c \<or> \<not> saw_xfer c, sp_list c, xp_list c))"

section \<open>Routing table\<close>

definition routing_info_header :: string where "routing_info_header = ''Destination''"

text \<open>The loop state: whether the header was seen, errors, the list. \<^verbatim>\<open>state == CONFIG_ROUTING\<close> and
  \<^verbatim>\<open>saw_routing\<close> are set together.\<close>

definition routing_step :: "cfg_line \<Rightarrow> bool \<times> bool \<times> string list \<Rightarrow> bool \<times> bool \<times> string list" where
  "routing_step ln st = (case st of (saw, err, l) \<Rightarrow>
     if same_word (fst ln) routing_info_header then (if saw then (saw, True, l) else (True, err, l))
     else if saw then (saw, err, l @ fst ln # snd ln)
     else (saw, err, l))"

definition parse_config_routing_info :: "cfg_line list option \<Rightarrow> string list \<Rightarrow> bool \<times> string list" where
  "parse_config_routing_info file routing_list = (case file of
     None \<Rightarrow> (True, routing_list)
   | Some ls \<Rightarrow> (case foldl (\<lambda>st ln. routing_step ln st) (False, False, routing_list) ls of
       (saw, err, l) \<Rightarrow> (err \<or> \<not> saw, l)))"

section \<open>Sniffer section\<close>

text \<open>Only the first line of the section is read. Its two \<^verbatim>\<open>pop_front\<close>s need two words: with one the
  second takes from an empty vector (\<open>None\<close>).\<close>

fun sniffer_lines :: "cfg_line list \<Rightarrow> bool \<Rightarrow> bool \<Rightarrow> string list \<Rightarrow> (bool \<times> bool \<times> string list) option" where
  "sniffer_lines [] saw err l = Some (saw, err, l)"
| "sniffer_lines (ln # ls) saw err l =
     (if same_word (fst ln) ''[sniffer]'' then
        (if saw then sniffer_lines ls saw True l else sniffer_lines ls True err l)
      else if saw then (case snd ln of [] \<Rightarrow> None | w # _ \<Rightarrow> Some (saw, err, l @ [fst ln, w]))
      else sniffer_lines ls saw err l)"

definition parse_config_sniffer_info :: "cfg_line list option \<Rightarrow> string list \<Rightarrow>
    (bool \<times> string list) option" where
  "parse_config_sniffer_info file socks = (case file of
     None \<Rightarrow> Some (True, socks)
   | Some ls \<Rightarrow> do {
       (saw, err, l) \<leftarrow> sniffer_lines ls False False socks;
       Some (err \<or> \<not> saw, l)
     })"

section \<open>Lemmas\<close>

text \<open>A word that opens no section.\<close>

definition plain_word :: "string \<Rightarrow> bool" where
  "plain_word w \<longleftrightarrow> \<not> same_word w ''[storage]'' \<and> \<not> same_word w ''[transfer]'' \<and>
     \<not> same_word w ''[routing]'' \<and> \<not> same_word w ''[sniffer]''"

lemma config_lines_append: "config_lines join (xs @ ys) c = config_lines join ys (config_lines join xs c)"
  by (simp add: config_lines_def)

lemma config_lines_Cons: "config_lines join (x # xs) c = config_lines join xs (config_step join x c)"
  by (simp add: config_lines_def)

lemma config_lines_Nil: "config_lines join [] c = c"
  by (simp add: config_lines_def)

lemma storage_lines:
  "(\<forall>ln \<in> set ls. plain_word (fst ln)) \<Longrightarrow> cfg_state c = CONFIG_STORAGE \<Longrightarrow>
   config_lines join ls c = c\<lparr>sp_list := sp_list c @ concat (map (plugin_entry join) ls)\<rparr>"
  by (induction ls arbitrary: c) (simp_all add: config_lines_Nil config_lines_Cons config_step_def plain_word_def)

lemma xfer_lines:
  "(\<forall>ln \<in> set ls. plain_word (fst ln)) \<Longrightarrow> cfg_state c = CONFIG_XFER \<Longrightarrow>
   config_lines join ls c = c\<lparr>xp_list := xp_list c @ concat (map (plugin_entry join) ls)\<rparr>"
  by (induction ls arbitrary: c) (simp_all add: config_lines_Nil config_lines_Cons config_step_def plain_word_def)

lemma other_lines:
  "(\<forall>ln \<in> set ls. plain_word (fst ln)) \<Longrightarrow> cfg_state c \<in> {CONFIG_ROUTING, CONFIG_SNIFFER} \<Longrightarrow>
   config_lines join ls c = c"
  by (induction ls arbitrary: c) (auto simp: config_lines_Nil config_lines_Cons config_step_def plain_word_def)

lemma plugin_entry_length: "length (plugin_entry join ln) = 3"
  by (simp add: plugin_entry_def split: prod.split list.split)

lemma section_words:
  "\<not> same_word ''[transfer]'' ''[storage]''" "\<not> same_word ''[routing]'' ''[storage]''"
  "\<not> same_word ''[sniffer]'' ''[storage]''" "\<not> same_word ''[routing]'' ''[transfer]''"
  "\<not> same_word ''[sniffer]'' ''[transfer]''" "\<not> same_word ''[sniffer]'' ''[routing]''"
  "same_word w w"
  by (simp_all add: same_word_def tolower_def)

definition entries_whole :: "config \<Rightarrow> bool" where
  "entries_whole c \<longleftrightarrow> 3 dvd length (sp_list c) \<and> 3 dvd length (xp_list c)"

lemma config_step_whole: "entries_whole c \<Longrightarrow> entries_whole (config_step join ln c)"
  by (auto simp: config_step_def entries_whole_def plugin_entry_length split: config_state.split)

lemma config_lines_whole: "entries_whole c \<Longrightarrow> entries_whole (config_lines join ls c)"
  by (induction ls arbitrary: c) (simp_all add: config_lines_Nil config_lines_Cons config_step_whole)

section \<open>Properties\<close>



text \<open>Whatever the file holds, the plugin lists grow by whole entries of three strings, so the three
  \<^verbatim>\<open>pop_back\<close>s of \<^verbatim>\<open>instantiate_plugins\<close> never take from an empty list in the middle of an entry.\<close>

theorem parse_config_whole_entries:
  "case parse_config join cfg [] [] of (err, sp, xp) \<Rightarrow> 3 dvd length sp \<and> 3 dvd length xp"
proof (cases cfg)
  case (Some ls)
  have "entries_whole (config_lines join ls (config_start [] []))"
    by (rule config_lines_whole) (simp add: entries_whole_def config_start_def)
  with Some show ?thesis by (simp add: parse_config_def entries_whole_def Let_def)
qed (simp add: parse_config_def)

text \<open>A \<^verbatim>\<open>[sniffer]\<close> section whose first line has one word only makes the daemon take a word from an
  empty vector; with two words exactly these two are delivered, and every later line of the file is
  ignored.\<close>

theorem sniffer_section_first_line:
  assumes "\<forall>ln \<in> set before. \<not> same_word (fst ln) ''[sniffer]''" and "\<not> same_word kind ''[sniffer]''"
  shows "parse_config_sniffer_info (Some (before @ (''[sniffer]'', a) # (kind, args) # after)) [] =
    (case args of [] \<Rightarrow> None | sock # _ \<Rightarrow> Some (False, [kind, sock]))"
proof -
  have "sniffer_lines (before @ ls) False False [] = sniffer_lines ls False False []" for ls
    using assms(1) by (induction before) simp_all
  then show ?thesis
    using assms(2) by (simp add: parse_config_sniffer_info_def section_words split: list.split)
qed

lemma sniffer_section_first_line_witness:
  "parse_config_sniffer_info (Some ([(''x'', [])] @ (''[sniffer]'', []) # (''tcp'', []) # [])) [] = None"
  by (subst sniffer_section_first_line) (simp_all add: same_word_def tolower_def)

end
