(* ===== verification/GtcdBase.thy ===== *)
theory GtcdBase
  imports CmdLine
begin

text \<open>
  What the parts of the daemon (\<^verbatim>\<open>src/gtcd\<close>) share: how a call ends, and the transfer hints and chunk ids
  of \<^verbatim>\<open>gtcd.T\<close>. A \<^verbatim>\<open>str\<close> of the RPC library is a list of characters; \<^verbatim>\<open>cstr()\<close> of it is read up to its first
  NUL.
\<close>

section \<open>How a call ends\<close>

text \<open>A call returns (\<open>Go\<close>), stops the process with \<^verbatim>\<open>fatal\<close> or \<^verbatim>\<open>exit\<close>, or leaves the defined behaviour
  of C++ (\<open>Undefined\<close>: a null or dangling pointer, an index outside a vector).\<close>

datatype 'a outcome = Go 'a | Fatal | Exit int | Undefined

primrec andthen :: "'a outcome \<Rightarrow> ('a \<Rightarrow> 'b outcome) \<Rightarrow> 'b outcome" where
  "andthen (Go a) f = f a"
| "andthen Fatal f = Fatal"
| "andthen (Exit n) f = Exit n"
| "andthen Undefined f = Undefined"

definition defined :: "'a option \<Rightarrow> 'a outcome" where
  "defined x = (case x of None \<Rightarrow> Undefined | Some a \<Rightarrow> Go a)"

lemma defined_simps [simp]: "defined None = Undefined" "defined (Some a) = Go a"
  by (simp_all add: defined_def)

lemma andthen_Go: "andthen m f = Go b \<longleftrightarrow> (\<exists>a. m = Go a \<and> f a = Go b)"
  by (cases m) simp_all

lemma andthen_assoc: "andthen (andthen m f) g = andthen m (\<lambda>a. andthen (f a) g)"
  by (cases m) simp_all

lemma andthen_cong: "m = m' \<Longrightarrow> (\<And>a. m' = Go a \<Longrightarrow> f a = g a) \<Longrightarrow> andthen m f = andthen m' g"
  by (cases m') simp_all

text \<open>A loop over a list whose body may stop.\<close>

primrec for_each :: "('a \<Rightarrow> 's \<Rightarrow> 's outcome) \<Rightarrow> 'a list \<Rightarrow> 's \<Rightarrow> 's outcome" where
  "for_each f [] s = Go s"
| "for_each f (x # xs) s = andthen (f x s) (for_each f xs)"

lemma for_each_invariant:
  assumes "\<And>x s s'. x \<in> set xs \<Longrightarrow> P s \<Longrightarrow> f x s = Go s' \<Longrightarrow> P s'"
  shows "P s \<Longrightarrow> for_each f xs s = Go s' \<Longrightarrow> P s'"
  using assms by (induction xs arbitrary: s) (auto simp: andthen_Go)

section \<open>Hints\<close>

record xfer_hint =
  hostname :: string
  port :: u32

definition cstr :: "string \<Rightarrow> string" where
  "cstr s = takeWhile (\<lambda>c. c \<noteq> CHR 0x00) s"

text \<open>\<^verbatim>\<open>strstr\<close>: what is before the first occurrence, and the rest from there on.\<close>

fun strstr :: "string \<Rightarrow> string \<Rightarrow> (string \<times> string) option" where
  "strstr s pat =
     (if take (length pat) s = pat then Some ([], s)
      else (case s of
          [] \<Rightarrow> None
        | c # cs \<Rightarrow> (case strstr cs pat of None \<Rightarrow> None | Some (a, b) \<Rightarrow> Some (c # a, b))))"

declare strstr.simps [simp del]

text \<open>\<^verbatim>\<open>parse_hint\<close>: -1 is \<open>Some None\<close>; \<open>None\<close> is a port that \<^verbatim>\<open>atoi\<close> is not defined on. The third branch of
  the port (return -1) is dead: \<^verbatim>\<open>old_ptr != ptr\<close> holds when \<^verbatim>\<open>ptr\<close> is null.\<close>

definition parse_hint :: "string \<Rightarrow> string \<Rightarrow> xfer_hint option option" where
  "parse_hint hint protocol = (case strstr (cstr hint) ''://'' of
       None \<Rightarrow> Some None
     | Some (cur_protocol, p) \<Rightarrow>
         if cur_protocol \<noteq> protocol then Some None
         else if protocol = ''gtc'' then
           (case strstr (drop 3 p) '':'' of
              None \<Rightarrow> Some None
            | Some (host, q) \<Rightarrow> do {
                n \<leftarrow> (case strstr (drop 1 q) '':'' of
                    Some (ds, _) \<Rightarrow> atoi ds
                  | None \<Rightarrow> atoi (drop 1 q));
                Some (Some \<lparr>hostname = host, port = word_of_int n\<rparr>)
              })
         else Some None)"

definition make_hint :: "xfer_hint \<Rightarrow> string \<Rightarrow> string option" where
  "make_hint ip protocol =
     (if protocol = ''gtc'' then Some (''gtc://'' @ hostname ip @ '':'' @ show_nat (unat (port ip)))
      else None)"

section \<open>Chunk ids\<close>

text \<open>A descriptor of the RPC protocol: the id of a chunk and its length.\<close>

record dot_descriptor =
  desc_id :: bytes
  desc_length :: nat

text \<open>The digest of the bytes of the chunk; SHA-1 of the OpenSSL library is the parameter.\<close>

definition compute_chunk_id :: "(bytes \<Rightarrow> bytes) \<Rightarrow> bytes \<Rightarrow> bytes" where
  "compute_chunk_id sha1 data = sha1 data"

section \<open>Reading a hint back\<close>

lemma strstr_here: "take (length pat) s = pat \<Longrightarrow> strstr s pat = Some ([], s)"
  by (subst strstr.simps) simp

lemma strstr_char: "c \<notin> set a \<Longrightarrow> strstr (a @ c # b) [c] = Some (a, c # b)"
  by (induction a) (subst strstr.simps, auto)+

lemma strstr_char_none: "c \<notin> set a \<Longrightarrow> strstr a [c] = None"
  by (induction a) (subst strstr.simps, auto)+

lemma strstr_parts: "strstr s pat = Some (a, b) \<Longrightarrow> s = a @ b \<and> take (length pat) b = pat"
proof (induction s arbitrary: a)
  case Nil
  then show ?case by (subst (asm) strstr.simps) (simp split: if_splits)
next
  case (Cons c cs)
  then show ?case by (subst (asm) strstr.simps) (auto split: if_splits option.splits)
qed

lemma cstr_id: "CHR 0x00 \<notin> set s \<Longrightarrow> cstr s = s"
  unfolding cstr_def by (rule takeWhile_eq_all_conv [THEN iffD2]) blast

lemma strstr_gtc: "strstr (''gtc://'' @ s) ''://'' = Some (''gtc'', ''://'' @ s)"
  by (subst strstr.simps, simp add: take_Cons')+

lemma digits_not: "\<not> is_digit c \<Longrightarrow> c \<notin> set (show_nat n)"
  using show_nat_digits by blast

lemma atoi_show_nat: "int n < 2 ^ 31 \<Longrightarrow> atoi (show_nat n) = Some (int n)"
  using atoi_show_int [of "int n"] by (simp add: show_int_def int_range_def)

text \<open>The string of a hint, as \<^verbatim>\<open>make_hint\<close> and \<^verbatim>\<open>get_default_hint\<close> print it.\<close>

definition hint_string :: "string \<Rightarrow> nat \<Rightarrow> string" where
  "hint_string host n = ''gtc://'' @ host @ '':'' @ show_nat n"

definition host_name :: "string \<Rightarrow> bool" where
  "host_name h \<longleftrightarrow> CHR '':'' \<notin> set h \<and> CHR 0x00 \<notin> set h"

lemma parse_hint_string:
  assumes "host_name h" and n: "int n < 2 ^ 31"
  shows "parse_hint (hint_string h n) ''gtc'' = Some (Some \<lparr>hostname = h, port = of_nat n\<rparr>)"
proof -
  have digits: "CHR 0x00 \<notin> set (show_nat n)" "CHR '':'' \<notin> set (show_nat n)"
    by (rule digits_not, simp add: is_digit_def)+
  have h: "CHR '':'' \<notin> set h" "CHR 0x00 \<notin> set h" using assms(1) by (simp_all add: host_name_def)
  have "cstr (hint_string h n) = hint_string h n"
    using h(2) digits(1) by (intro cstr_id) (simp add: hint_string_def)
  moreover have "strstr (hint_string h n) ''://'' = Some (''gtc'', ''://'' @ h @ '':'' @ show_nat n)"
    unfolding hint_string_def by (rule strstr_gtc)
  moreover have "strstr (h @ '':'' @ show_nat n) '':'' = Some (h, '':'' @ show_nat n)"
    using strstr_char [OF h(1)] by simp
  moreover have "strstr (show_nat n) '':'' = None" using digits(2) by (rule strstr_char_none)
  ultimately show ?thesis using atoi_show_nat [OF n] by (simp add: parse_hint_def)
qed

section \<open>Properties\<close>

text \<open>A hint that the daemon prints is read back by the daemon: host and port of \<^verbatim>\<open>make_hint\<close>'s string
  are the ones \<^verbatim>\<open>parse_hint\<close> delivers, for every host name without a colon and every port below
  2^31.\<close>

theorem hint_roundtrip:
  assumes "host_name (hostname ip)" and "uint (port ip) < 2 ^ 31"
  shows "map_option (\<lambda>s. parse_hint s ''gtc'') (make_hint ip ''gtc'') = Some (Some (Some ip))"
proof -
  have "int (unat (port ip)) < 2 ^ 31" using assms(2) by (simp only: uint_nat)
  from parse_hint_string [OF assms(1) this] show ?thesis
    by (simp add: make_hint_def hint_string_def del: append_Cons)
qed

lemma hint_roundtrip_witness:
  "map_option (\<lambda>s. parse_hint s ''gtc'') (make_hint \<lparr>hostname = ''10.0.0.7'', port = 12000\<rparr> ''gtc'') =
     Some (Some (Some \<lparr>hostname = ''10.0.0.7'', port = 12000\<rparr>))"
  by (rule hint_roundtrip) (simp_all add: host_name_def)

end
