(* ===== verification/GtcdMain.thy ===== *)
theory GtcdMain
  imports GtcdConfig GtcdBase
begin

text \<open>
  \<^verbatim>\<open>src/gtcd/main.cc\<close>: the options of the daemon, the socket it listens on, and the graph of plugins it
  builds from the configuration file. The plugins themselves are not in the repository: a constructor
  table (\<^verbatim>\<open>sPluginTab\<close>, \<^verbatim>\<open>xPluginTab\<close>) gives for a name whether the constructor returns when it gets a next
  plugin, and \<open>conf_ok\<close> what \<^verbatim>\<open>configure\<close> answers. An object is its number in the order of construction.
\<close>

section \<open>Options\<close>

record daemon_options =
  gtcd_listen_sock :: string
  configfile :: "string option"
  b_no_dot_proxy :: bool
  first_octet_mask :: string

definition default_options :: daemon_options where
  "default_options = \<lparr>gtcd_listen_sock = ''/tmp/gtcd.sock'', configfile = None, b_no_dot_proxy = False,
     first_octet_mask = ''2''\<rparr>"

text \<open>One round of the \<^verbatim>\<open>getopt\<close> loop; \<^verbatim>\<open>getopt\<close> delivers the letter and the argument.\<close>

definition option_step :: "char \<times> string \<Rightarrow> daemon_options \<Rightarrow> daemon_options outcome" where
  "option_step oa d = (case oa of (ch, optarg) \<Rightarrow>
     if ch = CHR ''d'' then Go d
     else if ch = CHR ''h'' then Exit 0
     else if ch = CHR ''n'' then Go (d\<lparr>b_no_dot_proxy := True\<rparr>)
     else if ch = CHR ''p'' then Go (d\<lparr>gtcd_listen_sock := optarg\<rparr>)
     else if ch = CHR ''f'' then Go (d\<lparr>configfile := Some optarg\<rparr>)
     else if ch = CHR ''m'' then Go (d\<lparr>first_octet_mask := optarg\<rparr>)
     else Exit (- 1))"

section \<open>Listening socket\<close>

text \<open>The system calls that \<^verbatim>\<open>gtcd_start\<close> makes, in order, for what they answer: the first \<^verbatim>\<open>unixsocket\<close>
  (\<open>Some\<close> descriptor, or \<open>None\<close> and whether \<^verbatim>\<open>errno\<close> is \<^verbatim>\<open>EADDRINUSE\<close>), \<^verbatim>\<open>unixsocket_connect\<close>, the second
  \<^verbatim>\<open>unixsocket\<close>.\<close>

datatype syscall = Umask0 | UnixSocket string | UnixSocketConnect string | Unlink string | CloseFd int
  | CloseOnExec int | MakeAsync int | RestoreUmask | Listen int | SelRead int

definition socket_ready :: "int option \<Rightarrow> syscall list \<Rightarrow> syscall list \<times> int option" where
  "socket_ready fd calls = (case fd of
     None \<Rightarrow> (calls, None)
   | Some n \<Rightarrow> (calls @ [CloseOnExec n, MakeAsync n, RestoreUmask, Listen n, SelRead n], Some n))"

definition gtcd_start :: "string \<Rightarrow> int option \<Rightarrow> bool \<Rightarrow> int option \<Rightarrow> int option \<Rightarrow>
    syscall list \<times> int option" where
  "gtcd_start sock fd1 in_use xfd fd2 =
     (if fd1 = None \<and> in_use then
        (case xfd of
           None \<Rightarrow> socket_ready fd2 [Umask0, UnixSocket sock, UnixSocketConnect sock, Unlink sock, UnixSocket sock]
         | Some x \<Rightarrow> socket_ready None [Umask0, UnixSocket sock, UnixSocketConnect sock, CloseFd x])
      else socket_ready fd1 [Umask0, UnixSocket sock])"

text \<open>\<^verbatim>\<open>accept_connection\<close>: the descriptor it was given and the one \<^verbatim>\<open>accept\<close> returned; the descriptor a
  \<^verbatim>\<open>gtcd\<close> is made for.\<close>

definition accept_connection :: "int \<Rightarrow> int \<Rightarrow> int option" where
  "accept_connection fd cs = (if fd < 0 then None else Some cs)"

section \<open>Plugin graph\<close>

type_synonym constructor_table = "string \<Rightarrow> (nat option \<Rightarrow> bool) option"

record splugin =
  sp_name :: string
  sp_next :: "nat option"

record xplugin =
  xp_name :: string
  xp_next :: "nat option"
  xp_more :: "nat option list"

text \<open>The locals of \<^verbatim>\<open>instantiate_plugins\<close> that the two loops change.\<close>

record sloop =
  s_objs :: "splugin list"
  sPluginPtr :: "string \<Rightarrow> nat option option"
  s_cur :: "nat option"

record xloop =
  x_objs :: "xplugin list"
  xPluginPtr :: "string \<Rightarrow> nat option option"
  x_cur :: "nat option"
  xpvec :: "nat option list"

text \<open>Dereferencing the slot of a name that is not in the table is undefined; a slot that holds null stops
  the daemon.\<close>

definition chained :: "(string \<Rightarrow> nat option option) \<Rightarrow> string \<Rightarrow> nat option outcome" where
  "chained tab name = (case tab name of
     None \<Rightarrow> Undefined
   | Some None \<Rightarrow> Fatal
   | Some (Some p) \<Rightarrow> Go (Some p))"

definition no_chain :: "string \<Rightarrow> bool" where
  "no_chain plg_list \<longleftrightarrow> plg_list = [] \<or> plg_list = ''null''"

definition storage_entry :: "constructor_table \<Rightarrow> (string \<Rightarrow> string \<Rightarrow> bool) \<Rightarrow> string \<Rightarrow> string \<Rightarrow> string \<Rightarrow>
    sloop \<Rightarrow> sloop outcome" where
  "storage_entry sPluginTab conf_ok plugin plg_list conf s = (case sPluginTab plugin of
     None \<Rightarrow> Exit (- 1)
   | Some new \<Rightarrow>
       andthen (if no_chain plg_list then Go None else chained (sPluginPtr s) plg_list) (\<lambda>sp.
       if \<not> new sp then Fatal
       else
         let obj = length (s_objs s);
             s' = s\<lparr>s_objs := s_objs s @ [\<lparr>sp_name = plugin, sp_next = sp\<rparr>],
                    sPluginPtr := (sPluginPtr s)(plugin \<mapsto> Some obj), s_cur := Some obj\<rparr>
         in if conf_ok plugin conf then Go s' else Fatal))"

text \<open>The loop takes its entries from the back of the list: the list is reversed here.\<close>

fun storage_chain :: "constructor_table \<Rightarrow> (string \<Rightarrow> string \<Rightarrow> bool) \<Rightarrow> string list \<Rightarrow> sloop \<Rightarrow>
    sloop outcome" where
  "storage_chain tab conf_ok [] s = Go s"
| "storage_chain tab conf_ok (conf # plg_list # plugin # rest) s =
     andthen (storage_entry tab conf_ok plugin plg_list conf s) (storage_chain tab conf_ok rest)"
| "storage_chain tab conf_ok _ s = Undefined"

text \<open>\<^verbatim>\<open>strtok(name, ",")\<close> until null: the non-empty words between commas.\<close>

fun comma_words :: "string \<Rightarrow> string \<Rightarrow> string list" where
  "comma_words w [] = (if w = [] then [] else [w])"
| "comma_words w (c # cs) =
     (if c = CHR '','' then (if w = [] then [] else [w]) @ comma_words [] cs else comma_words (w @ [c]) cs)"

definition chain_word :: "string \<Rightarrow> xloop \<Rightarrow> xloop outcome" where
  "chain_word xfer_plg s = andthen (chained (xPluginPtr s) xfer_plg) (\<lambda>xp.
     Go (s\<lparr>x_cur := xp, xpvec := xpvec s @ [xp]\<rparr>))"

definition xfer_chained :: "string \<Rightarrow> xloop \<Rightarrow> xloop outcome" where
  "xfer_chained plg_list s =
     (if no_chain plg_list then Go (s\<lparr>x_cur := None\<rparr>)
      else if CHR '','' \<in> set plg_list then for_each chain_word (comma_words [] plg_list) s
      else andthen (chained (xPluginPtr s) plg_list) (\<lambda>xp. Go (s\<lparr>x_cur := xp\<rparr>)))"

definition xfer_entry :: "constructor_table \<Rightarrow> (string \<Rightarrow> string \<Rightarrow> bool) \<Rightarrow> string \<Rightarrow> string \<Rightarrow> string \<Rightarrow>
    xloop \<Rightarrow> xloop outcome" where
  "xfer_entry xPluginTab conf_ok plugin plg_list conf s0 = (case xPluginTab plugin of
     None \<Rightarrow> Exit (- 1)
   | Some new \<Rightarrow> andthen (xfer_chained plg_list s0) (\<lambda>s.
       let xp = (if xpvec s \<noteq> [] then None else x_cur s);
           obj = length (x_objs s);
           s' = s\<lparr>x_objs := x_objs s @ [\<lparr>xp_name = plugin, xp_next = xp, xp_more = xpvec s\<rparr>],
                  xPluginPtr := (xPluginPtr s)(plugin \<mapsto> Some obj), x_cur := Some obj\<rparr>
       in if \<not> new xp then Fatal else if conf_ok plugin conf then Go s' else Fatal))"

fun xfer_chain :: "constructor_table \<Rightarrow> (string \<Rightarrow> string \<Rightarrow> bool) \<Rightarrow> string list \<Rightarrow> xloop \<Rightarrow>
    xloop outcome" where
  "xfer_chain tab conf_ok [] s = Go s"
| "xfer_chain tab conf_ok (conf # plg_list # plugin # rest) s =
     andthen (xfer_entry tab conf_ok plugin plg_list conf s) (xfer_chain tab conf_ok rest)"
| "xfer_chain tab conf_ok _ s = Undefined"

definition sloop_start :: sloop where
  "sloop_start = \<lparr>s_objs = [], sPluginPtr = Map.empty, s_cur = None\<rparr>"

definition xloop_start :: xloop where
  "xloop_start = \<lparr>x_objs = [], xPluginPtr = Map.empty, x_cur = None, xpvec = []\<rparr>"

text \<open>\<^verbatim>\<open>instantiate_plugins\<close>: the storage objects with the one of \<^verbatim>\<open>set_storagePlugin\<close>, and the transfer
  objects with the one of \<^verbatim>\<open>set_xferPlugin\<close>.\<close>

definition instantiate_plugins :: "(string \<Rightarrow> string list \<Rightarrow> string) \<Rightarrow> constructor_table \<Rightarrow>
    constructor_table \<Rightarrow> (string \<Rightarrow> string \<Rightarrow> bool) \<Rightarrow> cfg_line list option \<Rightarrow>
    ((splugin list \<times> nat option) \<times> (xplugin list \<times> nat option)) outcome" where
  "instantiate_plugins join sPluginTab xPluginTab conf_ok cfg = (case parse_config join cfg [] [] of
     (err, sps, xps) \<Rightarrow>
       if err then Fatal
       else
         andthen (storage_chain sPluginTab conf_ok (rev sps) sloop_start) (\<lambda>s.
         andthen (xfer_chain xPluginTab conf_ok (rev xps) xloop_start) (\<lambda>x.
         Go ((s_objs s, s_cur s), (x_objs x, x_cur x)))))"

text \<open>\<^verbatim>\<open>main\<close> up to the event loop: the socket it asks for, \<^verbatim>\<open>no_dot_proxy\<close> and \<^verbatim>\<open>first_octet_mask\<close> of the
  daemon object, and the plugins. \<open>read_file\<close> gives the lines of a configuration file.\<close>

definition gtcd_main_run :: "(string \<Rightarrow> string list \<Rightarrow> string) \<Rightarrow> constructor_table \<Rightarrow> constructor_table \<Rightarrow>
    (string \<Rightarrow> string \<Rightarrow> bool) \<Rightarrow> (string \<Rightarrow> cfg_line list) \<Rightarrow> (string \<Rightarrow> int option) \<Rightarrow> (char \<times> string) list \<Rightarrow>
    (daemon_options \<times> (splugin list \<times> nat option) \<times> (xplugin list \<times> nat option)) outcome" where
  "gtcd_main_run join stab xtab conf_ok read_file listening opts =
     andthen (for_each option_step opts default_options) (\<lambda>d.
     case listening (gtcd_listen_sock d) of
       None \<Rightarrow> Fatal
     | Some fd \<Rightarrow>
         andthen (instantiate_plugins join stab xtab conf_ok (map_option read_file (configfile d))) (\<lambda>p.
         Go (d, p)))"

section \<open>Chains\<close>

text \<open>The lines of a section in which every plugin is chained to the one on the next line: name and
  parameters of the plugins, the last one chained to \<^verbatim>\<open>null\<close>.\<close>

fun chain_lines :: "(string \<times> string list) list \<Rightarrow> cfg_line list" where
  "chain_lines [] = []"
| "chain_lines [(p, ws)] = [(p, ''null'' # ws)]"
| "chain_lines ((p, ws) # (q, vs) # es) = (p, q # ws) # chain_lines ((q, vs) # es)"

text \<open>The objects of a chain, in the order of construction: from the last line of the section upwards, each
  with the one before it as its next plugin.\<close>

definition before_it :: "nat \<Rightarrow> nat option" where
  "before_it k = (if k = 0 then None else Some (k - 1))"

definition storage_objs :: "string list \<Rightarrow> splugin list" where
  "storage_objs ns = map (\<lambda>k. \<lparr>sp_name = rev ns ! k, sp_next = before_it k\<rparr>) [0..<length ns]"

definition xfer_objs :: "string list \<Rightarrow> xplugin list" where
  "xfer_objs ns = map (\<lambda>k. \<lparr>xp_name = rev ns ! k, xp_next = before_it k, xp_more = []\<rparr>) [0..<length ns]"

definition chainable :: "constructor_table \<Rightarrow> (string \<Rightarrow> string \<Rightarrow> bool) \<Rightarrow> (string list \<Rightarrow> string) \<Rightarrow>
    (string \<times> string list) list \<Rightarrow> bool" where
  "chainable tab conf_ok params es \<longleftrightarrow>
     (\<forall>e \<in> set es. (\<exists>new. tab (fst e) = Some new \<and> (\<forall>n. new n)) \<and> conf_ok (fst e) (params (snd e)) \<and>
        \<not> no_chain (fst e) \<and> CHR '','' \<notin> set (fst e))"

lemma dvd_three: "3 dvd Suc (Suc (Suc n)) \<longleftrightarrow> 3 dvd n" "\<not> 3 dvd Suc (Suc 0)" "\<not> 3 dvd Suc 0"
  by presburger+

lemma storage_chain_append:
  "3 dvd length xs \<Longrightarrow> storage_chain tab ok (xs @ ys) s =
     andthen (storage_chain tab ok xs s) (storage_chain tab ok ys)"
  by (induction tab ok xs s rule: storage_chain.induct) (auto simp: andthen_assoc dvd_three intro!: andthen_cong)

lemma xfer_chain_append:
  "3 dvd length xs \<Longrightarrow> xfer_chain tab ok (xs @ ys) s =
     andthen (xfer_chain tab ok xs s) (xfer_chain tab ok ys)"
  by (induction tab ok xs s rule: xfer_chain.induct) (auto simp: andthen_assoc dvd_three intro!: andthen_cong)

lemma entries_dvd: "3 dvd length (concat (map (plugin_entry join) ls))"
  by (induction ls) (simp_all add: plugin_entry_length)

lemma objs_Cons:
  "storage_objs (n # ns) = storage_objs ns @ [\<lparr>sp_name = n, sp_next = before_it (length ns)\<rparr>]"
  "xfer_objs (n # ns) = xfer_objs ns @ [\<lparr>xp_name = n, xp_next = before_it (length ns), xp_more = []\<rparr>]"
  by (simp_all add: storage_objs_def xfer_objs_def nth_append)

lemma objs_length [simp]: "length (storage_objs ns) = length ns" "length (xfer_objs ns) = length ns"
  by (simp_all add: storage_objs_def xfer_objs_def)

definition entry_params :: "(string \<Rightarrow> string list \<Rightarrow> string) \<Rightarrow> string list \<Rightarrow> string" where
  "entry_params join ws = join '' '' ws"

lemma chainable_tl: "chainable tab ok ps (e # es) \<Longrightarrow> chainable tab ok ps es"
  by (simp add: chainable_def)

lemma plugin_entry_words: "plugin_entry join (p, q # ws) = [p, q, entry_params join ws]"
  by (simp add: plugin_entry_def entry_params_def)

lemma no_chain_null: "no_chain ''null''"
  by (simp add: no_chain_def)

lemma storage_entry_linked:
  assumes "tab p = Some new" and "\<forall>n. new n" and "ok p c" and "no_chain q \<or> sPluginPtr s q = Some (Some k)"
  shows "storage_entry tab ok p q c s =
    Go (s\<lparr>s_objs := s_objs s @ [\<lparr>sp_name = p, sp_next = (if no_chain q then None else Some k)\<rparr>],
      sPluginPtr := (sPluginPtr s)(p \<mapsto> Some (length (s_objs s))), s_cur := Some (length (s_objs s))\<rparr>)"
  using assms by (cases "no_chain q") (simp_all add: storage_entry_def chained_def Let_def)

lemma xfer_entry_linked:
  assumes "tab p = Some new" and "\<forall>n. new n" and "ok p c" and "xpvec s = []"
    and "no_chain q \<or> (CHR '','' \<notin> set q \<and> xPluginPtr s q = Some (Some k))"
  shows "xfer_entry tab ok p q c s =
    Go (s\<lparr>x_cur := Some (length (x_objs s)),
      x_objs := x_objs s @ [\<lparr>xp_name = p, xp_next = (if no_chain q then None else Some k), xp_more = []\<rparr>],
      xPluginPtr := (xPluginPtr s)(p \<mapsto> Some (length (x_objs s)))\<rparr>)"
  using assms by (cases "no_chain q") (simp_all add: xfer_entry_def xfer_chained_def chained_def Let_def)

lemma storage_lines_chain:
  assumes "chainable tab ok (entry_params join) es" and "es \<noteq> []"
  shows "\<exists>s. storage_chain tab ok (rev (concat (map (plugin_entry join) (chain_lines es)))) sloop_start = Go s \<and>
    s_objs s = storage_objs (map fst es) \<and> s_cur s = before_it (length es) \<and>
    sPluginPtr s (fst (hd es)) = Some (s_cur s)"
  using assms
proof (induction es rule: chain_lines.induct)
  case (2 p ws)
  then obtain new where p: "tab p = Some new" "\<forall>n. new n" "ok p (entry_params join ws)"
    by (auto simp: chainable_def)
  have "storage_objs [p] = [\<lparr>sp_name = p, sp_next = None\<rparr>]" by (simp add: storage_objs_def before_it_def)
  with storage_entry_linked [where q = "''null''" and s = sloop_start and tab = tab and ok = ok, OF p]
  show ?case
    by (simp add: plugin_entry_words no_chain_null sloop_start_def before_it_def)
next
  case (3 p ws q vs es)
  from "3.IH" [OF chainable_tl [OF "3.prems"(1)]] obtain s where s: "storage_chain tab ok
      (rev (concat (map (plugin_entry join) (chain_lines ((q, vs) # es))))) sloop_start = Go s"
    and objs: "s_objs s = storage_objs (map fst ((q, vs) # es))" and cur: "s_cur s = before_it (Suc (length es))"
    and ptr: "sPluginPtr s q = Some (s_cur s)"
    by auto
  have "3 dvd length (rev (concat (map (plugin_entry join) (chain_lines ((q, vs) # es)))))"
    using entries_dvd [of join] by (simp only: length_rev)
  from storage_chain_append [OF this] s have
    "storage_chain tab ok (rev (concat (map (plugin_entry join) (chain_lines ((p, ws) # (q, vs) # es))))) sloop_start =
      storage_chain tab ok (rev (plugin_entry join (p, q # ws))) s" by simp
  moreover obtain new where p: "tab p = Some new" "\<forall>n. new n" "ok p (entry_params join ws)" "\<not> no_chain q"
    using "3.prems" by (auto simp: chainable_def)
  moreover have "sPluginPtr s q = Some (Some (length es))" using ptr cur by (simp add: before_it_def)
  ultimately show ?case using objs storage_entry_linked [where tab = tab and ok = ok and q = q and s = s and k = "length es", OF p(1-3)]
    by (simp add: plugin_entry_words before_it_def objs_Cons)
qed simp

lemma xfer_lines_chain:
  assumes "chainable tab ok (entry_params join) es" and "es \<noteq> []"
  shows "\<exists>s. xfer_chain tab ok (rev (concat (map (plugin_entry join) (chain_lines es)))) xloop_start = Go s \<and>
    x_objs s = xfer_objs (map fst es) \<and> x_cur s = before_it (length es) \<and>
    xPluginPtr s (fst (hd es)) = Some (x_cur s) \<and> xpvec s = []"
  using assms
proof (induction es rule: chain_lines.induct)
  case (2 p ws)
  then obtain new where p: "tab p = Some new" "\<forall>n. new n" "ok p (entry_params join ws)"
    by (auto simp: chainable_def)
  have "xfer_objs [p] = [\<lparr>xp_name = p, xp_next = None, xp_more = []\<rparr>]"
    by (simp add: xfer_objs_def before_it_def)
  with xfer_entry_linked [where q = "''null''" and s = xloop_start and tab = tab and ok = ok, OF p]
  show ?case
    by (simp add: plugin_entry_words no_chain_null xloop_start_def before_it_def)
next
  case (3 p ws q vs es)
  from "3.IH" [OF chainable_tl [OF "3.prems"(1)]] obtain s where s: "xfer_chain tab ok
      (rev (concat (map (plugin_entry join) (chain_lines ((q, vs) # es))))) xloop_start = Go s"
    and objs: "x_objs s = xfer_objs (map fst ((q, vs) # es))" and cur: "x_cur s = before_it (Suc (length es))"
    and ptr: "xPluginPtr s q = Some (x_cur s)" and vec: "xpvec s = []"
    by auto
  have "3 dvd length (rev (concat (map (plugin_entry join) (chain_lines ((q, vs) # es)))))"
    using entries_dvd [of join] by (simp only: length_rev)
  from xfer_chain_append [OF this] s have
    "xfer_chain tab ok (rev (concat (map (plugin_entry join) (chain_lines ((p, ws) # (q, vs) # es))))) xloop_start =
      xfer_chain tab ok (rev (plugin_entry join (p, q # ws))) s" by simp
  moreover obtain new where p: "tab p = Some new" "\<forall>n. new n" "ok p (entry_params join ws)"
      "\<not> no_chain q" "CHR '','' \<notin> set q"
    using "3.prems" by (auto simp: chainable_def)
  moreover have "xPluginPtr s q = Some (Some (length es))" using ptr cur by (simp add: before_it_def)
  ultimately show ?case using objs vec xfer_entry_linked [where tab = tab and ok = ok and q = q and s = s and k = "length es", OF p(1-3) vec]
    by (simp add: plugin_entry_words before_it_def objs_Cons)
qed simp

section \<open>Properties\<close>

text \<open>C34. The plugin graph is the one the configuration file describes. When every line of the storage and
  of the transfer section chains its plugin to the plugin of the next line and the last one to \<^verbatim>\<open>null\<close>,
  the constructors accept what they get and \<^verbatim>\<open>configure\<close> succeeds, then one object per line exists, each
  with the object of the next line as its next plugin, and the plugins of the first lines are handed to
  the daemon.\<close>

theorem plugin_graph_of_config:
  assumes "chainable stab ok (entry_params join) ss" and "ss \<noteq> []"
    and "chainable xtab ok (entry_params join) xs" and "xs \<noteq> []"
    and "\<forall>ln \<in> set (chain_lines ss) \<union> set (chain_lines xs). plain_word (fst ln)"
  shows "instantiate_plugins join stab xtab ok
      (Some ((''[storage]'', []) # chain_lines ss @ (''[transfer]'', []) # chain_lines xs)) =
    Go ((storage_objs (map fst ss), before_it (length ss)), (xfer_objs (map fst xs), before_it (length xs)))"
proof -
  let ?f = "(''[storage]'', []) # chain_lines ss @ (''[transfer]'', []) # chain_lines xs"
  have parse: "parse_config join (Some ?f) [] [] =
    (False, concat (map (plugin_entry join) (chain_lines ss)), concat (map (plugin_entry join) (chain_lines xs)))"
    using assms(5)
    by (simp add: parse_config_def config_lines_append config_lines_Cons storage_lines xfer_lines
        config_step_def section_words config_start_def Let_def)
  from storage_lines_chain [OF assms(1,2)] obtain s where
    "storage_chain stab ok (rev (concat (map (plugin_entry join) (chain_lines ss)))) sloop_start = Go s"
    "s_objs s = storage_objs (map fst ss)" "s_cur s = before_it (length ss)" by blast
  moreover from xfer_lines_chain [OF assms(3,4)] obtain x where
    "xfer_chain xtab ok (rev (concat (map (plugin_entry join) (chain_lines xs)))) xloop_start = Go x"
    "x_objs x = xfer_objs (map fst xs)" "x_cur x = before_it (length xs)" by blast
  ultimately show ?thesis unfolding instantiate_plugins_def parse by simp
qed

definition any_plugin :: constructor_table where
  "any_plugin n = Some (\<lambda>next. True)"

lemma plugin_graph_of_config_witness:
  "instantiate_plugins (\<lambda>sep ws. concat ws) any_plugin any_plugin (\<lambda>n c. True)
      (Some ((''[storage]'', []) # chain_lines [(''memory'', []), (''disk'', [''/var/dot''])] @
        (''[transfer]'', []) # chain_lines [(''gtc'', [''12000''])])) =
    Go (([\<lparr>sp_name = ''disk'', sp_next = None\<rparr>, \<lparr>sp_name = ''memory'', sp_next = Some 0\<rparr>], Some 1),
        ([\<lparr>xp_name = ''gtc'', xp_next = None, xp_more = []\<rparr>], Some 0))"
proof -
  have ok: "chainable any_plugin (\<lambda>n c. True) f es"
    if "\<forall>e \<in> set es. \<not> no_chain (fst e) \<and> CHR '','' \<notin> set (fst e)" for f es
    using that by (simp add: chainable_def any_plugin_def)
  have "chainable any_plugin (\<lambda>n c. True) f [(''memory'', []), (''disk'', [''/var/dot''])]"
    and "chainable any_plugin (\<lambda>n c. True) f [(''gtc'', [''12000''])]" for f
    by (rule ok; simp add: no_chain_def)+
  moreover have "plain_word (fst ln)"
    if "ln \<in> set (chain_lines [(''memory'', []), (''disk'', [''/var/dot''])]) \<union> set (chain_lines [(''gtc'', [''12000''])])"
    for ln using that by (auto simp: plain_word_def same_word_def tolower_def)
  ultimately show ?thesis
    by (subst plugin_graph_of_config) (simp_all add: storage_objs_def xfer_objs_def before_it_def upt_rec)
qed

lemma for_each_chain_word:
  "for_each chain_word ws s = Go s' \<Longrightarrow> \<exists>ps. xpvec s' = xpvec s @ ps \<and> length ps = length ws"
  by (induction ws arbitrary: s) (force simp: chain_word_def andthen_Go)+

text \<open>The vector of a comma-separated chain is never emptied: the plugin of every later line is
  constructed with no next plugin and is given the old vector, whatever single plugin its own line
  names.\<close>

theorem list_chain_leaks:
  assumes "xfer_entry tab ok p plist conf s0 = Go s1" and "\<not> no_chain plist"
    and "CHR '','' \<in> set plist" and "comma_words [] plist \<noteq> []"
    and "xfer_entry tab ok q p conf' s1 = Go s2" and "\<not> no_chain p" and "CHR '','' \<notin> set p"
  shows "x_objs s2 = x_objs s1 @ [\<lparr>xp_name = q, xp_next = None, xp_more = xpvec s1\<rparr>] \<and>
    xpvec s2 = xpvec s1 \<and> xpvec s1 \<noteq> []"
proof -
  from assms(1-3) obtain s where words: "for_each chain_word (comma_words [] plist) s0 = Go s"
    and s1: "xpvec s1 = xpvec s"
    by (auto simp: xfer_entry_def xfer_chained_def andthen_Go Let_def split: option.splits if_splits)
  from for_each_chain_word [OF words] obtain ps where
    "xpvec s = xpvec s0 @ ps" "length ps = length (comma_words [] plist)" by blast
  with assms(4) s1 have vec: "xpvec s1 \<noteq> []" by auto
  with assms(5-7) show ?thesis
    by (auto simp: xfer_entry_def xfer_chained_def andthen_Go Let_def split: option.splits if_splits)
qed

definition two_plugins :: xloop where
  "two_plugins = xloop_start\<lparr>x_objs := xfer_objs [''b'', ''a''],
     xPluginPtr := [''a'' \<mapsto> Some 0, ''b'' \<mapsto> Some 1], x_cur := Some 1\<rparr>"

lemma list_chain_leaks_witness:
  "\<exists>s1 s2. xfer_entry any_plugin (\<lambda>n c. True) ''m'' ''a,b'' [] two_plugins = Go s1 \<and>
     xfer_entry any_plugin (\<lambda>n c. True) ''t'' ''m'' [] s1 = Go s2 \<and>
     x_objs s2 = x_objs s1 @ [\<lparr>xp_name = ''t'', xp_next = None, xp_more = [Some 0, Some 1]\<rparr>]"
proof -
  obtain s1 where s1: "xfer_entry any_plugin (\<lambda>n c. True) ''m'' ''a,b'' [] two_plugins = Go s1"
    "xpvec s1 = [Some 0, Some 1]" "xPluginPtr s1 ''m'' = Some (Some 2)"
    by (simp add: xfer_entry_def any_plugin_def xfer_chained_def no_chain_def chain_word_def chained_def
        two_plugins_def xloop_start_def xfer_objs_def Let_def)
  obtain s2 where s2: "xfer_entry any_plugin (\<lambda>n c. True) ''t'' ''m'' [] s1 = Go s2"
    using s1(3) by (simp add: xfer_entry_def any_plugin_def xfer_chained_def no_chain_def chained_def Let_def)
  have "x_objs s2 = x_objs s1 @ [\<lparr>xp_name = ''t'', xp_next = None, xp_more = xpvec s1\<rparr>]"
    by (rule list_chain_leaks [OF s1(1) _ _ _ s2, THEN conjunct1]) (simp_all add: no_chain_def)
  with s1 s2 show ?thesis by auto
qed

text \<open>A chain to a plugin that no line below has made dereferences a null pointer; the message for it is
  never printed.\<close>

lemma unknown_chain_undefined:
  "tab p \<noteq> None \<Longrightarrow> \<not> no_chain q \<Longrightarrow> sPluginPtr s q = None \<Longrightarrow> storage_entry tab ok p q c s = Undefined"
  by (auto simp: storage_entry_def chained_def)

text \<open>A socket file is unlinked only when nobody answers on it, and the daemon stops when somebody does.\<close>

lemma live_socket_kept:
  "gtcd_start sock fd1 in_use xfd fd2 = (calls, r) \<Longrightarrow>
   (Unlink sock \<in> set calls \<longleftrightarrow> fd1 = None \<and> in_use \<and> xfd = None) \<and>
   (fd1 = None \<and> in_use \<and> xfd \<noteq> None \<longrightarrow> r = None)"
  by (auto simp: gtcd_start_def socket_ready_def split: if_splits option.splits)

end
