(* ===== verification/SnifferPlugin.thy ===== *)
theory SnifferPlugin
  imports GtcdMain
begin

text \<open>
  \<^verbatim>\<open>src/gtcd/sniffer/snifferPlugin_tcp.cc\<close>: the part of the daemon that takes the chunks of the sniffer and
  puts them into the storage plugin. The storage plugin is not in the repository: \<^verbatim>\<open>put_ichunk\<close> calls are
  the log \<open>ichunks\<close>. Whether the socket of a name could be opened (\<open>gtcd_start\<close> with what the system
  answers) is the parameter \<open>listening\<close>.
\<close>

section \<open>State\<close>

record sniffer_plugin =
  sniffer_listen_sock :: "string option"
  listening_on :: "string list"
  ichunks :: "(dot_descriptor \<times> bytes \<times> bool) list"

definition sniffer_plugin_new :: sniffer_plugin where
  "sniffer_plugin_new = \<lparr>sniffer_listen_sock = None, listening_on = [], ichunks = []\<rparr>"

section \<open>Set-up\<close>

definition snifferd_start :: "string \<Rightarrow> int option \<Rightarrow> bool \<Rightarrow> int option \<Rightarrow> int option \<Rightarrow>
    syscall list \<times> int option" where
  "snifferd_start sock fd1 in_use xfd fd2 =
     (if fd1 = None \<and> in_use then
        (case xfd of
           None \<Rightarrow> socket_ready fd2 [Umask0, UnixSocket sock, UnixSocketConnect sock, Unlink sock, UnixSocket sock]
         | Some x \<Rightarrow> socket_ready None [Umask0, UnixSocket sock, UnixSocketConnect sock, CloseFd x])
      else socket_ready fd1 [Umask0, UnixSocket sock])"

text \<open>The loop takes words from the front of the list; after \<open>tcp\<close> a second one.\<close>

fun setup_loop :: "(string \<Rightarrow> bool) \<Rightarrow> string list \<Rightarrow> sniffer_plugin \<Rightarrow> sniffer_plugin outcome" where
  "setup_loop listening [] p = Go p"
| "setup_loop listening (key # ws) p =
     (if same_word key ''tcp'' then
        (case ws of
           [] \<Rightarrow> Undefined
         | sock # ws' \<Rightarrow>
             if listening sock
             then setup_loop listening ws' (p\<lparr>sniffer_listen_sock := Some sock, listening_on := listening_on p @ [sock]\<rparr>)
             else Fatal)
      else setup_loop listening ws p)"

definition setup_sniffer_info :: "(string \<Rightarrow> bool) \<Rightarrow> cfg_line list option \<Rightarrow> sniffer_plugin \<Rightarrow>
    sniffer_plugin outcome" where
  "setup_sniffer_info listening cfg p = andthen (defined (parse_config_sniffer_info cfg [])) (\<lambda>(err, ws).
     if err then Fatal else setup_loop listening ws p)"

definition snifferPlugin_tcp :: "(string \<Rightarrow> bool) \<Rightarrow> cfg_line list option \<Rightarrow> sniffer_plugin outcome" where
  "snifferPlugin_tcp listening cfg = setup_sniffer_info listening cfg sniffer_plugin_new"

text \<open>\<^verbatim>\<open>snifferPlugin_tcp::accept_connection\<close>: the test is on the listening descriptor, as in \<^verbatim>\<open>main.cc\<close>.\<close>

definition sniffer_accept :: "int \<Rightarrow> int \<Rightarrow> int option" where
  "sniffer_accept fd cs = (if fd < 0 then None else Some cs)"

section \<open>Requests\<close>

record put_chunk_arg =
  arg_data :: bytes
  arg_last :: bool

datatype sniffer_reply = PutOk | PutError string | Reject

definition put_chunk :: "(bytes \<Rightarrow> bytes) \<Rightarrow> put_chunk_arg \<Rightarrow> sniffer_plugin \<Rightarrow>
    sniffer_reply \<times> sniffer_plugin" where
  "put_chunk sha1 a p =
     (if arg_last a then
        let d = \<lparr>desc_id = compute_chunk_id sha1 (arg_data a), desc_length = length (arg_data a)\<rparr>
        in (PutOk, p\<lparr>ichunks := ichunks p @ [(d, arg_data a, True)]\<rparr>)
      else (PutError ''Can only handle full chunks for now'', p))"

definition SNIFFER_TCP_PROC_PUT_CHUNK :: nat where "SNIFFER_TCP_PROC_PUT_CHUNK = 5"

text \<open>\<^verbatim>\<open>dispatch\<close>: no request is a closed connection.\<close>

definition sniffer_dispatch :: "(bytes \<Rightarrow> bytes) \<Rightarrow> (nat \<times> put_chunk_arg) option \<Rightarrow> sniffer_plugin \<Rightarrow>
    sniffer_reply option \<times> sniffer_plugin" where
  "sniffer_dispatch sha1 sbp p = (case sbp of
     None \<Rightarrow> (None, p)
   | Some (proc, a) \<Rightarrow>
       if proc = SNIFFER_TCP_PROC_PUT_CHUNK then (case put_chunk sha1 a p of (r, p') \<Rightarrow> (Some r, p'))
       else (Some Reject, p))"

text \<open>The calls of the sniffer, one after the other: \<^verbatim>\<open>send_chunk_to_sniffer_plugin\<close> sets \<^verbatim>\<open>end\<close>.\<close>

definition take_chunks :: "(bytes \<Rightarrow> bytes) \<Rightarrow> bytes list \<Rightarrow> sniffer_plugin \<Rightarrow> sniffer_plugin" where
  "take_chunks sha1 ds p =
     foldl (\<lambda>p d. snd (sniffer_dispatch sha1 (Some (SNIFFER_TCP_PROC_PUT_CHUNK, \<lparr>arg_data = d, arg_last = True\<rparr>)) p)) p ds"

section \<open>Lemmas\<close>

definition stored_as :: "(bytes \<Rightarrow> bytes) \<Rightarrow> bytes \<Rightarrow> dot_descriptor \<times> bytes \<times> bool" where
  "stored_as sha1 d = (\<lparr>desc_id = sha1 d, desc_length = length d\<rparr>, d, True)"

lemma take_chunks_stored: "take_chunks sha1 ds p = p\<lparr>ichunks := ichunks p @ map (stored_as sha1) ds\<rparr>"
  by (induction ds arbitrary: p)
    (simp_all add: take_chunks_def sniffer_dispatch_def put_chunk_def stored_as_def compute_chunk_id_def Let_def)

lemma put_chunk_honest:
  "\<forall>(d, data, b) \<in> set (ichunks p). desc_id d = sha1 data \<and> desc_length d = length data \<Longrightarrow>
   \<forall>(d, data, b) \<in> set (ichunks (snd (sniffer_dispatch sha1 r p))). desc_id d = sha1 data \<and> desc_length d = length data"
  by (auto simp: sniffer_dispatch_def put_chunk_def compute_chunk_id_def Let_def split: option.split)

section \<open>Properties\<close>

text \<open>A configuration whose sniffer section names a socket for \<^verbatim>\<open>tcp\<close> makes the plugin listen on that
  socket and no other, whatever other sections stand before it and whatever follows; a first line for
  another kind makes it run with no socket at all, without a message.\<close>

theorem sniffer_socket_of_config:
  assumes "\<forall>ln \<in> set before. \<not> same_word (fst ln) ''[sniffer]''" and "\<not> same_word kind ''[sniffer]''"
    and "listening sock" and "\<not> same_word sock ''tcp''"
  shows "snifferPlugin_tcp listening (Some (before @ (''[sniffer]'', a) # (kind, sock # rest) # after)) =
    Go (if same_word kind ''tcp''
        then sniffer_plugin_new\<lparr>sniffer_listen_sock := Some sock, listening_on := [sock]\<rparr>
        else sniffer_plugin_new)"
proof -
  have "sniffer_lines (before @ ls) False False [] = sniffer_lines ls False False []" for ls
    using assms(1) by (induction before) simp_all
  then have "parse_config_sniffer_info (Some (before @ (''[sniffer]'', a) # (kind, sock # rest) # after)) [] =
      Some (False, [kind, sock])"
    using assms(2) by (simp add: parse_config_sniffer_info_def section_words)
  with assms(3,4) show ?thesis
    by (simp add: snifferPlugin_tcp_def setup_sniffer_info_def sniffer_plugin_new_def)
qed

lemma sniffer_socket_of_config_witness:
  "snifferPlugin_tcp (\<lambda>s. True) (Some ([(''[storage]'', [])] @ (''[sniffer]'', []) # (''tcp'', ''/tmp/s'' # []) # [])) =
    Go (sniffer_plugin_new\<lparr>sniffer_listen_sock := Some ''/tmp/s'', listening_on := [''/tmp/s'']\<rparr>)"
  by (subst sniffer_socket_of_config) (simp_all add: same_word_def tolower_def)

end
