(* ===== verification/XferBitmap.thy ===== *)
theory XferBitmap
  imports GtcdBase
begin

text \<open>
  The bitmaps of \<^verbatim>\<open>src/gtcd/xfer/xferPlugin_gtc.cc\<close>: packing a bit vector into bytes and back, and the
  pages in which a bitmap is asked for and sent. \<^verbatim>\<open>SEND_SIZE\<close> depends on a constant of the RPC library and
  is the parameter \<open>send_size\<close>. Offsets and counts have 32 bits on the wire.
\<close>

section \<open>Packing\<close>

definition nbytes_of :: "nat \<Rightarrow> nat" where
  "nbytes_of desc_count = desc_count div 8 + (if desc_count mod 8 \<noteq> 0 then 1 else 0)"

definition set_bit_of :: "bytes \<Rightarrow> nat \<Rightarrow> bytes" where
  "set_bit_of tmp i = tmp[i div 8 := tmp ! (i div 8) OR push_bit (i mod 8) 1]"

definition convert_from_bitvec :: "bool list \<Rightarrow> bytes" where
  "convert_from_bitvec bmp =
     foldl (\<lambda>tmp i. if bmp ! i then set_bit_of tmp i else tmp)
       (replicate (nbytes_of (length bmp)) 0) [0..<length bmp]"

text \<open>\<^verbatim>\<open>convert_to_bitvec\<close>: \<open>None\<close> when a bit lies behind the last byte.\<close>

definition convert_to_bitvec :: "bytes \<Rightarrow> nat \<Rightarrow> bool list option" where
  "convert_to_bitvec bmp dc =
     (if dc = 0 \<or> (dc - 1) div 8 < length bmp
      then Some (map (\<lambda>i. bmp ! (i div 8) AND push_bit (i mod 8) 1 \<noteq> 0) [0..<dc]) else None)"

section \<open>Pages, sending side\<close>

record bitmap_ok =
  bm_offset :: u32
  bm_count :: u32
  bm_num_descs :: u32
  bm_bmp :: bytes
  bm_end :: bool

text \<open>\<^verbatim>\<open>remote_get_bitmap_cb\<close>: the reply, or \<open>None\<close> when the bytes lie outside the packed bitmap. \<open>s\<close> is the
  error of the storage plugin.\<close>

definition remote_get_bitmap_cb :: "nat \<Rightarrow> u32 \<Rightarrow> string option \<Rightarrow> bool list \<Rightarrow>
    (string + bitmap_ok) option" where
  "remote_get_bitmap_cb send_size offset s bmp = (case s of
     Some e \<Rightarrow> Some (Inl e)
   | None \<Rightarrow>
       let bmp_ret = convert_from_bitvec bmp
       in if 0 < offset \<and> length bmp_ret \<le> unat offset
          then Some (Inl ''Too large offset for GET_BITMAP'')
          else
            let maxbits = of_nat (send_size div 2 * 8) :: u32;
                totalbits = of_nat (length bmp) - offset :: u32;
                sendbits = (if maxbits < totalbits then maxbits else totalbits);
                byte_offset = unat offset div 8;
                sendbytes = nbytes_of (unat sendbits)
            in if byte_offset + sendbytes \<le> length bmp_ret
               then Some (Inr \<lparr>bm_offset = offset, bm_count = sendbits, bm_num_descs = of_nat (length bmp),
                 bm_bmp = slice bmp_ret byte_offset sendbytes, bm_end = \<not> maxbits < totalbits\<rparr>)
               else None)"

definition remote_get_bitmap :: "(bytes \<Rightarrow> string + bool list) \<Rightarrow> nat \<Rightarrow> bytes \<Rightarrow> u32 \<Rightarrow>
    (string + bitmap_ok) option" where
  "remote_get_bitmap sp_get_bitmap send_size oid offset =
     (if length oid < 1 then Some (Inl ''Received invalid OID for GET_BITMAP'')
      else (case sp_get_bitmap oid of
          Inl e \<Rightarrow> remote_get_bitmap_cb send_size offset (Some e) []
        | Inr bmp \<Rightarrow> remote_get_bitmap_cb send_size offset None bmp))"

section \<open>Pages, asking side\<close>

definition zsetsize :: "nat \<Rightarrow> bool list \<Rightarrow> bool list" where
  "zsetsize n bs = take n bs @ replicate (n - length bs) False"

primrec copy_bits :: "bool list \<Rightarrow> u32 \<Rightarrow> bool list \<Rightarrow> bool list option" where
  "copy_bits [] i bmp = Some bmp"
| "copy_bits (b # bs) i bmp =
     (if unat i < length bmp then copy_bits bs (i + 1) (bmp[unat i := b]) else None)"

text \<open>What \<^verbatim>\<open>get_bitmap_internal_cb\<close> does with the bits of a good reply.\<close>

definition take_bitmap_page :: "bitmap_ok \<Rightarrow> bool list \<Rightarrow> bool list option" where
  "take_bitmap_page r bmp = do {
     bmp_tmp \<leftarrow> convert_to_bitvec (bm_bmp r) (unat (bm_count r));
     copy_bits bmp_tmp (bm_offset r) (zsetsize (unat (bm_count r + bm_offset r)) bmp)
   }"

section \<open>Lemmas\<close>

lemma nbytes_of_alt: "nbytes_of n = (n + 7) div 8"
  unfolding nbytes_of_def by presburger

lemma nth_div_less: "i < n \<Longrightarrow> i div 8 < nbytes_of n"
  using div_le_mono [of "i + 8" "n + 7" 8] by (simp add: nbytes_of_alt)

lemma bit_set_bit_of:
  assumes "i div 8 < length tmp" and "j < length tmp" and "k < 8"
  shows "bit (set_bit_of tmp i ! j) k \<longleftrightarrow> bit (tmp ! j) k \<or> i = 8 * j + k"
proof -
  have "i = 8 * j + k \<longleftrightarrow> i div 8 = j \<and> k = i mod 8" using assms(3) by auto
  with assms show ?thesis
    by (cases "i div 8 = j") (simp_all add: set_bit_of_def bit_simps)
qed

lemma length_set_bit_of [simp]: "length (set_bit_of tmp i) = length tmp"
  by (simp add: set_bit_of_def)

lemma pack_loop:
  assumes "n \<le> length bmp"
  shows "length (foldl (\<lambda>tmp i. if bmp ! i then set_bit_of tmp i else tmp)
        (replicate (nbytes_of (length bmp)) 0) [0..<n]) = nbytes_of (length bmp) \<and>
    (\<forall>j < nbytes_of (length bmp). \<forall>k < 8.
      bit (foldl (\<lambda>tmp i. if bmp ! i then set_bit_of tmp i else tmp)
        (replicate (nbytes_of (length bmp)) 0) [0..<n] ! j) k \<longleftrightarrow> 8 * j + k < n \<and> bmp ! (8 * j + k))"
  using assms
proof (induction n)
  case (Suc n)
  have "n div 8 < nbytes_of (length bmp)" using Suc.prems by (intro nth_div_less) simp
  with Suc show ?case by (auto simp: bit_set_bit_of less_Suc_eq)
qed simp

lemma length_convert_from: "length (convert_from_bitvec bmp) = nbytes_of (length bmp)"
  unfolding convert_from_bitvec_def using pack_loop [of "length bmp" bmp] by simp

lemma bit_convert_from:
  "j < nbytes_of (length bmp) \<Longrightarrow> k < 8 \<Longrightarrow>
   bit (convert_from_bitvec bmp ! j) k \<longleftrightarrow> 8 * j + k < length bmp \<and> bmp ! (8 * j + k)"
  unfolding convert_from_bitvec_def using pack_loop [of "length bmp" bmp] by simp

lemma and_push_bit: "k < 8 \<Longrightarrow> (w :: byte) AND push_bit k 1 \<noteq> 0 \<longleftrightarrow> bit w k"
  by (simp add: push_bit_eq_mult and_exp_eq_0_iff_not_bit)

lemma map_nth_eq: "(\<And>i. i < n \<Longrightarrow> f i = xs ! i) \<Longrightarrow> length xs = n \<Longrightarrow> map f [0..<n] = xs"
  by (rule nth_equalityI) simp_all

lemma convert_to_slice:
  assumes "8 * a + n \<le> length bmp" and "a + m \<le> nbytes_of (length bmp)" and "nbytes_of n \<le> m"
  shows "convert_to_bitvec (slice (convert_from_bitvec bmp) a m) n = Some (slice bmp (8 * a) n)"
proof -
  have len: "length (slice (convert_from_bitvec bmp) a m) = m"
    using assms(2) by (simp add: length_slice length_convert_from)
  have bits: "slice (convert_from_bitvec bmp) a m ! (i div 8) AND push_bit (i mod 8) 1 \<noteq> 0 \<longleftrightarrow>
      slice bmp (8 * a) n ! i" if i: "i < n" for i
  proof -
    have im: "i div 8 < m" using nth_div_less [OF i] assms(3) by linarith
    then have "slice (convert_from_bitvec bmp) a m ! (i div 8) = convert_from_bitvec bmp ! (a + i div 8)"
      using assms(2) by (intro nth_slice) (simp_all add: length_convert_from)
    moreover have "a + i div 8 < nbytes_of (length bmp)" using im assms(2) by linarith
    moreover have "8 * (a + i div 8) + i mod 8 = 8 * a + i" by presburger
    ultimately show ?thesis
      using i assms(1) bit_convert_from [of "a + i div 8" bmp "i mod 8"]
      by (simp only: and_push_bit) (simp add: and_push_bit nth_slice)
  qed
  have "n = 0 \<or> (n - 1) div 8 < m" using nth_div_less [of "n - 1" n] assms(3) by linarith
  moreover have "map (\<lambda>i. slice (convert_from_bitvec bmp) a m ! (i div 8) AND push_bit (i mod 8) 1 \<noteq> 0) [0..<n] =
      slice bmp (8 * a) n"
    by (rule map_nth_eq [OF bits]) (assumption, rule length_slice [OF assms(1)])
  ultimately show ?thesis unfolding convert_to_bitvec_def len by simp
qed

text \<open>The bits of a page land where they belong.\<close>

lemma copy_bits_page:
  "unat i + length bs < 2 ^ 32 \<Longrightarrow> unat i + length bs \<le> length bmp \<Longrightarrow>
   copy_bits bs i bmp = Some (take (unat i) bmp @ bs @ drop (unat i + length bs) bmp)"
proof (induction bs arbitrary: i bmp)
  case (Cons b bs)
  have i: "unat (i + 1) = unat i + 1"
    using Cons.prems(1) unat_add_of_nat32 [of i 1] by simp
  have "copy_bits bs (i + 1) (bmp[unat i := b]) = Some (take (unat i + 1) (bmp[unat i := b]) @ bs @
      drop (unat i + 1 + length bs) (bmp[unat i := b]))"
    using Cons.prems by (subst Cons.IH) (simp_all add: i)
  moreover have "take (unat i + 1) (bmp[unat i := b]) = take (unat i) bmp @ [b]"
    using Cons.prems(2) by (subst take_Suc_conv_app_nth [of "unat i", simplified Suc_eq_plus1]) simp_all
  ultimately show ?case using Cons.prems(2) by simp
qed simp

text \<open>What the server sends for an offset of which it has the bits.\<close>

lemma remote_page:
  assumes n: "length bmp < 2 ^ 32" and o8: "unat offset mod 8 = 0" and o1: "unat offset < nbytes_of (length bmp) \<or> offset = 0"
    and ss: "send_size div 2 * 8 < 2 ^ 32" "0 < send_size div 2"
  shows "\<exists>r. remote_get_bitmap_cb send_size offset None bmp = Some (Inr r) \<and> bm_offset r = offset \<and>
    unat (bm_count r) = min (send_size div 2 * 8) (length bmp - unat offset) \<and>
    bm_end r = (length bmp - unat offset \<le> send_size div 2 * 8) \<and>
    convert_to_bitvec (bm_bmp r) (unat (bm_count r)) = Some (slice bmp (unat offset) (unat (bm_count r)))"
proof -
  let ?max = "of_nat (send_size div 2 * 8) :: u32"
  let ?total = "of_nat (length bmp) - offset :: u32"
  let ?send = "if ?max < ?total then ?max else ?total"
  have le: "unat offset \<le> length bmp" using o1 by (auto simp: nbytes_of_alt)
  have max: "unat ?max = send_size div 2 * 8"
    using ss(1) by (simp only: unat_of_nat) (simp add: mod_less)
  have len: "unat (of_nat (length bmp) :: u32) = length bmp"
    using n by (simp only: unat_of_nat) (simp add: mod_less)
  have "offset \<le> of_nat (length bmp)" using le len by (simp only: word_le_nat_alt)
  then have total: "unat ?total = length bmp - unat offset" using len by (simp only: unat_sub)
  have send: "unat ?send = min (send_size div 2 * 8) (length bmp - unat offset)"
    using max total by (auto simp only: word_less_nat_alt split: if_splits)
  obtain a where a: "unat offset = 8 * a" using o8 by (metis mult_div_mod_eq add_0_right)
  have "8 * a + unat ?send \<le> length bmp" using send le a by linarith
  moreover from this have bound: "a + nbytes_of (unat ?send) \<le> nbytes_of (length bmp)"
    using div_le_mono [of "8 * a + unat ?send + 7" "length bmp + 7" 8]
    by (simp only: nbytes_of_alt add.assoc div_mult_self4 [symmetric])
  ultimately have conv: "convert_to_bitvec (slice (convert_from_bitvec bmp) a (nbytes_of (unat ?send))) (unat ?send) =
      Some (slice bmp (8 * a) (unat ?send))"
    by (rule convert_to_slice) simp
  have ok: "\<not> (0 < offset \<and> length (convert_from_bitvec bmp) \<le> unat offset)"
    using o1 by (auto simp: length_convert_from)
  have "remote_get_bitmap_cb send_size offset None bmp = Some (Inr \<lparr>bm_offset = offset, bm_count = ?send,
      bm_num_descs = of_nat (length bmp), bm_bmp = slice (convert_from_bitvec bmp) a (nbytes_of (unat ?send)),
      bm_end = \<not> ?max < ?total\<rparr>)"
    using ok bound a unfolding remote_get_bitmap_cb_def Let_def by (simp add: length_convert_from)
  moreover have "(\<not> ?max < ?total) = (length bmp - unat offset \<le> send_size div 2 * 8)"
    using max total by (simp only: word_less_nat_alt not_less)
  ultimately show ?thesis using send conv a by simp
qed

end
