(* ===== verification/XferServer.thy ===== *)
theory XferServer
  imports GtcdConfig XferBitmap FlowIds
begin

text \<open>
  \<^verbatim>\<open>src/gtcd/xfer/xferPlugin_gtc.cc\<close>, the side that answers: routes, the daemon's own address, and the
  replies to requests for chunks and descriptors. Not in the repository and parameters here: what the
  storage plugin answers, the addresses of the host (four bytes each), the lines of the routing table
  that the script \<^verbatim>\<open>olsr_route.sh\<close> writes. \<^verbatim>\<open>USE_LOOPBACK_ROUTING\<close> is not defined.
\<close>

section \<open>Routes\<close>

type_synonym routes = "string \<Rightarrow> string option"

definition NUM_TABLE_COLUMNS :: nat where "NUM_TABLE_COLUMNS = 8"

text \<open>A failing \<^verbatim>\<open>system\<close> is \<open>None\<close>.\<close>

definition get_routing_table :: "cfg_line list option \<Rightarrow> cfg_line list outcome" where
  "get_routing_table generated = (case generated of None \<Rightarrow> Fatal | Some ls \<Rightarrow> Go ls)"

text \<open>The loop of \<^verbatim>\<open>setup_routing_info\<close>; a last row of one word has no second one.\<close>

fun route_rows :: "bool \<Rightarrow> string list \<Rightarrow> routes \<Rightarrow> routes option" where
  "route_rows no_dot_proxy [] tab = Some tab"
| "route_rows no_dot_proxy [key] tab = None"
| "route_rows no_dot_proxy (key # val # ws) tab =
     route_rows no_dot_proxy (drop (NUM_TABLE_COLUMNS - 2) ws)
       (tab(key \<mapsto> (if no_dot_proxy \<or> val = ''*'' \<or> val = ''0.0.0.0'' then key else val)))"

definition setup_routing_info :: "bool \<Rightarrow> cfg_line list option \<Rightarrow> routes \<Rightarrow> routes outcome" where
  "setup_routing_info no_dot_proxy generated tab =
     andthen (get_routing_table generated) (\<lambda>ls.
     case parse_config_routing_info (Some ls) [] of
       (err, route_list) \<Rightarrow> if err then Fatal else defined (route_rows no_dot_proxy route_list tab))"

text \<open>\<^verbatim>\<open>get_next_hop\<close>: no hop is the status -1.\<close>

definition get_next_hop :: "bool \<Rightarrow> cfg_line list option \<Rightarrow> string \<Rightarrow> routes \<Rightarrow>
    (xfer_hint option \<times> routes) outcome" where
  "get_next_hop no_dot_proxy generated hint tab =
     andthen (defined (parse_hint hint ''gtc'')) (\<lambda>res. case res of
       None \<Rightarrow> Go (None, tab)
     | Some h \<Rightarrow> andthen (setup_routing_info no_dot_proxy generated tab) (\<lambda>tab'.
         case tab' (hostname h) of
           None \<Rightarrow> Fatal
         | Some next_hop \<Rightarrow> Go (Some (h\<lparr>hostname := next_hop\<rparr>), tab')))"

section \<open>The daemon's own address\<close>

fun default_hostname_loop :: "string \<Rightarrow> bytes list \<Rightarrow> string option" where
  "default_hostname_loop octet [] = None"
| "default_hostname_loop octet (a # av) =
     (if a \<noteq> [127, 0, 0, 1] \<and> a \<noteq> [0, 0, 0, 0] \<and> takeWhile (\<lambda>c. c \<noteq> CHR ''.'') (inet_ntoa a) = octet
      then Some (inet_ntoa a) else default_hostname_loop octet av)"

definition get_default_hostname :: "bytes list option \<Rightarrow> string \<Rightarrow> string option" where
  "get_default_hostname myipaddrs octet = (case myipaddrs of
     None \<Rightarrow> None
   | Some av \<Rightarrow> default_hostname_loop octet av)"

text \<open>Printing a null host name is left to the library: \<open>None\<close>.\<close>

definition get_default_hint :: "bytes list option \<Rightarrow> string \<Rightarrow> int \<Rightarrow> string option" where
  "get_default_hint myipaddrs octet listen_port =
     map_option (\<lambda>h. hint_string h (unat (word_of_int listen_port :: u32))) (get_default_hostname myipaddrs octet)"

text \<open>\<^verbatim>\<open>gtc_in_hint_list\<close>: every round reads the first hint. Comparing a null host name is left to the
  library: \<open>Undefined\<close>.\<close>

definition own_hint :: "string option \<Rightarrow> int \<Rightarrow> string \<Rightarrow> bool outcome" where
  "own_hint host listen_port hint = andthen (defined (parse_hint hint ''gtc'')) (\<lambda>res. case res of
     None \<Rightarrow> Go False
   | Some h \<Rightarrow> (case host of
       None \<Rightarrow> Undefined
     | Some own \<Rightarrow> Go (own = hostname h \<and> port h = word_of_int listen_port)))"

primrec hint_list_loop :: "string option \<Rightarrow> int \<Rightarrow> string list \<Rightarrow> nat \<Rightarrow> bool outcome" where
  "hint_list_loop host listen_port hints 0 = Go False"
| "hint_list_loop host listen_port hints (Suc n) =
     andthen (own_hint host listen_port (hints ! 0)) (\<lambda>found.
       if found then Go True else hint_list_loop host listen_port hints n)"

definition gtc_in_hint_list :: "bytes list option \<Rightarrow> string \<Rightarrow> int \<Rightarrow> string list \<Rightarrow> bool outcome" where
  "gtc_in_hint_list myipaddrs octet listen_port hints =
     hint_list_loop (get_default_hostname myipaddrs octet) listen_port hints (length hints)"

section \<open>Chunks\<close>

record chunk_arg =
  ca_desc :: dot_descriptor
  ca_offset :: u32
  ca_hints :: "string list"

record chunk_ok =
  ch_offset :: u32
  ch_id :: bytes
  ch_data :: bytes
  ch_end :: bool

record serve_stats =
  statCache :: "bytes \<Rightarrow> int option"
  numChunksServed :: int
  numBytesOfChunksServed :: u64

datatype serve_action = Reply "string + chunk_ok" | AskUpstream dot_descriptor "string list"

text \<open>The good branch of \<^verbatim>\<open>remote_get_chunk_cb\<close>. The bytes before the offset are removed from the buffer
  that the storage plugin handed over: the second component is what the buffer holds afterwards.\<close>

definition serve_page :: "nat \<Rightarrow> bool \<Rightarrow> u32 \<Rightarrow> bytes \<Rightarrow> bytes \<Rightarrow> serve_stats \<Rightarrow>
    (string + chunk_ok) \<times> bytes \<times> serve_stats" where
  "serve_page send_size servedChunk offset cid data sv =
     (if length data \<le> unat offset then (Inl ''Invalid offset for get_chunk'', data, sv)
      else
        let num_bytes = min (length data - unat offset) send_size;
            sv' = (if servedChunk
              then sv\<lparr>numChunksServed := numChunksServed sv + 1,
                      numBytesOfChunksServed := numBytesOfChunksServed sv + of_nat num_bytes\<rparr>
              else sv);
            data' = (if 0 < offset then drop (unat offset) data else data)
        in (Inr \<lparr>ch_offset = offset, ch_id = cid, ch_data = take num_bytes data',
              ch_end = \<not> num_bytes < length data - unat offset\<rparr>, data', sv'))"

definition remote_get_chunk_cb :: "nat \<Rightarrow> chunk_arg \<Rightarrow> bool \<Rightarrow> bool \<Rightarrow> string + (dot_descriptor \<times> bytes) \<Rightarrow>
    serve_stats \<Rightarrow> serve_action \<times> bytes \<times> serve_stats" where
  "remote_get_chunk_cb send_size arg last_try servedChunk dres sv = (case dres of
     Inl errmsg \<Rightarrow>
       if last_try then (Reply (Inl errmsg), [], sv)
       else (AskUpstream (ca_desc arg) (ca_hints arg), [], sv)
   | Inr (d, data) \<Rightarrow>
       (case serve_page send_size servedChunk (ca_offset arg) (desc_id d) data sv of
          (r, data', sv') \<Rightarrow> (Reply r, data', sv')))"

text \<open>\<^verbatim>\<open>proxy_get_chunk_cb\<close>: the reply, and the chunk it puts into the storage plugin.\<close>

definition proxy_get_chunk_cb :: "nat \<Rightarrow> chunk_arg \<Rightarrow> string + (dot_descriptor \<times> bytes) \<Rightarrow> serve_stats \<Rightarrow>
    serve_action \<times> (dot_descriptor \<times> bytes) option \<times> serve_stats" where
  "proxy_get_chunk_cb send_size arg res sv = (case res of
     Inl s \<Rightarrow> (Reply (Inl s), None, sv)
   | Inr (d, data) \<Rightarrow>
       (case remote_get_chunk_cb send_size arg True False (Inr (d, data)) sv of
          (act, data', sv') \<Rightarrow> (act, Some (d, data'), sv')))"

definition count_request :: "bytes \<Rightarrow> serve_stats \<Rightarrow> serve_stats" where
  "count_request cid sv = sv\<lparr>statCache := (statCache sv)(cid \<mapsto>
     (case statCache sv cid of None \<Rightarrow> 1 | Some n \<Rightarrow> n + 1))\<rparr>"

text \<open>The check of the first hint that \<^verbatim>\<open>remote_get_chunk\<close> and \<^verbatim>\<open>remote_get_descriptors\<close> begin with.\<close>

definition first_hint :: "string list \<Rightarrow> xfer_hint outcome" where
  "first_hint hints = (case hints of
     [] \<Rightarrow> Undefined
   | h # _ \<Rightarrow> andthen (defined (parse_hint h ''gtc'')) (\<lambda>r. case r of None \<Rightarrow> Fatal | Some x \<Rightarrow> Go x))"

definition remote_get_chunk :: "(dot_descriptor \<Rightarrow> string + (dot_descriptor \<times> bytes)) \<Rightarrow>
    bytes list option \<Rightarrow> string \<Rightarrow> int \<Rightarrow> nat \<Rightarrow> chunk_arg \<Rightarrow> serve_stats \<Rightarrow>
    (serve_action \<times> bytes \<times> serve_stats) outcome" where
  "remote_get_chunk sp_get_chunk myipaddrs octet listen_port send_size arg sv =
     (let sv' = count_request (desc_id (ca_desc arg)) sv
      in andthen (first_hint (ca_hints arg)) (\<lambda>_.
         andthen (gtc_in_hint_list myipaddrs octet listen_port (ca_hints arg)) (\<lambda>own.
         Go (remote_get_chunk_cb send_size arg own True (sp_get_chunk (ca_desc arg)) sv'))))"

section \<open>Descriptors\<close>

record descs_ok =
  ds_offset :: u32
  ds_count :: u32
  ds_descriptors :: "dot_descriptor list"
  ds_end :: bool

definition EVP_MAX_MD_SIZE :: u32 where "EVP_MAX_MD_SIZE = 64"

definition max_descs :: "nat \<Rightarrow> u32" where
  "max_descs send_size = of_nat send_size * 2 div (EVP_MAX_MD_SIZE * 5)"

definition remote_get_descriptors_cb :: "nat \<Rightarrow> u32 \<Rightarrow> string + dot_descriptor list \<Rightarrow> string + descs_ok" where
  "remote_get_descriptors_cb send_size offset r = (case r of
     Inl s \<Rightarrow> Inl s
   | Inr descs \<Rightarrow>
       if 0 < offset \<and> length descs \<le> unat offset then Inl ''Too large offset for GET_DESCRIPTORS''
       else
         let rest = length descs - unat offset;
             numd = min (of_nat rest) (max_descs send_size)
         in Inr \<lparr>ds_offset = offset, ds_count = numd, ds_descriptors = slice descs (unat offset) (unat numd),
              ds_end = (rest \<le> unat (max_descs send_size))\<rparr>)"

definition remote_get_descriptors :: "(bytes \<Rightarrow> string + dot_descriptor list) \<Rightarrow> nat \<Rightarrow> bytes \<Rightarrow> u32 \<Rightarrow>
    string list \<Rightarrow> (string + descs_ok) outcome" where
  "remote_get_descriptors sp_get_descriptors send_size oid offset hints =
     (if length oid < 1 then Go (Inl ''Received invalid OID for GET_DESCRIPTORS'')
      else andthen (first_hint hints) (\<lambda>_.
        Go (remote_get_descriptors_cb send_size offset (sp_get_descriptors oid))))"

section \<open>Set-up and dispatch\<close>

definition DEFAULT_PORT :: int where "DEFAULT_PORT = 12000"

text \<open>\<^verbatim>\<open>configure\<close>: the port it listens on and the routes, or \<open>None\<close> for a port that \<^verbatim>\<open>convertint\<close> of the RPC
  library cannot read. \<open>script_found\<close> is the answer of \<^verbatim>\<open>find_program\<close>, \<open>listening\<close> that of \<^verbatim>\<open>inetsocket\<close>.\<close>

definition xfer_configure :: "(string \<Rightarrow> int option) \<Rightarrow> bool \<Rightarrow> (int \<Rightarrow> bool) \<Rightarrow> bool \<Rightarrow> cfg_line list option \<Rightarrow>
    string option \<Rightarrow> routes \<Rightarrow> (int \<times> routes) option outcome" where
  "xfer_configure convertint script_found listening no_dot_proxy generated s tab =
     (case (if s = None \<or> s = Some [] then Some DEFAULT_PORT else convertint (the s)) of
        None \<Rightarrow> Go None
      | Some port_num \<Rightarrow>
          if \<not> script_found then Fatal
          else andthen (setup_routing_info no_dot_proxy generated tab) (\<lambda>tab'.
            if listening port_num then Go (Some (port_num, tab')) else Fatal))"

datatype xfer_request =
    GetChunkRpc chunk_arg
  | GetDescriptorsRpc bytes u32 "string list"
  | GetBitmapRpc bytes u32
  | OtherRpc

datatype xfer_reply =
    ChunkRpcReply serve_action
  | DescriptorsRpcReply "string + descs_ok"
  | BitmapRpcReply "string + bitmap_ok"
  | ProcUnavail

text \<open>\<^verbatim>\<open>dispatch\<close> for an open connection, with what the storage plugin answers at once.\<close>

definition xfer_dispatch :: "(dot_descriptor \<Rightarrow> string + (dot_descriptor \<times> bytes)) \<Rightarrow>
    (bytes \<Rightarrow> string + dot_descriptor list) \<Rightarrow> (bytes \<Rightarrow> string + bool list) \<Rightarrow> bytes list option \<Rightarrow> string \<Rightarrow>
    int \<Rightarrow> nat \<Rightarrow> xfer_request \<Rightarrow> serve_stats \<Rightarrow> (xfer_reply \<times> serve_stats) outcome" where
  "xfer_dispatch sp_get_chunk sp_get_descriptors sp_get_bitmap myipaddrs octet listen_port send_size rq sv = (case rq of
     GetChunkRpc a \<Rightarrow>
       andthen (remote_get_chunk sp_get_chunk myipaddrs octet listen_port send_size a sv)
         (\<lambda>(act, left, sv'). Go (ChunkRpcReply act, sv'))
   | GetDescriptorsRpc oid offset hints \<Rightarrow>
       andthen (remote_get_descriptors sp_get_descriptors send_size oid offset hints)
         (\<lambda>r. Go (DescriptorsRpcReply r, sv))
   | GetBitmapRpc oid offset \<Rightarrow>
       andthen (defined (remote_get_bitmap sp_get_bitmap send_size oid offset)) (\<lambda>r. Go (BitmapRpcReply r, sv))
   | OtherRpc \<Rightarrow> Go (ProcUnavail, sv))"

section \<open>Lemmas\<close>

text \<open>A row of the routing table: destination, gateway and six more words.\<close>

type_synonym route_row = "string \<times> string \<times> string list"

definition row_line :: "route_row \<Rightarrow> cfg_line" where
  "row_line r = (case r of (dst, gw, ws) \<Rightarrow> (dst, gw # ws))"

definition row_ok :: "route_row \<Rightarrow> bool" where
  "row_ok r \<longleftrightarrow> (case r of (dst, gw, ws) \<Rightarrow> length ws = NUM_TABLE_COLUMNS - 2 \<and> \<not> same_word dst routing_info_header)"

definition row_route :: "bool \<Rightarrow> route_row \<Rightarrow> string \<times> string" where
  "row_route ndp r = (case r of (dst, gw, ws) \<Rightarrow> (dst, if ndp \<or> gw = ''*'' \<or> gw = ''0.0.0.0'' then dst else gw))"

lemma routing_rows_read:
  "list_all row_ok rows \<Longrightarrow>
   foldl (\<lambda>st ln. routing_step ln st) (True, err, l) (map row_line rows) =
     (True, err, l @ concat (map (\<lambda>r. fst (row_line r) # snd (row_line r)) rows))"
  by (induction rows arbitrary: l) (auto simp: routing_step_def row_ok_def row_line_def)

lemma route_rows_table:
  "list_all row_ok rows \<Longrightarrow>
   route_rows ndp (concat (map (\<lambda>r. fst (row_line r) # snd (row_line r)) rows)) tab =
     Some (tab ++ map_of (rev (map (row_route ndp) rows)))"
proof (induction rows arbitrary: tab)
  case (Cons r rows)
  obtain dst gw ws where r: "r = (dst, gw, ws)" by (cases r)
  from Cons.prems have "drop (NUM_TABLE_COLUMNS - 2) (ws @ xs) = xs" for xs
    by (simp add: r row_ok_def)
  with Cons show ?case by (simp add: r row_line_def row_route_def)
qed simp

lemma setup_routing_rows:
  assumes "list_all row_ok rows" and "same_word w routing_info_header"
  shows "setup_routing_info ndp (Some ((w, ws) # map row_line rows)) tab =
    Go (tab ++ map_of (rev (map (row_route ndp) rows)))"
proof -
  have "routing_step (w, ws) (False, False, []) = (True, False, [])" using assms(2) by (simp add: routing_step_def)
  with assms(1) show ?thesis
    by (simp add: setup_routing_info_def get_routing_table_def parse_config_routing_info_def
        routing_rows_read route_rows_table)
qed

lemma inet_ntoa_no_nul: "CHR 0x00 \<notin> set (inet_ntoa bs)"
proof -
  have "CHR 0x00 \<notin> set (show_nat n)" for n
    by (auto dest!: show_nat_chars simp: is_digit_def)
  then show ?thesis by (auto simp: inet_ntoa_def split: list.splits)
qed

section \<open>Properties\<close>

text \<open>The next hop is what the routing table says: for a table with the header line and rows of eight words,
  the hop towards the host of a hint is the gateway of the last row for it, or the host itself when the
  gateway is \<^verbatim>\<open>*\<close> or \<^verbatim>\<open>0.0.0.0\<close> or proxies are switched off. A host without a row keeps the hop of an
  earlier table, and stops the daemon when it never had one.\<close>

theorem next_hop_of_table:
  assumes "list_all row_ok rows" and "same_word w routing_info_header" and "host_name h" and "int n < 2 ^ 31"
  shows "get_next_hop ndp (Some ((w, ws) # map row_line rows)) (hint_string h n) tab =
    (let tab' = tab ++ map_of (rev (map (row_route ndp) rows))
     in case (case map_of (rev (map (row_route ndp) rows)) h of None \<Rightarrow> tab h | Some nh \<Rightarrow> Some nh) of
          None \<Rightarrow> Fatal
        | Some nh \<Rightarrow> Go (Some \<lparr>hostname = nh, port = of_nat n\<rparr>, tab'))"
  using assms by (simp add: get_next_hop_def parse_hint_string setup_routing_rows Let_def map_add_def split: option.split)

lemma next_hop_of_table_witness:
  "get_next_hop False (Some ((''Destination'', [''Gateway'']) # map row_line
      [(''10.0.0.9'', ''10.0.0.2'', [''255.255.255.255'', ''UGH'', ''2'', ''0'', ''0'', ''wlan0''])]))
      (hint_string ''10.0.0.9'' 12000) Map.empty =
    Go (Some \<lparr>hostname = ''10.0.0.2'', port = 12000\<rparr>, Map.empty(''10.0.0.9'' \<mapsto> ''10.0.0.2''))"
  by (subst next_hop_of_table)
    (simp_all add: row_ok_def NUM_TABLE_COLUMNS_def same_word_def tolower_def routing_info_header_def host_name_def
      row_route_def Let_def)

text \<open>A request whose first hint is not a hint of the protocol stops the daemon that it is sent to.\<close>

theorem bad_hint_stops_daemon:
  assumes "parse_hint h ''gtc'' = Some None"
    and "rq = GetChunkRpc \<lparr>ca_desc = d, ca_offset = off, ca_hints = h # hs\<rparr> \<or>
      rq = GetDescriptorsRpc (b # oid) off (h # hs)"
  shows "xfer_dispatch sp_get_chunk sp_get_descriptors sp_get_bitmap addrs octet p send_size rq sv = Fatal"
  using assms by (auto simp: xfer_dispatch_def remote_get_chunk_def remote_get_descriptors_def first_hint_def)

lemma bad_hint_stops_daemon_witness:
  "xfer_dispatch (\<lambda>d. Inl ''none'') (\<lambda>oid. Inr []) (\<lambda>oid. Inr []) None ''10'' 12000 4096
     (GetDescriptorsRpc [1] 0 [''x'']) \<lparr>statCache = Map.empty, numChunksServed = 0, numBytesOfChunksServed = 0\<rparr> = Fatal"
proof -
  have "parse_hint ''x'' ''gtc'' = Some None"
    by (simp add: parse_hint_def cstr_def) (simp add: strstr.simps)
  then show ?thesis by (rule bad_hint_stops_daemon) simp
qed

text \<open>A daemon knows its own hint: the hint it hands out is recognised when it is the first of a request, and
  a request that lists another host first is taken for a foreign one, even when the daemon's own hint
  comes next.\<close>

theorem own_hint_recognised:
  assumes "get_default_hint addrs octet p = Some own" and "0 \<le> p" and "p < 2 ^ 31"
    and "host_name h" and "get_default_hostname addrs octet \<noteq> Some h" and "int n < 2 ^ 31"
  shows "gtc_in_hint_list addrs octet p (own # hs) = Go True \<and>
    gtc_in_hint_list addrs octet p (hint_string h n # own # hs) = Go False"
proof -
  from assms(1) obtain host where host: "get_default_hostname addrs octet = Some host"
    and own: "own = hint_string host (unat (word_of_int p :: u32))" by (auto simp: get_default_hint_def)
  have ntoa: "default_hostname_loop octet av = Some host \<Longrightarrow> \<exists>a. host = inet_ntoa a" for av
    by (induction av) (auto split: if_splits)
  from host obtain a where "host = inet_ntoa a"
    by (auto simp: get_default_hostname_def dest!: ntoa split: option.splits)
  then have hn: "host_name host"
    using inet_ntoa_no_colon [of a] inet_ntoa_no_nul [of a] by (simp add: host_name_def)
  have "unat (word_of_int p :: u32) = nat p" using assms(2,3) by (intro unat_word_of_int32) simp_all
  then have "own = hint_string host (nat p)" using own by simp
  with parse_hint_string [OF hn, of "nat p"] assms(2,3)
  have "own_hint (Some host) p own = Go True" by (simp add: own_hint_def)
  moreover have foreign: "own_hint (Some host) p (hint_string h n) = Go False"
    using parse_hint_string [OF assms(4,6)] assms(5) host by (simp add: own_hint_def)
  then have "hint_list_loop (Some host) p (hint_string h n # own # hs) k = Go False" for k
    by (induction k) simp_all
  ultimately show ?thesis by (simp add: gtc_in_hint_list_def host foreign)
qed

lemma own_hint_recognised_witness:
  "gtc_in_hint_list (Some [[127, 0, 0, 1], [10, 0, 0, 7]]) ''10'' 12000
     [hint_string ''10.0.0.9'' 12000, hint_string ''10.0.0.7'' 12000] = Go False"
proof -
  have host: "get_default_hostname (Some [[127, 0, 0, 1], [10, 0, 0, 7]]) ''10'' = Some ''10.0.0.7''"
    by code_simp
  then have "get_default_hint (Some [[127, 0, 0, 1], [10, 0, 0, 7]]) ''10'' 12000 = Some (hint_string ''10.0.0.7'' 12000)"
    by (simp add: get_default_hint_def)
  from own_hint_recognised [OF this, of "''10.0.0.9''" 12000 "[]"] host show ?thesis by (simp add: host_name_def)
qed

text \<open>A proxy that fetches a chunk for a request that starts inside it answers that request but puts only the
  bytes from there on into its storage, under the id of the whole chunk.\<close>

theorem proxy_stores_truncated:
  assumes "0 < ca_offset arg" and "unat (ca_offset arg) < length data"
  shows "\<exists>ok sv'. proxy_get_chunk_cb send_size arg (Inr (d, data)) sv =
      (Reply (Inr ok), Some (d, drop (unat (ca_offset arg)) data), sv') \<and>
    ch_data ok = take send_size (drop (unat (ca_offset arg)) data) \<and> ch_offset ok = ca_offset arg"
  using assms by (auto simp: proxy_get_chunk_cb_def remote_get_chunk_cb_def serve_page_def Let_def min_def)

lemma proxy_stores_truncated_witness:
  "\<exists>ok sv'. proxy_get_chunk_cb 2 \<lparr>ca_desc = \<lparr>desc_id = [9], desc_length = 3\<rparr>, ca_offset = 2, ca_hints = []\<rparr>
      (Inr (\<lparr>desc_id = [9], desc_length = 3\<rparr>, [7, 8, 9])) \<lparr>statCache = Map.empty, numChunksServed = 0,
        numBytesOfChunksServed = 0\<rparr> = (Reply (Inr ok), Some (\<lparr>desc_id = [9], desc_length = 3\<rparr>, [9]), sv')"
  using proxy_stores_truncated [of "\<lparr>ca_desc = \<lparr>desc_id = [9], desc_length = 3\<rparr>, ca_offset = 2, ca_hints = []\<rparr>" "[7, 8, 9]"]
  by fastforce

end
