(* ===== verification/XferConn.thy ===== *)
theory XferConn
  imports XferServer
begin

text \<open>
  \<^verbatim>\<open>src/gtcd/xfer/xferPlugin_gtc.cc\<close>, the side that asks: connections to other daemons, the requests that
  wait for them, and the callbacks of the replies. A \<^verbatim>\<open>conn_entry *\<close> is an index into \<open>conns\<close>, which holds
  \<open>None\<close> once the entry is deleted: using it then is \<open>Undefined\<close>, as is using a null pointer. What the plugin
  asks of the RPC library (\<^verbatim>\<open>tcpconnect\<close>, \<^verbatim>\<open>aclnt::call\<close>) is recorded in \<open>connects\<close> and \<open>calls\<close>, the callbacks of
  the client of the plugin in \<open>delivered\<close>; the library calls back later, as an event.
\<close>

section \<open>State\<close>

record chunk_req =
  rq_desc :: dot_descriptor
  rq_hints :: "string list"
  rq_cb :: nat

record conn_entry =
  conn_key :: string
  refcount :: int
  conn_tv :: int
  wait_cb :: "chunk_req option list"

datatype xfer_error = CouldNotConnect | RpcFailure | PeerError string | InvalidData

datatype rpc_call =
    ChunkCall nat chunk_req u32 bytes
  | DescCall nat bytes "string list" nat u32
  | BitmapCall nat bytes nat u32 "bool list"

datatype connect_cb =
    Establish string
  | DescClnt bytes "string list" nat string
  | BitmapClnt bytes nat string

datatype delivery =
    ChunkDone chunk_req "xfer_error + (dot_descriptor \<times> bytes)"
  | DescsDone nat "xfer_error + (dot_descriptor list \<times> bool)"
  | BitmapDone nat "xfer_error + bool list"

record xferPlugin_gtc =
  routing_table :: routes
  connCache :: "nat list"
  conns :: "conn_entry option list"
  pendingConnCache :: "(string \<times> chunk_req list) list"
  connects :: "(string \<times> u32 \<times> connect_cb) list"
  calls :: "rpc_call list"
  delivered :: "delivery list"

definition xfer_start :: xferPlugin_gtc where
  "xfer_start = \<lparr>routing_table = Map.empty, connCache = [], conns = [], pendingConnCache = [], connects = [],
     calls = [], delivered = []\<rparr>"

text \<open>What an event finds around it: the flag of the daemon, the routing table the script writes, the time.\<close>

record env =
  no_dot_proxy :: bool
  route_lines :: "cfg_line list option"
  tv_now :: int

definition MAX_RPCS_IN_FLIGHT :: int where "MAX_RPCS_IN_FLIGHT = 50"

definition CONN_ENTRY_IDLE_SEC :: int where "CONN_ENTRY_IDLE_SEC = 600"

section \<open>Connections\<close>

definition entry :: "xferPlugin_gtc \<Rightarrow> nat \<Rightarrow> conn_entry option" where
  "entry s c = (if c < length (conns s) then conns s ! c else None)"

definition set_entry :: "nat \<Rightarrow> conn_entry option \<Rightarrow> xferPlugin_gtc \<Rightarrow> xferPlugin_gtc" where
  "set_entry c e s = s\<lparr>conns := (conns s)[c := e]\<rparr>"

definition lookup_conn :: "xferPlugin_gtc \<Rightarrow> string \<Rightarrow> nat option" where
  "lookup_conn s key = find (\<lambda>c. map_option conn_key (entry s c) = Some key) (connCache s)"

definition conn_entry_new :: "string \<Rightarrow> int \<Rightarrow> conn_entry" where
  "conn_entry_new key now = \<lparr>conn_key = key, refcount = 1, conn_tv = now, wait_cb = []\<rparr>"

text \<open>\<^verbatim>\<open>New conn_entry\<close>, \<^verbatim>\<open>connCache.insert\<close> and the time stamp; the new entry is \<open>length (conns s)\<close>.\<close>

definition insert_conn :: "env \<Rightarrow> string \<Rightarrow> xferPlugin_gtc \<Rightarrow> xferPlugin_gtc" where
  "insert_conn v key s = s\<lparr>conns := conns s @ [Some (conn_entry_new key (tv_now v))],
     connCache := length (conns s) # connCache s\<rparr>"

definition deliver :: "delivery \<Rightarrow> xferPlugin_gtc \<Rightarrow> xferPlugin_gtc" where
  "deliver d s = s\<lparr>delivered := delivered s @ [d]\<rparr>"

definition call_on :: "nat \<Rightarrow> rpc_call \<Rightarrow> xferPlugin_gtc \<Rightarrow> xferPlugin_gtc outcome" where
  "call_on c rpc s = (case entry s c of
     None \<Rightarrow> Undefined
   | Some _ \<Rightarrow> Go (s\<lparr>calls := calls s @ [rpc]\<rparr>))"

text \<open>The key of a connection is printed from the unsigned port of the hint; \<^verbatim>\<open>get_connection\<close> has it as an
  \<^verbatim>\<open>int\<close>.\<close>

definition hint_key :: "xfer_hint \<Rightarrow> string" where
  "hint_key h = hostname h @ '':'' @ show_nat (unat (port h))"

section \<open>Asking for a chunk\<close>

text \<open>\<^verbatim>\<open>get_chunk_int\<close>: after an error is handed to the callback the call is made all the same.\<close>

definition get_chunk_int :: "chunk_req \<Rightarrow> u32 \<Rightarrow> bytes \<Rightarrow> xfer_error option \<Rightarrow> nat option \<Rightarrow>
    xferPlugin_gtc \<Rightarrow> xferPlugin_gtc outcome" where
  "get_chunk_int r offset data err conn s =
     (let s1 = (case err of Some e \<Rightarrow> deliver (ChunkDone r (Inl e)) s | None \<Rightarrow> s)
      in case conn of
           None \<Rightarrow> Undefined
         | Some c \<Rightarrow> call_on c (ChunkCall c r offset data) s1)"

definition get_connection :: "string \<Rightarrow> u32 \<Rightarrow> chunk_req \<Rightarrow> xferPlugin_gtc \<Rightarrow> xferPlugin_gtc outcome" where
  "get_connection host pt r s =
     (let key = host @ '':'' @ show_int (sint pt)
      in case lookup_conn s key of
           Some c \<Rightarrow> get_chunk_int r 0 [] None (Some c) s
         | None \<Rightarrow> (case map_of (pendingConnCache s) key of
             Some _ \<Rightarrow> Go (s\<lparr>pendingConnCache :=
               map (\<lambda>(k, rs). (k, if k = key then rs @ [r] else rs)) (pendingConnCache s)\<rparr>)
           | None \<Rightarrow> Go (s\<lparr>pendingConnCache := (key, [r]) # pendingConnCache s,
               connects := connects s @ [(host, pt, Establish key)]\<rparr>)))"

definition chunk_on :: "env \<Rightarrow> chunk_req \<Rightarrow> nat \<Rightarrow> xferPlugin_gtc \<Rightarrow> xferPlugin_gtc outcome" where
  "chunk_on v r c s = (case entry s c of
     None \<Rightarrow> Undefined
   | Some e \<Rightarrow>
       if MAX_RPCS_IN_FLIGHT \<le> refcount e
       then Go (set_entry c (Some (e\<lparr>wait_cb := wait_cb e @ [Some r]\<rparr>)) s)
       else get_chunk_int r 0 [] None (Some c)
              (set_entry c (Some (e\<lparr>refcount := refcount e + 1, conn_tv := tv_now v\<rparr>)) s))"

definition get_chunk :: "env \<Rightarrow> chunk_req \<Rightarrow> xferPlugin_gtc \<Rightarrow> xferPlugin_gtc outcome" where
  "get_chunk v r s = (case rq_hints r of
     [] \<Rightarrow> Undefined
   | hint # _ \<Rightarrow>
       andthen (get_next_hop (no_dot_proxy v) (route_lines v) hint (routing_table s)) (\<lambda>(hop, tab).
       case hop of
         None \<Rightarrow> Fatal
       | Some h \<Rightarrow>
           let s1 = s\<lparr>routing_table := tab\<rparr>
           in case lookup_conn s1 (hint_key h) of
                None \<Rightarrow> get_connection (hostname h) (port h) r s1
              | Some c \<Rightarrow> chunk_on v r c s1))"

text \<open>\<^verbatim>\<open>get_chunks\<close>: descriptor and hints at the same index.\<close>

fun get_chunks :: "env \<Rightarrow> dot_descriptor list \<Rightarrow> string list list \<Rightarrow> nat \<Rightarrow> xferPlugin_gtc \<Rightarrow>
    xferPlugin_gtc outcome" where
  "get_chunks v [] hv cb s = Go s"
| "get_chunks v (d # dv) [] cb s = Undefined"
| "get_chunks v (d # dv) (hints # hv) cb s =
     andthen (get_chunk v \<lparr>rq_desc = d, rq_hints = hints, rq_cb = cb\<rparr> s) (get_chunks v dv hv cb)"

text \<open>\<^verbatim>\<open>establish_connection\<close>, with whether there is a descriptor. All the waiting requests share the one
  reference of the new entry.\<close>

definition establish_connection :: "env \<Rightarrow> string \<Rightarrow> bool \<Rightarrow> xferPlugin_gtc \<Rightarrow> xferPlugin_gtc outcome" where
  "establish_connection v key connected s = (case map_of (pendingConnCache s) key of
     None \<Rightarrow> Fatal
   | Some rs \<Rightarrow>
       andthen
         (if \<not> connected then for_each (\<lambda>r. get_chunk_int r 0 [] (Some CouldNotConnect) None) rs s
          else for_each (\<lambda>r. get_chunk_int r 0 [] None (Some (length (conns s)))) rs (insert_conn v key s))
         (\<lambda>s'. Go (s'\<lparr>pendingConnCache := filter (\<lambda>(k, _). k \<noteq> key) (pendingConnCache s')\<rparr>)))"

text \<open>\<^verbatim>\<open>get_chunk_clnt\<close>, which nothing calls.\<close>

definition get_chunk_clnt :: "env \<Rightarrow> chunk_req \<Rightarrow> string \<Rightarrow> bool \<Rightarrow> xferPlugin_gtc \<Rightarrow> xferPlugin_gtc outcome" where
  "get_chunk_clnt v r key connected s =
     (if \<not> connected then Go (deliver (ChunkDone r (Inl CouldNotConnect)) s)
      else get_chunk_int r 0 [] None (Some (length (conns s))) (insert_conn v key s))"

section \<open>Deleting a connection\<close>

text \<open>\<^verbatim>\<open>connCache.remove(conn); delete conn\<close>: the destructor starts the requests that wait.\<close>

definition delete_conn :: "env \<Rightarrow> nat \<Rightarrow> xferPlugin_gtc \<Rightarrow> xferPlugin_gtc outcome" where
  "delete_conn v c s = (case entry s c of
     None \<Rightarrow> Undefined
   | Some e \<Rightarrow>
       andthen (for_each (get_chunk v) (List.map_filter id (wait_cb e))
           (s\<lparr>connCache := filter (\<lambda>k. k \<noteq> c) (connCache s)\<rparr>))
         (\<lambda>s'. Go (set_entry c None s')))"

definition int_reap_conn_entries :: "env \<Rightarrow> nat \<Rightarrow> xferPlugin_gtc \<Rightarrow> xferPlugin_gtc outcome" where
  "int_reap_conn_entries v c s = (case entry s c of
     None \<Rightarrow> Undefined
   | Some e \<Rightarrow>
       if refcount e = 0 \<and> CONN_ENTRY_IDLE_SEC < tv_now v - conn_tv e then delete_conn v c s else Go s)"

definition reap_conn_entries :: "env \<Rightarrow> xferPlugin_gtc \<Rightarrow> xferPlugin_gtc outcome" where
  "reap_conn_entries v s = for_each (int_reap_conn_entries v) (connCache s) s"

section \<open>Replies about chunks\<close>

datatype 'a rpc_reply = RpcErr | Answer "string + 'a"

primrec take_waiting :: "chunk_req option list \<Rightarrow> (chunk_req \<times> chunk_req option list) option" where
  "take_waiting [] = None"
| "take_waiting (w # ws) = (case w of
     Some r \<Rightarrow> Some (r, None # ws)
   | None \<Rightarrow> map_option (\<lambda>(r, ws'). (r, None # ws')) (take_waiting ws))"

definition check_outstanding :: "env \<Rightarrow> nat \<Rightarrow> xferPlugin_gtc \<Rightarrow> xferPlugin_gtc outcome" where
  "check_outstanding v c s = (case entry s c of
     None \<Rightarrow> Undefined
   | Some e \<Rightarrow> (case take_waiting (wait_cb e) of
       None \<Rightarrow> Go s
     | Some (r, ws) \<Rightarrow> get_chunk v r (set_entry c (Some (e\<lparr>wait_cb := ws\<rparr>)) s)))"

definition release :: "nat \<Rightarrow> xferPlugin_gtc \<Rightarrow> xferPlugin_gtc outcome" where
  "release c s = (case entry s c of
     None \<Rightarrow> Undefined
   | Some e \<Rightarrow> Go (set_entry c (Some (e\<lparr>refcount := refcount e - 1\<rparr>)) s))"

definition get_chunk_internal_cb :: "(bytes \<Rightarrow> bytes) \<Rightarrow> env \<Rightarrow> nat \<Rightarrow> chunk_req \<Rightarrow> bytes \<Rightarrow>
    chunk_ok rpc_reply \<Rightarrow> xferPlugin_gtc \<Rightarrow> xferPlugin_gtc outcome" where
  "get_chunk_internal_cb sha1 v c r data0 reply s = (case reply of
     RpcErr \<Rightarrow> andthen (delete_conn v c s) (\<lambda>s'. Go (deliver (ChunkDone r (Inl RpcFailure)) s'))
   | Answer (Inl e) \<Rightarrow> Go (deliver (ChunkDone r (Inl (PeerError e))) s)
   | Answer (Inr res) \<Rightarrow>
       let data = data0 @ ch_data res
       in if ch_end res then
            (if desc_id (rq_desc r) \<noteq> compute_chunk_id sha1 data
             then Go (deliver (ChunkDone r (Inl InvalidData)) s)
             else andthen (release c s) (\<lambda>s1.
                  check_outstanding v c (deliver (ChunkDone r (Inr (rq_desc r, data))) s1)))
          else get_chunk_int r (of_nat (length data)) data None (Some c) s)"

section \<open>Descriptors and bitmaps\<close>

definition get_descriptors_int :: "bytes \<Rightarrow> u32 \<Rightarrow> nat \<Rightarrow> string list \<Rightarrow> nat \<Rightarrow> xferPlugin_gtc \<Rightarrow>
    xferPlugin_gtc outcome" where
  "get_descriptors_int oid offset cb hints c s = call_on c (DescCall c oid hints cb offset) s"

definition use_conn :: "env \<Rightarrow> nat \<Rightarrow> xferPlugin_gtc \<Rightarrow> xferPlugin_gtc outcome" where
  "use_conn v c s = (case entry s c of
     None \<Rightarrow> Undefined
   | Some e \<Rightarrow> Go (set_entry c (Some (e\<lparr>refcount := refcount e + 1, conn_tv := tv_now v\<rparr>)) s))"

definition get_descriptors :: "env \<Rightarrow> bytes \<Rightarrow> string list \<Rightarrow> nat \<Rightarrow> xferPlugin_gtc \<Rightarrow> xferPlugin_gtc outcome" where
  "get_descriptors v oid hints cb s = andthen (first_hint hints) (\<lambda>h.
     case lookup_conn s (hint_key h) of
       None \<Rightarrow> Go (s\<lparr>connects := connects s @ [(hostname h, port h, DescClnt oid hints cb (hint_key h))]\<rparr>)
     | Some c \<Rightarrow> andthen (use_conn v c s) (get_descriptors_int oid 0 cb hints c))"

definition get_descriptors_clnt :: "env \<Rightarrow> bytes \<Rightarrow> string list \<Rightarrow> nat \<Rightarrow> string \<Rightarrow> bool \<Rightarrow>
    xferPlugin_gtc \<Rightarrow> xferPlugin_gtc outcome" where
  "get_descriptors_clnt v oid hints cb key connected s =
     (if \<not> connected then Go (deliver (DescsDone cb (Inl CouldNotConnect)) s)
      else get_descriptors_int oid 0 cb hints (length (conns s)) (insert_conn v key s))"

text \<open>\<^verbatim>\<open>get_desc_internal_cb\<close>: the count of the reply is trusted.\<close>

definition get_desc_internal_cb :: "env \<Rightarrow> nat \<Rightarrow> bytes \<Rightarrow> string list \<Rightarrow> nat \<Rightarrow> descs_ok rpc_reply \<Rightarrow>
    xferPlugin_gtc \<Rightarrow> xferPlugin_gtc outcome" where
  "get_desc_internal_cb v c oid hints cb reply s = (case reply of
     RpcErr \<Rightarrow> andthen (delete_conn v c s) (\<lambda>s'. Go (deliver (DescsDone cb (Inl RpcFailure)) s'))
   | Answer (Inl e) \<Rightarrow> Go (deliver (DescsDone cb (Inl (PeerError e))) s)
   | Answer (Inr res) \<Rightarrow>
       if length (ds_descriptors res) < unat (ds_count res) then Undefined
       else andthen
         (if \<not> ds_end res then get_descriptors_int oid (ds_count res + ds_offset res) cb hints c s
          else release c s)
         (\<lambda>s'. Go (deliver (DescsDone cb (Inr (take (unat (ds_count res)) (ds_descriptors res), ds_end res))) s')))"

definition get_bitmap_int :: "bytes \<Rightarrow> u32 \<Rightarrow> nat \<Rightarrow> nat \<Rightarrow> bool list \<Rightarrow> xferPlugin_gtc \<Rightarrow>
    xferPlugin_gtc outcome" where
  "get_bitmap_int oid offset cb c bmp s = call_on c (BitmapCall c oid cb offset bmp) s"

definition get_bitmap :: "env \<Rightarrow> bytes \<Rightarrow> string list \<Rightarrow> nat \<Rightarrow> xferPlugin_gtc \<Rightarrow> xferPlugin_gtc outcome" where
  "get_bitmap v oid hints cb s = andthen (first_hint hints) (\<lambda>h.
     case lookup_conn s (hint_key h) of
       None \<Rightarrow> Go (s\<lparr>connects := connects s @ [(hostname h, port h, BitmapClnt oid cb (hint_key h))]\<rparr>)
     | Some c \<Rightarrow> (case entry s c of
         None \<Rightarrow> Undefined
       | Some e \<Rightarrow>
           if MAX_RPCS_IN_FLIGHT \<le> refcount e then Fatal
           else andthen (use_conn v c s) (get_bitmap_int oid 0 cb c [])))"

definition get_bitmap_clnt :: "env \<Rightarrow> bytes \<Rightarrow> nat \<Rightarrow> string \<Rightarrow> bool \<Rightarrow> xferPlugin_gtc \<Rightarrow>
    xferPlugin_gtc outcome" where
  "get_bitmap_clnt v oid cb key connected s =
     (if \<not> connected then Go (deliver (BitmapDone cb (Inl CouldNotConnect)) s)
      else get_bitmap_int oid 0 cb (length (conns s)) [] (insert_conn v key s))"

definition get_bitmap_internal_cb :: "env \<Rightarrow> nat \<Rightarrow> bytes \<Rightarrow> nat \<Rightarrow> bool list \<Rightarrow> bitmap_ok rpc_reply \<Rightarrow>
    xferPlugin_gtc \<Rightarrow> xferPlugin_gtc outcome" where
  "get_bitmap_internal_cb v c oid cb bmp0 reply s = (case reply of
     RpcErr \<Rightarrow> andthen (delete_conn v c s) (\<lambda>s'. Go (deliver (BitmapDone cb (Inl RpcFailure)) s'))
   | Answer (Inl e) \<Rightarrow> Go (deliver (BitmapDone cb (Inl (PeerError e))) s)
   | Answer (Inr res) \<Rightarrow>
       andthen (defined (take_bitmap_page res bmp0)) (\<lambda>bmp.
       if \<not> bm_end res then get_bitmap_int oid (bm_count res + bm_offset res) cb c bmp s
       else andthen (release c s) (\<lambda>s'. Go (deliver (BitmapDone cb (Inr bmp)) s'))))"

end
