(* ===== verification/XferRun.thy ===== *)
theory XferRun
  imports XferConn "HOL-Library.Multiset"
begin

text \<open>
  The plugin of \<open>XferConn\<close> driven by its clients, by the network and by its timer: a step per event, the
  states that are reachable, and the invariants of those. An event takes the connection attempt or the
  call it answers off the list.
\<close>

section \<open>Steps\<close>

definition remove_nth :: "nat \<Rightarrow> 'a list \<Rightarrow> 'a list" where
  "remove_nth i xs = take i xs @ drop (Suc i) xs"

definition connect_done :: "env \<Rightarrow> string \<times> u32 \<times> connect_cb \<Rightarrow> bool \<Rightarrow> xferPlugin_gtc \<Rightarrow>
    xferPlugin_gtc outcome" where
  "connect_done v a connected s = (case snd (snd a) of
     Establish key \<Rightarrow> establish_connection v key connected s
   | DescClnt oid hints cb key \<Rightarrow> get_descriptors_clnt v oid hints cb key connected s
   | BitmapClnt oid cb key \<Rightarrow> get_bitmap_clnt v oid cb key connected s)"

fun chunk_requests :: "dot_descriptor list \<Rightarrow> string list list \<Rightarrow> nat \<Rightarrow> chunk_req list" where
  "chunk_requests (d # dv) (h # hv) cb = \<lparr>rq_desc = d, rq_hints = h, rq_cb = cb\<rparr> # chunk_requests dv hv cb"
| "chunk_requests _ _ cb = []"

inductive xfer_step :: "(bytes \<Rightarrow> bytes) \<Rightarrow> chunk_req list \<Rightarrow> xferPlugin_gtc \<Rightarrow> xferPlugin_gtc \<Rightarrow> bool"
  for sha1 where
  ask_chunk: "get_chunk v r s = Go s' \<Longrightarrow> xfer_step sha1 [r] s s'"
| ask_chunks: "get_chunks v dv hv cb s = Go s' \<Longrightarrow> xfer_step sha1 (chunk_requests dv hv cb) s s'"
| ask_descriptors: "get_descriptors v oid hints cb s = Go s' \<Longrightarrow> xfer_step sha1 [] s s'"
| ask_bitmap: "get_bitmap v oid hints cb s = Go s' \<Longrightarrow> xfer_step sha1 [] s s'"
| connected: "i < length (connects s) \<Longrightarrow>
    connect_done v (connects s ! i) ok (s\<lparr>connects := remove_nth i (connects s)\<rparr>) = Go s' \<Longrightarrow>
    xfer_step sha1 [] s s'"
| chunk_reply: "i < length (calls s) \<Longrightarrow> calls s ! i = ChunkCall c r offset data \<Longrightarrow>
    get_chunk_internal_cb sha1 v c r data rep (s\<lparr>calls := remove_nth i (calls s)\<rparr>) = Go s' \<Longrightarrow>
    xfer_step sha1 [] s s'"
| descs_reply: "i < length (calls s) \<Longrightarrow> calls s ! i = DescCall c oid hints cb offset \<Longrightarrow>
    get_desc_internal_cb v c oid hints cb drep (s\<lparr>calls := remove_nth i (calls s)\<rparr>) = Go s' \<Longrightarrow>
    xfer_step sha1 [] s s'"
| bitmap_reply: "i < length (calls s) \<Longrightarrow> calls s ! i = BitmapCall c oid cb offset bmp \<Longrightarrow>
    get_bitmap_internal_cb v c oid cb bmp brep (s\<lparr>calls := remove_nth i (calls s)\<rparr>) = Go s' \<Longrightarrow>
    xfer_step sha1 [] s s'"
| reap: "reap_conn_entries v s = Go s' \<Longrightarrow> xfer_step sha1 [] s s'"

inductive xfer_reachable :: "(bytes \<Rightarrow> bytes) \<Rightarrow> chunk_req list \<Rightarrow> xferPlugin_gtc \<Rightarrow> bool" for sha1 where
  start: "xfer_reachable sha1 [] xfer_start"
| step: "xfer_reachable sha1 asked s \<Longrightarrow> xfer_step sha1 rs s s' \<Longrightarrow> xfer_reachable sha1 (asked @ rs) s'"

inductive_cases xfer_stepE: "xfer_step sha1 rs s s'"

section \<open>Where the requests are\<close>

definition conn_waits :: "conn_entry option \<Rightarrow> chunk_req list" where
  "conn_waits e = (case e of None \<Rightarrow> [] | Some e \<Rightarrow> List.map_filter id (wait_cb e))"

definition waiting :: "xferPlugin_gtc \<Rightarrow> chunk_req multiset" where
  "waiting s = mset (concat (map conn_waits (conns s)))"

definition pending :: "xferPlugin_gtc \<Rightarrow> chunk_req multiset" where
  "pending s = mset (concat (map snd (pendingConnCache s)))"

definition call_req :: "rpc_call \<Rightarrow> chunk_req option" where
  "call_req k = (case k of ChunkCall c r offset data \<Rightarrow> Some r | _ \<Rightarrow> None)"

definition outstanding :: "xferPlugin_gtc \<Rightarrow> chunk_req multiset" where
  "outstanding s = mset (List.map_filter call_req (calls s))"

definition done_req :: "delivery \<Rightarrow> chunk_req option" where
  "done_req d = (case d of ChunkDone r res \<Rightarrow> Some r | _ \<Rightarrow> None)"

definition answered :: "xferPlugin_gtc \<Rightarrow> chunk_req multiset" where
  "answered s = mset (List.map_filter done_req (delivered s))"

definition requests :: "xferPlugin_gtc \<Rightarrow> chunk_req multiset" where
  "requests s = waiting s + pending s + outstanding s + answered s"

lemma map_filter_append: "List.map_filter f (xs @ ys) = List.map_filter f xs @ List.map_filter f ys"
  by (induction xs) (simp_all add: List.map_filter_simps split: option.split)

lemmas req_defs = requests_def waiting_def pending_def outstanding_def answered_def
lemmas filter_simps = map_filter_append List.map_filter_simps call_req_def done_req_def

lemma set_entry_simps [simp]:
  "connCache (set_entry c e s) = connCache s" "pendingConnCache (set_entry c e s) = pendingConnCache s"
  "calls (set_entry c e s) = calls s" "delivered (set_entry c e s) = delivered s"
  "connects (set_entry c e s) = connects s" "length (conns (set_entry c e s)) = length (conns s)"
  "routing_table (set_entry c e s) = routing_table s"
  by (simp_all add: set_entry_def)

lemma entry_set_entry:
  "entry (set_entry c e s) k = (if k = c \<and> c < length (conns s) then e else entry s k)"
  by (auto simp: entry_def set_entry_def)

lemma entry_update [simp]:
  "entry (s\<lparr>calls := ks\<rparr>) = entry s" "entry (s\<lparr>delivered := ds\<rparr>) = entry s"
  "entry (s\<lparr>pendingConnCache := ps\<rparr>) = entry s" "entry (s\<lparr>connects := cs\<rparr>) = entry s"
  "entry (s\<lparr>routing_table := tab\<rparr>) = entry s" "entry (s\<lparr>connCache := cc\<rparr>) = entry s"
  by (simp_all add: entry_def fun_eq_iff)

lemma entry_SomeD: "entry s c = Some e \<Longrightarrow> c < length (conns s) \<and> conns s ! c = Some e"
  by (simp add: entry_def split: if_splits)

lemma mset_concat_update:
  "c < length xs \<Longrightarrow> mset (concat (map f (xs[c := e]))) + mset (f (xs ! c)) = mset (concat (map f xs)) + mset (f e)"
proof (induction xs arbitrary: c)
  case (Cons x xs)
  then show ?case by (cases c) (simp_all add: ac_simps)
qed simp

lemma requests_set_entry:
  assumes "entry s c = Some e0"
  shows "requests (set_entry c e s) + mset (conn_waits (Some e0)) = requests s + mset (conn_waits e)"
proof -
  from entry_SomeD [OF assms] have "c < length (conns s)" "conns s ! c = Some e0" by simp_all
  with mset_concat_update [of c "conns s" conn_waits e]
  have "waiting (set_entry c e s) + mset (conn_waits (Some e0)) = waiting s + mset (conn_waits e)"
    by (simp add: waiting_def set_entry_def)
  moreover have "pending (set_entry c e s) = pending s" "outstanding (set_entry c e s) = outstanding s"
    "answered (set_entry c e s) = answered s" by (simp_all add: pending_def outstanding_def answered_def)
  ultimately show ?thesis by (simp add: requests_def ac_simps)
qed

lemma requests_same_waits:
  "entry s c = Some e0 \<Longrightarrow> wait_cb e = wait_cb e0 \<Longrightarrow> requests (set_entry c (Some e) s) = requests s"
  using requests_set_entry [of s c e0 "Some e"] by (simp add: conn_waits_def)

section \<open>Well-formed states\<close>

text \<open>A connection attempt for chunk requests and the list of those requests go together.\<close>

definition establish_key :: "string \<times> u32 \<times> connect_cb \<Rightarrow> string option" where
  "establish_key a = (case snd (snd a) of Establish key \<Rightarrow> Some key | _ \<Rightarrow> None)"

definition attempts :: "xferPlugin_gtc \<Rightarrow> string multiset" where
  "attempts s = mset (List.map_filter establish_key (connects s))"

definition xfer_wf :: "xferPlugin_gtc \<Rightarrow> bool" where
  "xfer_wf s \<longleftrightarrow> distinct (map fst (pendingConnCache s)) \<and> (\<forall>p \<in> set (pendingConnCache s). snd p \<noteq> []) \<and>
     (\<forall>c \<in> set (connCache s). entry s c \<noteq> None) \<and> attempts s = mset (map fst (pendingConnCache s))"

lemma attempts_update [simp]:
  "attempts (s\<lparr>calls := ks\<rparr>) = attempts s" "attempts (s\<lparr>delivered := ds\<rparr>) = attempts s"
  "attempts (s\<lparr>pendingConnCache := ps\<rparr>) = attempts s" "attempts (s\<lparr>routing_table := tab\<rparr>) = attempts s"
  "attempts (s\<lparr>connCache := cc\<rparr>) = attempts s" "attempts (s\<lparr>conns := es\<rparr>) = attempts s" "attempts (set_entry c e s) = attempts s"
  by (simp_all add: attempts_def)

text \<open>What taking up requests does: they are somewhere afterwards, nothing is delivered, and connections
  outside the cache are left alone.\<close>

definition takes_up :: "xferPlugin_gtc \<Rightarrow> chunk_req list \<Rightarrow> xferPlugin_gtc \<Rightarrow> bool" where
  "takes_up s rs s' \<longleftrightarrow> requests s' = requests s + mset rs \<and> xfer_wf s' \<and> connCache s' = connCache s \<and>
     delivered s' = delivered s \<and> length (conns s') = length (conns s) \<and>
     (\<forall>c. c \<notin> set (connCache s) \<longrightarrow> entry s' c = entry s c)"

lemma takes_up_trans: "takes_up s rs s1 \<Longrightarrow> takes_up s1 rs' s2 \<Longrightarrow> takes_up s (rs @ rs') s2"
  by (simp add: takes_up_def)

lemma lookup_conn_cached: "lookup_conn s key = Some c \<Longrightarrow> c \<in> set (connCache s) \<and> (\<exists>e. entry s c = Some e)"
  by (auto simp: lookup_conn_def find_Some_iff)

lemma call_chunk_on:
  assumes "call_on c (ChunkCall c r offset data) s = Go s'" and "xfer_wf s"
  shows "takes_up s [r] s'"
  using assms by (auto simp: call_on_def takes_up_def xfer_wf_def req_defs filter_simps ac_simps split: option.splits)

lemma get_chunk_int_takes_up:
  "get_chunk_int r offset data None (Some c) s = Go s' \<Longrightarrow> xfer_wf s \<Longrightarrow> takes_up s [r] s'"
  by (simp add: get_chunk_int_def call_chunk_on)

lemma pending_push:
  "key \<in> fst ` set ps \<Longrightarrow> distinct (map fst ps) \<Longrightarrow>
   mset (concat (map snd (map (\<lambda>(k, rs). (k, if k = key then rs @ [r] else rs)) ps))) =
     mset (concat (map snd ps)) + {#r#}"
proof (induction ps)
  case (Cons p ps)
  have same: "map (snd \<circ> (\<lambda>(k, rs). (k, if k = key then rs @ [r] else rs))) ps = map snd ps"
    if "key \<notin> fst ` set ps" using that by (induction ps) auto
  from Cons show ?case by (cases "fst p = key") (auto simp: same split: prod.splits)
qed simp

lemma join_pending:
  assumes "xfer_wf s" and "key \<in> fst ` set (pendingConnCache s)"
  shows "takes_up s [r] (s\<lparr>pendingConnCache :=
    map (\<lambda>(k, rs). (k, if k = key then rs @ [r] else rs)) (pendingConnCache s)\<rparr>)" (is "takes_up s [r] ?s")
proof -
  have m: "map fst (pendingConnCache ?s) = map fst (pendingConnCache s)" by (simp add: case_prod_unfold)
  have ne: "\<forall>p \<in> set (pendingConnCache ?s). snd p \<noteq> []"
    using assms(1) by (force simp: xfer_wf_def split: if_splits)
  have "xfer_wf ?s" unfolding xfer_wf_def m using assms(1) ne unfolding xfer_wf_def by simp
  moreover have "pending ?s = pending s + {#r#}"
    using pending_push [OF assms(2)] assms(1) by (simp add: pending_def xfer_wf_def)
  moreover have "waiting ?s = waiting s" "outstanding ?s = outstanding s" "answered ?s = answered s"
    by (simp_all add: waiting_def outstanding_def answered_def)
  ultimately show ?thesis by (simp add: takes_up_def requests_def)
qed

lemma open_pending:
  assumes "xfer_wf s" and "key \<notin> fst ` set (pendingConnCache s)"
  shows "takes_up s [r] (s\<lparr>pendingConnCache := (key, [r]) # pendingConnCache s,
    connects := connects s @ [(host, pt, Establish key)]\<rparr>)"
    (is "takes_up s [r] ?s")
  using assms
  by (simp add: takes_up_def xfer_wf_def req_defs attempts_def filter_simps establish_key_def)

lemma get_connection_takes_up:
  assumes "get_connection host pt r s = Go s'" and "xfer_wf s"
  shows "takes_up s [r] s'"
proof -
  define key where "key = host @ '':'' @ show_int (sint pt)"
  note conn = assms(1) [unfolded get_connection_def Let_def, folded key_def]
  show ?thesis
  proof (cases "lookup_conn s key")
    case (Some c)
    with conn assms(2) show ?thesis by (simp add: get_chunk_int_takes_up)
  next
    case None
    note lookup = this
    show ?thesis
    proof (cases "map_of (pendingConnCache s) key")
      case None
      then have "key \<notin> fst ` set (pendingConnCache s)" by (simp only: map_of_eq_None_iff not_False_eq_True)
      from open_pending [OF assms(2) this] conn lookup None show ?thesis by auto
    next
      case (Some rs)
      then have "key \<in> fst ` set (pendingConnCache s)" by (metis map_of_eq_None_iff option.discI)
      from join_pending [OF assms(2) this] conn lookup Some show ?thesis by auto
    qed
  qed
qed

lemma chunk_on_takes_up:
  assumes "chunk_on v r c s = Go s'" and "xfer_wf s" and "c \<in> set (connCache s)"
  shows "takes_up s [r] s'"
proof -
  from assms(1) obtain e where e: "entry s c = Some e" by (auto simp: chunk_on_def split: option.splits)
  then have c: "c < length (conns s)" by (simp add: entry_SomeD)
  have wf: "xfer_wf (set_entry c (Some e') s)" for e'
    using assms(2) by (auto simp: xfer_wf_def entry_set_entry)
  show ?thesis
  proof (cases "MAX_RPCS_IN_FLIGHT \<le> refcount e")
    case True
    with assms(1) e have s': "s' = set_entry c (Some (e\<lparr>wait_cb := wait_cb e @ [Some r]\<rparr>)) s"
      by (simp add: chunk_on_def)
    have "requests s' = requests s + {#r#}"
      using requests_set_entry [OF e, of "Some (e\<lparr>wait_cb := wait_cb e @ [Some r]\<rparr>)"] s'
      by (simp add: conn_waits_def filter_simps)
    with wf assms(3) s' show ?thesis by (auto simp: takes_up_def entry_set_entry)
  next
    case False
    let ?e = "e\<lparr>refcount := refcount e + 1, conn_tv := tv_now v\<rparr>"
    from False assms(1) e have "get_chunk_int r 0 [] None (Some c) (set_entry c (Some ?e) s) = Go s'"
      by (simp add: chunk_on_def)
    from get_chunk_int_takes_up [OF this wf] assms(3) show ?thesis
      by (auto simp: takes_up_def entry_set_entry requests_same_waits [OF e])
  qed
qed

lemma requests_routes [simp]: "requests (s\<lparr>routing_table := tab\<rparr>) = requests s"
  by (simp add: req_defs)

lemma wf_routes [simp]: "xfer_wf (s\<lparr>routing_table := tab\<rparr>) = xfer_wf s"
  by (simp add: xfer_wf_def)

lemma get_chunk_Go:
  assumes "get_chunk v r s = Go s'"
  shows "\<exists>h tab. (case lookup_conn (s\<lparr>routing_table := tab\<rparr>) (hint_key h) of
        None \<Rightarrow> get_connection (hostname h) (port h) r (s\<lparr>routing_table := tab\<rparr>)
      | Some c \<Rightarrow> chunk_on v r c (s\<lparr>routing_table := tab\<rparr>)) = Go s'"
proof (cases "rq_hints r")
  case Nil
  with assms show ?thesis by (simp add: get_chunk_def)
next
  case (Cons hint hs)
  with assms obtain a where "(case a of (hop, tab) \<Rightarrow> case hop of None \<Rightarrow> Fatal | Some h \<Rightarrow>
      (case lookup_conn (s\<lparr>routing_table := tab\<rparr>) (hint_key h) of
        None \<Rightarrow> get_connection (hostname h) (port h) r (s\<lparr>routing_table := tab\<rparr>)
      | Some c \<Rightarrow> chunk_on v r c (s\<lparr>routing_table := tab\<rparr>))) = Go s'"
    by (simp only: get_chunk_def andthen_Go list.case Let_def) blast
  then show ?thesis by (cases a; cases "fst a") auto
qed

lemma get_chunk_takes_up:
  assumes "get_chunk v r s = Go s'" and "xfer_wf s"
  shows "takes_up s [r] s'"
proof -
  from get_chunk_Go [OF assms(1)] obtain h tab where
    cases: "(case lookup_conn (s\<lparr>routing_table := tab\<rparr>) (hint_key h) of
        None \<Rightarrow> get_connection (hostname h) (port h) r (s\<lparr>routing_table := tab\<rparr>)
      | Some c \<Rightarrow> chunk_on v r c (s\<lparr>routing_table := tab\<rparr>)) = Go s'" by blast
  have "takes_up (s\<lparr>routing_table := tab\<rparr>) [r] s'"
  proof (cases "lookup_conn (s\<lparr>routing_table := tab\<rparr>) (hint_key h)")
    case None
    with cases assms(2) show ?thesis by (simp add: get_connection_takes_up)
  next
    case (Some c)
    with cases assms(2) lookup_conn_cached [OF Some] show ?thesis by (simp add: chunk_on_takes_up)
  qed
  then show ?thesis by (simp add: takes_up_def)
qed

lemma takes_up_refl: "xfer_wf s \<Longrightarrow> takes_up s [] s"
  by (simp add: takes_up_def)

text \<open>An operation that takes up one request takes up a list of them, one after the other.\<close>

locale request_taker =
  fixes take_one :: "chunk_req \<Rightarrow> xferPlugin_gtc \<Rightarrow> xferPlugin_gtc outcome"
  assumes take_one: "take_one r s = Go s' \<Longrightarrow> xfer_wf s \<Longrightarrow> takes_up s [r] s'"
begin

lemma take_all: "for_each take_one rs s = Go s' \<Longrightarrow> xfer_wf s \<Longrightarrow> takes_up s rs s'"
proof (induction rs arbitrary: s)
  case (Cons r rs)
  then obtain s1 where s1: "take_one r s = Go s1" "for_each take_one rs s1 = Go s'" by (auto simp: andthen_Go)
  from take_one [OF s1(1) Cons.prems(2)] have "takes_up s [r] s1" .
  moreover from this Cons.IH [OF s1(2)] have "takes_up s1 rs s'" by (simp add: takes_up_def)
  ultimately show ?case using takes_up_trans by force
qed (simp add: takes_up_refl)

lemma take_all_wf: "for_each take_one rs s = Go s' \<Longrightarrow> xfer_wf s \<Longrightarrow> xfer_wf s'"
  using take_all by (simp add: takes_up_def)

end

interpretation asking: request_taker "get_chunk v" for v
  by unfold_locales (rule get_chunk_takes_up)

interpretation calling: request_taker "\<lambda>r. get_chunk_int r offset data None (Some c)" for offset data c
  by unfold_locales (rule get_chunk_int_takes_up)

lemma get_chunks_takes_up:
  "get_chunks v dv hv cb s = Go s' \<Longrightarrow> xfer_wf s \<Longrightarrow> takes_up s (chunk_requests dv hv cb) s'"
proof (induction v dv hv cb s rule: get_chunks.induct)
  case (3 v d dv hints hv cb s)
  then obtain s1 where s1: "get_chunk v \<lparr>rq_desc = d, rq_hints = hints, rq_cb = cb\<rparr> s = Go s1"
    "get_chunks v dv hv cb s1 = Go s'" by (auto simp: andthen_Go)
  from get_chunk_takes_up [OF s1(1) "3.prems"(2)] have up: "takes_up s [\<lparr>rq_desc = d, rq_hints = hints, rq_cb = cb\<rparr>] s1" .
  with "3.IH" [OF s1(2)] have "takes_up s1 (chunk_requests dv hv cb) s'" by (simp add: takes_up_def)
  from takes_up_trans [OF up this] show ?case by simp
qed (auto simp: takes_up_refl)

section \<open>Deleting and reaping\<close>

definition keeps :: "xferPlugin_gtc \<Rightarrow> xferPlugin_gtc \<Rightarrow> bool" where
  "keeps s s' \<longleftrightarrow> requests s' = requests s \<and> xfer_wf s' \<and> delivered s' = delivered s"

lemma wf_uncached: "xfer_wf s \<Longrightarrow> xfer_wf (s\<lparr>connCache := filter P (connCache s)\<rparr>)"
  by (simp add: xfer_wf_def)

lemma requests_uncached [simp]: "requests (s\<lparr>connCache := cc\<rparr>) = requests s"
  by (simp add: req_defs)

lemma delete_conn_keeps:
  assumes "delete_conn v c s = Go s'" and "xfer_wf s"
  shows "keeps s s' \<and> entry s' c = None"
proof -
  let ?s1 = "s\<lparr>connCache := filter (\<lambda>k. k \<noteq> c) (connCache s)\<rparr>"
  from assms(1) obtain e s2 where e: "entry s c = Some e"
    and s2: "for_each (get_chunk v) (List.map_filter id (wait_cb e)) ?s1 = Go s2" and s': "s' = set_entry c None s2"
    by (auto simp: delete_conn_def andthen_Go split: option.splits)
  have "takes_up ?s1 (List.map_filter id (wait_cb e)) s2"
    by (rule asking.take_all [OF s2 wf_uncached [OF assms(2)]])
  then have up: "requests s2 = requests s + mset (List.map_filter id (wait_cb e))" "xfer_wf s2"
      "delivered s2 = delivered s" "entry s2 c = Some e" "connCache s2 = filter (\<lambda>k. k \<noteq> c) (connCache s)"
    using e by (simp_all add: takes_up_def)
  from requests_set_entry [OF up(4), of None] up(1) have "requests s' = requests s"
    by (simp add: s' conn_waits_def)
  moreover have "xfer_wf s'" using up(2,5) by (auto simp: s' xfer_wf_def entry_set_entry)
  moreover have "entry s' c = None"
    using entry_SomeD [OF up(4)] by (simp add: s' entry_set_entry)
  ultimately show ?thesis using up(3) by (simp add: keeps_def s')
qed

lemma keeps_trans: "keeps s s1 \<Longrightarrow> keeps s1 s2 \<Longrightarrow> keeps s s2"
  by (simp add: keeps_def)

lemma keeps_refl: "xfer_wf s \<Longrightarrow> keeps s s"
  by (simp add: keeps_def)

lemma reap_keeps:
  assumes "reap_conn_entries v s = Go s'" and "xfer_wf s"
  shows "keeps s s'"
proof -
  have "int_reap_conn_entries v c s1 = Go s2 \<Longrightarrow> xfer_wf s1 \<Longrightarrow> keeps s1 s2" for c s1 s2
    using delete_conn_keeps by (auto simp: int_reap_conn_entries_def keeps_refl split: option.splits if_splits)
  then have "for_each (int_reap_conn_entries v) cs s1 = Go s2 \<Longrightarrow> xfer_wf s1 \<Longrightarrow> keeps s1 s2" for cs s1 s2
    by (induction cs arbitrary: s1) (auto simp: andthen_Go keeps_refl, metis keeps_def)
  with assms show ?thesis by (simp add: reap_conn_entries_def)
qed

section \<open>Every step\<close>

text \<open>A good answer is the chunk that was asked for: its bytes have the id of the request.\<close>

definition honest :: "(bytes \<Rightarrow> bytes) \<Rightarrow> delivery \<Rightarrow> bool" where
  "honest sha1 d = (case d of
     ChunkDone r (Inr (dd, data)) \<Rightarrow> dd = rq_desc r \<and> sha1 data = desc_id dd
   | _ \<Rightarrow> True)"

definition settles :: "(bytes \<Rightarrow> bytes) \<Rightarrow> xferPlugin_gtc \<Rightarrow> chunk_req list \<Rightarrow> xferPlugin_gtc \<Rightarrow> bool" where
  "settles sha1 s rs s' \<longleftrightarrow> requests s' = requests s + mset rs \<and> xfer_wf s' \<and>
     (\<forall>d \<in> set (delivered s'). d \<in> set (delivered s) \<or> honest sha1 d)"

lemma takes_up_settles: "takes_up s rs s' \<Longrightarrow> settles sha1 s rs s'"
  by (simp add: takes_up_def settles_def)

lemma keeps_settles: "keeps s s' \<Longrightarrow> settles sha1 s [] s'"
  by (simp add: keeps_def settles_def)

lemma settles_trans: "settles sha1 s rs s1 \<Longrightarrow> settles sha1 s1 rs' s2 \<Longrightarrow> settles sha1 s (rs @ rs') s2"
  by (auto simp: settles_def)

lemma deliver_settles:
  assumes "xfer_wf s" and "honest sha1 d"
  shows "settles sha1 s (case done_req d of None \<Rightarrow> [] | Some r \<Rightarrow> [r]) (deliver d s)"
  using assms
  by (auto simp: settles_def deliver_def xfer_wf_def req_defs map_filter_append List.map_filter_simps split: option.split)

lemma settles_wf: "settles sha1 s rs s' \<Longrightarrow> xfer_wf s'"
  by (simp add: settles_def)

lemma release_keeps: "release c s = Go s' \<Longrightarrow> xfer_wf s \<Longrightarrow> keeps s s'"
  by (auto simp: release_def keeps_def requests_same_waits xfer_wf_def entry_set_entry split: option.splits)

lemma use_conn_keeps: "use_conn v c s = Go s' \<Longrightarrow> xfer_wf s \<Longrightarrow> keeps s s'"
  by (auto simp: use_conn_def keeps_def requests_same_waits xfer_wf_def entry_set_entry split: option.splits)

lemma call_on_keeps:
  "call_on c k s = Go s' \<Longrightarrow> call_req k = None \<Longrightarrow> xfer_wf s \<Longrightarrow> keeps s s'"
  by (auto simp: call_on_def keeps_def xfer_wf_def req_defs map_filter_append List.map_filter_simps split: option.splits)

lemma insert_conn_keeps: "xfer_wf s \<Longrightarrow> keeps s (insert_conn v key s)"
  by (auto simp: keeps_def insert_conn_def xfer_wf_def req_defs conn_waits_def conn_entry_new_def
      entry_def nth_append filter_simps)

lemma delete_conn_settles: "delete_conn v c s = Go s' \<Longrightarrow> xfer_wf s \<Longrightarrow> settles sha1 s [] s'"
  using delete_conn_keeps keeps_settles by blast

lemma take_waiting_filter:
  "take_waiting ws = Some (r, ws') \<Longrightarrow> List.map_filter id ws = r # List.map_filter id ws'"
  by (induction ws arbitrary: ws') (auto simp: List.map_filter_simps split: option.splits)

lemma check_outstanding_keeps:
  assumes "check_outstanding v c s = Go s'" and "xfer_wf s"
  shows "keeps s s'"
proof -
  from assms(1) obtain e where e: "entry s c = Some e" by (auto simp: check_outstanding_def split: option.splits)
  show ?thesis
  proof (cases "take_waiting (wait_cb e)")
    case None
    with assms e show ?thesis by (simp add: check_outstanding_def keeps_refl)
  next
    case (Some p)
    obtain r ws where p: "p = (r, ws)" by (cases p)
    let ?s1 = "set_entry c (Some (e\<lparr>wait_cb := ws\<rparr>)) s"
    from assms(1) e Some p have "get_chunk v r ?s1 = Go s'" by (simp add: check_outstanding_def)
    moreover have "xfer_wf ?s1" using assms(2) by (auto simp: xfer_wf_def entry_set_entry)
    ultimately have "takes_up ?s1 [r] s'" by (rule get_chunk_takes_up)
    moreover have "requests ?s1 + {#r#} = requests s"
      using requests_set_entry [OF e, of "Some (e\<lparr>wait_cb := ws\<rparr>)"] take_waiting_filter [of "wait_cb e" r ws] Some p
      by (simp add: conn_waits_def)
    ultimately show ?thesis by (simp add: takes_up_def keeps_def)
  qed
qed

lemma chunk_cb_settles:
  assumes "get_chunk_internal_cb sha1 v c r data0 reply s = Go s'" and "xfer_wf s"
  shows "settles sha1 s [r] s'"
proof (cases reply)
  case RpcErr
  with assms(1) obtain s1 where s1: "delete_conn v c s = Go s1" "s' = deliver (ChunkDone r (Inl RpcFailure)) s1"
    by (auto simp: get_chunk_internal_cb_def andthen_Go)
  from delete_conn_settles [OF s1(1) assms(2), of sha1] have st: "settles sha1 s [] s1" .
  from settles_trans [OF st deliver_settles [OF settles_wf [OF st], of sha1 "ChunkDone r (Inl RpcFailure)"]] s1(2)
  show ?thesis by (simp add: honest_def done_req_def)
next
  case (Answer a)
  show ?thesis
  proof (cases a)
    case (Inl e)
    with assms(1) Answer have "s' = deliver (ChunkDone r (Inl (PeerError e))) s"
      by (simp add: get_chunk_internal_cb_def)
    with deliver_settles [OF assms(2), of sha1 "ChunkDone r (Inl (PeerError e))"] show ?thesis
      by (simp add: honest_def done_req_def)
  next
    case (Inr res)
    let ?data = "data0 @ ch_data res"
    note cb = assms(1) [unfolded get_chunk_internal_cb_def Let_def Answer Inr, simplified]
    show ?thesis
    proof (cases "ch_end res")
      case False
      with cb have "get_chunk_int r (of_nat (length ?data)) ?data None (Some c) s = Go s'" by simp
      from get_chunk_int_takes_up [OF this assms(2)] show ?thesis by (rule takes_up_settles)
    next
      case True
      show ?thesis
      proof (cases "desc_id (rq_desc r) = compute_chunk_id sha1 ?data")
        case False
        with cb True have "s' = deliver (ChunkDone r (Inl InvalidData)) s" by simp
        with deliver_settles [OF assms(2), of sha1 "ChunkDone r (Inl InvalidData)"] show ?thesis
          by (simp add: honest_def done_req_def)
      next
        case good: True
        let ?d = "ChunkDone r (Inr (rq_desc r, ?data))"
        from cb True good obtain s1 where s1: "release c s = Go s1" "check_outstanding v c (deliver ?d s1) = Go s'"
          by (auto simp: andthen_Go)
        from release_keeps [OF s1(1) assms(2)] have k1: "keeps s s1" .
        then have wf1: "xfer_wf s1" by (simp add: keeps_def)
        have hd: "honest sha1 ?d" using good by (simp add: honest_def compute_chunk_id_def)
        from deliver_settles [OF wf1 hd] have st: "settles sha1 s1 [r] (deliver ?d s1)" by (simp add: done_req_def)
        from check_outstanding_keeps [OF s1(2) settles_wf [OF st]] have "keeps (deliver ?d s1) s'" .
        with settles_trans [OF settles_trans [OF keeps_settles [OF k1] st] keeps_settles] show ?thesis by simp
      qed
    qed
  qed
qed

lemma desc_cb_settles:
  assumes "get_desc_internal_cb v c oid hints cb reply s = Go s'" and "xfer_wf s"
  shows "settles sha1 s [] s'"
proof -
  have told: "settles sha1 s [] (deliver (DescsDone cb res) s1)" if "settles sha1 s [] s1" for res s1
    using settles_trans [OF that deliver_settles [OF settles_wf [OF that], of sha1 "DescsDone cb res"]]
    by (simp add: honest_def done_req_def)
  show ?thesis
  proof (cases reply)
    case RpcErr
    with assms(1) obtain s1 where "delete_conn v c s = Go s1" "s' = deliver (DescsDone cb (Inl RpcFailure)) s1"
      by (auto simp: get_desc_internal_cb_def andthen_Go)
    with assms(2) show ?thesis by (simp add: told delete_conn_settles)
  next
    case (Answer a)
    show ?thesis
    proof (cases a)
      case (Inl e)
      with assms Answer told [OF keeps_settles [OF keeps_refl [OF assms(2)]]] show ?thesis
        by (auto simp: get_desc_internal_cb_def)
    next
      case (Inr res)
      with assms(1) Answer obtain s1 r where s1: "(if \<not> ds_end res
          then call_on c (DescCall c oid hints cb (ds_count res + ds_offset res)) s else release c s) = Go s1"
        "s' = deliver (DescsDone cb r) s1"
        by (auto simp: get_desc_internal_cb_def get_descriptors_int_def andthen_Go split: if_splits)
      have "keeps s s1"
        using s1(1) call_on_keeps [OF _ _ assms(2)] release_keeps [OF _ assms(2)]
        by (cases "ds_end res") (simp_all add: call_req_def)
      with s1(2) show ?thesis by (simp add: told keeps_settles)
    qed
  qed
qed

lemma bitmap_cb_settles:
  assumes "get_bitmap_internal_cb v c oid cb bmp0 reply s = Go s'" and "xfer_wf s"
  shows "settles sha1 s [] s'"
proof -
  have told: "settles sha1 s [] (deliver (BitmapDone cb res) s1)" if "settles sha1 s [] s1" for res s1
    using settles_trans [OF that deliver_settles [OF settles_wf [OF that], of sha1 "BitmapDone cb res"]]
    by (simp add: honest_def done_req_def)
  have refl: "settles sha1 s [] s" by (rule keeps_settles [OF keeps_refl [OF assms(2)]])
  show ?thesis
  proof (cases reply)
    case RpcErr
    with assms(1) obtain s1 where "delete_conn v c s = Go s1" "s' = deliver (BitmapDone cb (Inl RpcFailure)) s1"
      by (auto simp: get_bitmap_internal_cb_def andthen_Go)
    with assms(2) show ?thesis by (simp add: told delete_conn_settles)
  next
    case (Answer a)
    show ?thesis
    proof (cases a)
      case (Inl e)
      with assms(1) Answer show ?thesis by (auto simp: get_bitmap_internal_cb_def told refl)
    next
      case (Inr res)
      with assms(1) Answer obtain bmp where b: "(if \<not> bm_end res
          then get_bitmap_int oid (bm_count res + bm_offset res) cb c bmp s
          else andthen (release c s) (\<lambda>s'. Go (deliver (BitmapDone cb (Inr bmp)) s'))) = Go s'"
        by (auto simp: get_bitmap_internal_cb_def andthen_Go)
      show ?thesis
      proof (cases "bm_end res")
        case True
        with b obtain s1 where "release c s = Go s1" "s' = deliver (BitmapDone cb (Inr bmp)) s1"
          by (auto simp: andthen_Go)
        with release_keeps [OF _ assms(2)] show ?thesis by (simp add: told keeps_settles)
      next
        case False
        with b have "call_on c (BitmapCall c oid cb (bm_count res + bm_offset res) bmp) s = Go s'"
          by (simp add: get_bitmap_int_def)
        from call_on_keeps [OF this _ assms(2)] show ?thesis by (simp add: keeps_settles call_req_def)
      qed
    qed
  qed
qed

lemma add_attempt_keeps:
  "xfer_wf s \<Longrightarrow> establish_key a = None \<Longrightarrow> keeps s (s\<lparr>connects := connects s @ [a]\<rparr>)"
  by (simp add: keeps_def xfer_wf_def req_defs attempts_def map_filter_append List.map_filter_simps)

lemma get_descriptors_keeps:
  assumes "get_descriptors v oid hints cb s = Go s'" and "xfer_wf s"
  shows "keeps s s'"
proof -
  from assms(1) obtain h where h: "(case lookup_conn s (hint_key h) of
      None \<Rightarrow> Go (s\<lparr>connects := connects s @ [(hostname h, port h, DescClnt oid hints cb (hint_key h))]\<rparr>)
    | Some c \<Rightarrow> andthen (use_conn v c s) (get_descriptors_int oid 0 cb hints c)) = Go s'"
    by (auto simp: get_descriptors_def andthen_Go)
  show ?thesis
  proof (cases "lookup_conn s (hint_key h)")
    case None
    with h add_attempt_keeps [OF assms(2), of "(hostname h, port h, DescClnt oid hints cb (hint_key h))"]
    show ?thesis by (auto simp: establish_key_def)
  next
    case (Some c)
    with h obtain s1 where s1: "use_conn v c s = Go s1" "call_on c (DescCall c oid hints cb 0) s1 = Go s'"
      by (auto simp: andthen_Go get_descriptors_int_def)
    from use_conn_keeps [OF s1(1) assms(2)] have k: "keeps s s1" .
    from call_on_keeps [OF s1(2)] k have "keeps s1 s'" by (simp add: keeps_def call_req_def)
    with k show ?thesis by (rule keeps_trans)
  qed
qed

lemma get_bitmap_keeps:
  assumes "get_bitmap v oid hints cb s = Go s'" and "xfer_wf s"
  shows "keeps s s'"
proof -
  from assms(1) obtain h where h: "(case lookup_conn s (hint_key h) of
      None \<Rightarrow> Go (s\<lparr>connects := connects s @ [(hostname h, port h, BitmapClnt oid cb (hint_key h))]\<rparr>)
    | Some c \<Rightarrow> (case entry s c of None \<Rightarrow> Undefined | Some e \<Rightarrow>
        if MAX_RPCS_IN_FLIGHT \<le> refcount e then Fatal
        else andthen (use_conn v c s) (get_bitmap_int oid 0 cb c []))) = Go s'"
    by (auto simp: get_bitmap_def andthen_Go)
  show ?thesis
  proof (cases "lookup_conn s (hint_key h)")
    case None
    with h add_attempt_keeps [OF assms(2), of "(hostname h, port h, BitmapClnt oid cb (hint_key h))"]
    show ?thesis by (auto simp: establish_key_def)
  next
    case (Some c)
    with h obtain s1 where s1: "use_conn v c s = Go s1" "call_on c (BitmapCall c oid cb 0 []) s1 = Go s'"
      by (auto simp: andthen_Go get_bitmap_int_def split: option.splits if_splits)
    from use_conn_keeps [OF s1(1) assms(2)] have k: "keeps s s1" .
    from call_on_keeps [OF s1(2)] k have "keeps s1 s'" by (simp add: keeps_def call_req_def)
    with k show ?thesis by (rule keeps_trans)
  qed
qed

section \<open>Established connections\<close>

lemma get_chunk_int_all:
  "for_each (\<lambda>r. get_chunk_int r 0 [] None (Some c)) rs s =
     (if rs = [] then Go s else (case entry s c of
        None \<Rightarrow> Undefined
      | Some e \<Rightarrow> Go (s\<lparr>calls := calls s @ map (\<lambda>r. ChunkCall c r 0 []) rs\<rparr>)))"
  by (induction rs arbitrary: s) (auto simp: get_chunk_int_def call_on_def split: option.split)

lemma entry_insert_conn: "entry (insert_conn v key s) (length (conns s)) = Some (conn_entry_new key (tv_now v))"
  by (simp add: entry_def insert_conn_def)

lemma pending_removed:
  "distinct (map fst ps) \<Longrightarrow> map_of ps key = Some rs \<Longrightarrow>
   mset (concat (map snd (filter (\<lambda>(k, _). k \<noteq> key) ps))) + mset rs = mset (concat (map snd ps)) \<and>
   add_mset key (mset (map fst (filter (\<lambda>(k, _). k \<noteq> key) ps))) = mset (map fst ps)"
proof (induction ps)
  case (Cons p ps)
  show ?case
  proof (cases "fst p = key")
    case True
    with Cons.prems have "key \<notin> fst ` set ps" "snd p = rs" by (cases p; simp)+
    moreover from this(1) have "filter (\<lambda>(k, _). k \<noteq> key) ps = ps" by (force simp: filter_id_conv)
    ultimately show ?thesis using True by (auto simp: case_prod_unfold)
  next
    case False
    with Cons show ?thesis by (cases p) (auto simp: ac_simps)
  qed
qed simp

lemma mset_remove_nth:
  "i < length xs \<Longrightarrow> mset (List.map_filter f xs) =
     mset (List.map_filter f (remove_nth i xs)) + mset (case f (xs ! i) of None \<Rightarrow> [] | Some y \<Rightarrow> [y])"
  by (subst id_take_nth_drop [of i xs])
    (simp_all add: remove_nth_def map_filter_append List.map_filter_simps split: option.split)

lemma attempt_taken:
  "i < length (connects s) \<Longrightarrow> attempts s = attempts (s\<lparr>connects := remove_nth i (connects s)\<rparr>) +
     mset (case establish_key (connects s ! i) of None \<Rightarrow> [] | Some key \<Rightarrow> [key])"
  using mset_remove_nth [of i "connects s" establish_key] by (simp add: attempts_def)

text \<open>In a well-formed state the entry that an attempt needs is there, with requests in it: the \<^verbatim>\<open>fatal\<close> of
  \<^verbatim>\<open>establish_connection\<close> is never reached.\<close>

lemma attempt_has_pending:
  assumes "xfer_wf s" and "i < length (connects s)" and "establish_key (connects s ! i) = Some key"
  shows "\<exists>rs. map_of (pendingConnCache s) key = Some rs \<and> rs \<noteq> []"
proof -
  have "key \<in># attempts s" using attempt_taken [OF assms(2)] assms(3) by simp
  then have "key \<in> fst ` set (pendingConnCache s)" using assms(1) by (simp add: xfer_wf_def)
  then obtain rs where rs: "map_of (pendingConnCache s) key = Some rs"
    by (metis map_of_eq_None_iff not_None_eq)
  from map_of_SomeD [OF rs] assms(1) have "rs \<noteq> []" by (force simp: xfer_wf_def)
  with rs show ?thesis by blast
qed

lemma establish_settles:
  assumes "xfer_wf s" and i: "i < length (connects s)" and key: "establish_key (connects s ! i) = Some key"
    and go: "establish_connection v key ok (s\<lparr>connects := remove_nth i (connects s)\<rparr>) = Go s'"
  shows "settles sha1 s [] s'"
proof -
  let ?s = "s\<lparr>connects := remove_nth i (connects s)\<rparr>"
  let ?ps = "filter (\<lambda>(k, _). k \<noteq> key) (pendingConnCache s)"
  from attempt_has_pending [OF assms(1) i key] obtain rs where
    rs: "map_of (pendingConnCache s) key = Some rs" "rs \<noteq> []" by blast
  have "\<not> ok \<Longrightarrow> establish_connection v key ok ?s = Undefined"
    using rs by (cases rs) (simp_all add: establish_connection_def get_chunk_int_def)
  with go have ok by (cases ok) simp_all
  with go rs entry_insert_conn [of v key ?s] have s': "s' = (insert_conn v key ?s)
      \<lparr>calls := calls s @ map (\<lambda>r. ChunkCall (length (conns s)) r 0 []) rs, pendingConnCache := ?ps\<rparr>"
    by (simp add: establish_connection_def get_chunk_int_all insert_conn_def)
  from assms(1) have "distinct (map fst (pendingConnCache s))" by (simp add: xfer_wf_def)
  note removed = pending_removed [OF this rs(1)]
  have "List.map_filter call_req (map (\<lambda>r. ChunkCall (length (conns s)) r 0 []) rs) = rs"
    by (induction rs) (simp_all add: filter_simps)
  then have out: "outstanding s' = outstanding s + mset rs"
    by (simp add: s' outstanding_def map_filter_append)
  have "waiting s' = waiting s" "answered s' = answered s"
    by (simp_all add: s' waiting_def answered_def insert_conn_def conn_waits_def conn_entry_new_def List.map_filter_simps)
  moreover have "pending s' + mset rs = pending s" using removed by (simp add: s' pending_def)
  ultimately have "requests s' = requests s" using out by (simp add: requests_def ac_simps)
  moreover have "attempts s' = mset (map fst ?ps)"
  proof -
    have "attempts s' = attempts ?s" by (simp add: s' insert_conn_def attempts_def)
    moreover have "add_mset key (attempts ?s) = attempts s" using attempt_taken [OF i] key by simp
    ultimately show ?thesis using removed assms(1) by (simp add: xfer_wf_def) (metis add_mset_add_mset_same_iff)
  qed
  then have "xfer_wf s'"
    using assms(1) by (auto simp: s' xfer_wf_def insert_conn_def entry_def nth_append distinct_map_filter)
  moreover have "delivered s' = delivered s" by (simp add: s' insert_conn_def)
  ultimately show ?thesis by (simp add: settles_def)
qed

section \<open>Reachable states\<close>

lemma connect_done_settles:
  assumes "xfer_wf s" and i: "i < length (connects s)"
    and go: "connect_done v (connects s ! i) ok (s\<lparr>connects := remove_nth i (connects s)\<rparr>) = Go s'"
  shows "settles sha1 s [] s'"
proof -
  let ?s = "s\<lparr>connects := remove_nth i (connects s)\<rparr>"
  have drop: "keeps s ?s" if "establish_key (connects s ! i) = None"
    using attempt_taken [OF i] that assms(1) by (simp add: keeps_def xfer_wf_def req_defs entry_def)
  obtain host pt cb where a: "connects s ! i = (host, pt, cb)" by (cases "connects s ! i")
  have no_conn: "settles sha1 s [] (deliver d ?s)" if "establish_key (connects s ! i) = None"
      and "done_req d = None" "honest sha1 d" for d
    using settles_trans [OF keeps_settles [OF drop [OF that(1)]] deliver_settles [OF _ that(3)]] that
      settles_wf [OF keeps_settles [OF drop [OF that(1)]]] by simp
  have conn: "settles sha1 s [] s'" if "establish_key (connects s ! i) = None"
      and "call_on c k (insert_conn v key ?s) = Go s'" "call_req k = None" for c k key
  proof -
    have "xfer_wf ?s" using drop [OF that(1)] by (simp add: keeps_def)
    note ins = insert_conn_keeps [OF this, of v key]
    have "keeps (insert_conn v key ?s) s'" using call_on_keeps [OF that(2,3)] ins by (simp add: keeps_def)
    from keeps_trans [OF keeps_trans [OF drop [OF that(1)] ins] this] show ?thesis by (rule keeps_settles)
  qed
  show ?thesis
  proof (cases cb)
    case (Establish key)
    with a go have "establish_connection v key ok ?s = Go s'" by (simp add: connect_done_def)
    with assms(1) i show ?thesis using a Establish by (intro establish_settles) (simp_all add: establish_key_def)
  next
    case (DescClnt oid hints cb key)
    with a have none: "establish_key (connects s ! i) = None" by (simp add: establish_key_def)
    with a go DescClnt show ?thesis
      by (cases ok) (auto simp: connect_done_def get_descriptors_clnt_def get_descriptors_int_def done_req_def
          honest_def call_req_def intro: no_conn conn)
  next
    case (BitmapClnt oid cb key)
    with a have none: "establish_key (connects s ! i) = None" by (simp add: establish_key_def)
    with a go BitmapClnt show ?thesis
      by (cases ok) (auto simp: connect_done_def get_bitmap_clnt_def get_bitmap_int_def done_req_def
          honest_def call_req_def intro: no_conn conn)
  qed
qed

lemma call_taken:
  "i < length (calls s) \<Longrightarrow> requests s = requests (s\<lparr>calls := remove_nth i (calls s)\<rparr>) +
     mset (case call_req (calls s ! i) of None \<Rightarrow> [] | Some r \<Rightarrow> [r])"
  using mset_remove_nth [of i "calls s" call_req] by (simp add: req_defs ac_simps)

lemma wf_calls [simp]: "xfer_wf (s\<lparr>calls := ks\<rparr>) = xfer_wf s"
  by (simp add: xfer_wf_def)

lemma step_settles: "xfer_step sha1 rs s s' \<Longrightarrow> xfer_wf s \<Longrightarrow> settles sha1 s rs s'"
proof (induction rule: xfer_step.induct)
  case (ask_chunk v r s s')
  then show ?case by (intro takes_up_settles get_chunk_takes_up)
next
  case (ask_chunks v dv hv cb s s')
  then show ?case by (intro takes_up_settles get_chunks_takes_up)
next
  case (ask_descriptors v oid hints cb s s')
  then show ?case by (intro keeps_settles get_descriptors_keeps)
next
  case (ask_bitmap v oid hints cb s s')
  then show ?case by (intro keeps_settles get_bitmap_keeps)
next
  case (connected i s v ok s')
  then show ?case by (intro connect_done_settles)
next
  case (chunk_reply i s c r offset data v rep s')
  then show ?case using chunk_cb_settles [OF chunk_reply(3), of] call_taken [OF chunk_reply(1)]
    by (simp add: settles_def call_req_def)
next
  case (descs_reply i s c oid hints cb offset v drep s')
  then show ?case using desc_cb_settles [OF descs_reply(3), of sha1] call_taken [OF descs_reply(1)]
    by (simp add: settles_def call_req_def)
next
  case (bitmap_reply i s c oid cb offset bmp v brep s')
  then show ?case using bitmap_cb_settles [OF bitmap_reply(3), of sha1] call_taken [OF bitmap_reply(1)]
    by (simp add: settles_def call_req_def)
next
  case (reap v s s')
  then show ?case by (intro keeps_settles reap_keeps)
qed

lemma reachable_settles:
  "xfer_reachable sha1 asked s \<Longrightarrow> xfer_wf s \<and> requests s = mset asked \<and> (\<forall>d \<in> set (delivered s). honest sha1 d)"
proof (induction rule: xfer_reachable.induct)
  case start
  show ?case by (simp add: xfer_start_def xfer_wf_def req_defs attempts_def List.map_filter_simps)
next
  case (step asked s rs s')
  then have "settles sha1 s rs s'" by (intro step_settles) simp_all
  with step.IH show ?case by (auto simp: settles_def)
qed

end
