(* ===== verification/XferProps.thy ===== *)
theory XferProps
  imports XferRun
begin

text \<open>
  What the reachable states of the transfer plugin (\<open>XferRun\<close>) guarantee, with a sample run of it: no request
  for a chunk is lost, a delivered chunk has the id that was asked for, and what the two ways in which a
  connection breaks do to the daemon.
\<close>

section \<open>A sample run\<close>

text \<open>Two requests to one host, for the chunks with the ids 1 and 2; the digest is the identity.\<close>

definition sample_env :: env where
  "sample_env = \<lparr>no_dot_proxy = False, route_lines =
     Some [(''Destination'', [''Gateway'']), (''10.0.0.2'', [''*'', ''255.255.255.255'', ''UH'', ''1'', ''0'', ''0'', ''wlan0''])],
     tv_now = 0\<rparr>"

definition sample_req :: "byte \<Rightarrow> chunk_req" where
  "sample_req n = \<lparr>rq_desc = \<lparr>desc_id = [n], desc_length = 1\<rparr>, rq_hints = [hint_string ''10.0.0.2'' 12000], rq_cb = 0\<rparr>"

definition sample_key :: string where
  "sample_key = ''10.0.0.2'' @ '':'' @ show_int (sint (12000 :: u32))"

definition sample_routes :: routes where
  "sample_routes = [''10.0.0.2'' \<mapsto> ''10.0.0.2'']"

definition sample_asked :: "chunk_req list \<Rightarrow> xferPlugin_gtc" where
  "sample_asked rs = xfer_start\<lparr>routing_table := sample_routes, pendingConnCache := [(sample_key, rs)],
     connects := [(''10.0.0.2'', 12000, Establish sample_key)]\<rparr>"

definition sample_called :: "chunk_req list \<Rightarrow> xferPlugin_gtc" where
  "sample_called rs = xfer_start\<lparr>routing_table := sample_routes, conns := [Some (conn_entry_new sample_key 0)],
     connCache := [0], calls := map (\<lambda>r. ChunkCall 0 r 0 []) rs\<rparr>"

lemma sample_hop:
  "tab = Map.empty \<or> tab = sample_routes \<Longrightarrow>
   get_next_hop False (route_lines sample_env) (hint_string ''10.0.0.2'' 12000) tab =
     Go (Some \<lparr>hostname = ''10.0.0.2'', port = 12000\<rparr>, sample_routes)"
  by (auto simp: get_next_hop_def parse_hint_string host_name_def setup_routing_info_def get_routing_table_def
      sample_env_def parse_config_routing_info_def routing_step_def same_word_def tolower_def
      routing_info_header_def sample_routes_def NUM_TABLE_COLUMNS_def)

lemma sample_lookup: "connCache s = [] \<Longrightarrow> lookup_conn s key = None"
  by (simp add: lookup_conn_def)

lemma sample_first: "get_chunk sample_env (sample_req a) xfer_start = Go (sample_asked [sample_req a])"
proof -
  have "no_dot_proxy sample_env = False" by (simp add: sample_env_def)
  then show ?thesis using sample_hop [of Map.empty]
    by (simp add: get_chunk_def sample_req_def xfer_start_def sample_lookup get_connection_def sample_asked_def
        sample_key_def Let_def)
qed

lemma sample_second:
  "get_chunk sample_env (sample_req b) (sample_asked [sample_req a]) = Go (sample_asked [sample_req a, sample_req b])"
proof -
  have "no_dot_proxy sample_env = False" by (simp add: sample_env_def)
  then show ?thesis using sample_hop [of sample_routes]
    by (simp add: get_chunk_def sample_req_def xfer_start_def sample_lookup get_connection_def sample_asked_def
        sample_key_def Let_def)
qed

lemma sample_connected:
  "rs \<noteq> [] \<Longrightarrow> connect_done sample_env (connects (sample_asked rs) ! 0) True
     ((sample_asked rs)\<lparr>connects := remove_nth 0 (connects (sample_asked rs))\<rparr>) = Go (sample_called rs)"
  by (simp add: connect_done_def establish_connection_def get_chunk_int_all sample_asked_def sample_called_def
      remove_nth_def insert_conn_def entry_def xfer_start_def sample_env_def conn_entry_new_def)

lemma sample_asked_reachable:
  "xfer_reachable sha1 [sample_req a] (sample_asked [sample_req a])"
  "xfer_reachable sha1 [sample_req a, sample_req b] (sample_asked [sample_req a, sample_req b])"
proof -
  show one: "xfer_reachable sha1 [sample_req a] (sample_asked [sample_req a])"
    using step [OF start ask_chunk [OF sample_first]] by simp
  show "xfer_reachable sha1 [sample_req a, sample_req b] (sample_asked [sample_req a, sample_req b])"
    using step [OF one ask_chunk [OF sample_second]] by simp
qed

lemma sample_called_reachable:
  "xfer_reachable sha1 [sample_req a, sample_req b] (sample_called [sample_req a, sample_req b])"
proof -
  have "xfer_step sha1 [] (sample_asked [sample_req a, sample_req b]) (sample_called [sample_req a, sample_req b])"
    by (rule connected [of 0 _ sample_env True]) (simp add: sample_asked_def, rule sample_connected, simp)
  from step [OF sample_asked_reachable(2) this] show ?thesis by simp
qed

definition sample_answer :: chunk_ok where
  "sample_answer = \<lparr>ch_offset = 0, ch_id = [1], ch_data = [1], ch_end = True\<rparr>"

definition sample_delivered :: xferPlugin_gtc where
  "sample_delivered = (sample_called [sample_req 2])\<lparr>
     conns := [Some ((conn_entry_new sample_key 0)\<lparr>refcount := 0\<rparr>)],
     delivered := [ChunkDone (sample_req 1) (Inr (\<lparr>desc_id = [1], desc_length = 1\<rparr>, [1]))]\<rparr>"

lemma sample_delivered_reachable:
  "xfer_reachable (\<lambda>b. b) [sample_req 1, sample_req 2] sample_delivered"
proof -
  let ?s = "sample_called [sample_req 1, sample_req 2]"
  have "xfer_step (\<lambda>b. b) [] ?s sample_delivered"
  proof (rule chunk_reply [of 0])
    show "calls ?s ! 0 = ChunkCall 0 (sample_req 1) 0 []" "0 < length (calls ?s)"
      by (simp_all add: sample_called_def)
    show "get_chunk_internal_cb (\<lambda>b. b) sample_env 0 (sample_req 1) [] (Answer (Inr sample_answer))
        (?s\<lparr>calls := remove_nth 0 (calls ?s)\<rparr>) = Go sample_delivered"
      by (simp add: get_chunk_internal_cb_def sample_answer_def compute_chunk_id_def release_def entry_def
          sample_called_def xfer_start_def set_entry_def check_outstanding_def deliver_def sample_delivered_def
          remove_nth_def conn_entry_new_def sample_req_def Let_def)
  qed
  from step [OF sample_called_reachable this] show ?thesis by simp
qed

section \<open>Properties\<close>

text \<open>C4. No request for a chunk is lost or doubled: in every state the plugin can reach, the requests it was
  given are exactly those that wait for a connection to be made, those that wait for a slot of one, those
  whose call is outstanding and those whose callback has been run, each as often as it was asked for.\<close>

theorem requests_accounted:
  assumes "xfer_reachable sha1 asked s"
  shows "mset asked = pending s + waiting s + outstanding s + answered s"
  using reachable_settles [OF assms] by (simp add: requests_def ac_simps)

lemma requests_accounted_witness:
  "mset [sample_req 1, sample_req 2] =
     pending sample_delivered + waiting sample_delivered + outstanding sample_delivered + answered sample_delivered"
  by (rule requests_accounted [OF sample_delivered_reachable])

text \<open>C8. Whatever other daemons send, a chunk that is handed to a callback is the one that was asked for: the
  digest of its bytes is the id of the request, and the request was made.\<close>

theorem chunk_integrity:
  assumes "xfer_reachable sha1 asked s" and "ChunkDone r (Inr (d, data)) \<in> set (delivered s)"
  shows "d = rq_desc r \<and> sha1 data = desc_id (rq_desc r) \<and> r \<in> set asked"
proof -
  from reachable_settles [OF assms(1)] assms(2) have "honest sha1 (ChunkDone r (Inr (d, data)))" by blast
  moreover have "r \<in> set (List.map_filter done_req (delivered s))"
    using assms(2) by (force simp: List.map_filter_def done_req_def)
  then have "r \<in># answered s" by (simp add: answered_def)
  then have "r \<in># requests s" by (simp add: requests_def)
  then have "r \<in> set asked" using reachable_settles [OF assms(1)] by (metis set_mset_mset)
  ultimately show ?thesis by (simp add: honest_def)
qed

lemma chunk_integrity_witness:
  "(\<lambda>b. b) [1] = desc_id (rq_desc (sample_req 1)) \<and> sample_req 1 \<in> set [sample_req 1, sample_req 2]"
proof -
  have "ChunkDone (sample_req 1) (Inr (\<lparr>desc_id = [1], desc_length = 1\<rparr>, [1])) \<in> set (delivered sample_delivered)"
    by (simp add: sample_delivered_def)
  from chunk_integrity [OF sample_delivered_reachable this] show ?thesis by simp
qed



text \<open>When a connection breaks with two calls outstanding on it, the first failure deletes the connection
  and the second uses it after that.\<close>

theorem second_failure_undefined:
  assumes "xfer_reachable sha1 asked s" and "calls s = ks1 @ ChunkCall c r1 o1 d1 # ks2"
    and "ChunkCall c r2 o2 d2 \<in> set (ks1 @ ks2)"
    and "get_chunk_internal_cb sha1 v c r1 d1 RpcErr (s\<lparr>calls := ks1 @ ks2\<rparr>) = Go s1"
  shows "get_chunk_internal_cb sha1 v' c r2 d2 RpcErr (s1\<lparr>calls := ks\<rparr>) = Undefined"
proof -
  from reachable_settles [OF assms(1)] have "xfer_wf (s\<lparr>calls := ks1 @ ks2\<rparr>)" by simp
  moreover from assms(4) obtain s2 where s2: "delete_conn v c (s\<lparr>calls := ks1 @ ks2\<rparr>) = Go s2"
    "s1 = deliver (ChunkDone r1 (Inl RpcFailure)) s2"
    by (auto simp: get_chunk_internal_cb_def andthen_Go)
  ultimately have "entry s2 c = None" using delete_conn_keeps [OF s2(1)] by simp
  then have "entry (s1\<lparr>calls := ks\<rparr>) c = None" by (simp add: s2(2) deliver_def)
  then show ?thesis by (simp add: get_chunk_internal_cb_def delete_conn_def)
qed

lemma second_failure_undefined_witness:
  "\<exists>s1. get_chunk_internal_cb (\<lambda>b. b) sample_env 0 (sample_req 1) [] RpcErr
       ((sample_called [sample_req 1, sample_req 2])\<lparr>calls := [ChunkCall 0 (sample_req 2) 0 []]\<rparr>) = Go s1 \<and>
     get_chunk_internal_cb (\<lambda>b. b) sample_env 0 (sample_req 2) [] RpcErr (s1\<lparr>calls := []\<rparr>) = Undefined"
proof -
  let ?s = "sample_called [sample_req 1, sample_req 2]"
  let ?s1 = "xfer_start\<lparr>routing_table := sample_routes, conns := [None], calls := [ChunkCall 0 (sample_req 2) 0 []],
    delivered := [ChunkDone (sample_req 1) (Inl RpcFailure)]\<rparr>"
  have calls: "calls ?s = [] @ ChunkCall 0 (sample_req 1) 0 [] # [ChunkCall 0 (sample_req 2) 0 []]"
    by (simp add: sample_called_def)
  have first: "get_chunk_internal_cb (\<lambda>b. b) sample_env 0 (sample_req 1) [] RpcErr
      (?s\<lparr>calls := [] @ [ChunkCall 0 (sample_req 2) 0 []]\<rparr>) = Go ?s1"
    by (simp add: get_chunk_internal_cb_def delete_conn_def entry_def sample_called_def xfer_start_def
        conn_entry_new_def List.map_filter_simps set_entry_def deliver_def)
  have "get_chunk_internal_cb (\<lambda>b. b) sample_env 0 (sample_req 2) [] RpcErr (?s1\<lparr>calls := []\<rparr>) = Undefined"
    by (rule second_failure_undefined [OF sample_called_reachable calls _ first]) simp
  with first show ?thesis by auto
qed

text \<open>A reply that is an error or has the wrong bytes keeps its slot of the connection for good: the count of
  references stays, though no call is left that would bring it down.\<close>

lemma bad_reply_keeps_slot:
  "get_chunk_internal_cb sha1 v c r data (Answer (Inl e)) s = Go s' \<Longrightarrow> entry s' = entry s"
  by (simp add: get_chunk_internal_cb_def deliver_def) auto

end
