(* ===== verification/XferTransfer.thy ===== *)
theory XferTransfer
  imports XferRun
begin

text \<open>
  Both sides of \<^verbatim>\<open>xferPlugin_gtc.cc\<close> together: the plugin of \<open>XferConn\<close> asks, the functions of
  \<open>XferServer\<close> and \<open>XferBitmap\<close> answer from a storage plugin that has what is asked for, and the network
  delivers every call and reply. A round answers the call that was made last.
\<close>

section \<open>Chunks\<close>

fun chunk_rounds :: "(bytes \<Rightarrow> bytes) \<Rightarrow> env \<Rightarrow> nat \<Rightarrow> bytes \<Rightarrow> nat \<Rightarrow> xferPlugin_gtc \<times> serve_stats \<Rightarrow>
    (xferPlugin_gtc \<times> serve_stats) outcome" where
  "chunk_rounds sha1 v send_size D 0 st = Go st"
| "chunk_rounds sha1 v send_size D (Suc n) (s, sv) = (case last (calls s) of
     ChunkCall c r offset data \<Rightarrow>
       (case remote_get_chunk_cb send_size \<lparr>ca_desc = rq_desc r, ca_offset = offset, ca_hints = rq_hints r\<rparr>
           False True (Inr (rq_desc r, D)) sv of
          (Reply rep, _, sv') \<Rightarrow>
            andthen (get_chunk_internal_cb sha1 v c r data (Answer rep) (s\<lparr>calls := butlast (calls s)\<rparr>))
              (\<lambda>s'. chunk_rounds sha1 v send_size D n (s', sv'))
        | _ \<Rightarrow> Undefined)
   | _ \<Rightarrow> Undefined)"

lemma serve_page_data:
  assumes "unat offset < length D"
  shows "\<exists>data' sv'. serve_page send_size True offset cid D sv =
    (Inr \<lparr>ch_offset = offset, ch_id = cid, ch_data = take send_size (drop (unat offset) D),
        ch_end = (length D \<le> unat offset + send_size)\<rparr>, data', sv')"
proof -
  have "take (min (length D - unat offset) send_size) (drop (unat offset) D) = take send_size (drop (unat offset) D)"
    by (simp add: min_def)
  moreover have "(if 0 < offset then drop (unat offset) D else D) = drop (unat offset) D"
    by (cases "offset = 0") (simp_all add: word_gt_0)
  ultimately show ?thesis using assms by (auto simp: serve_page_def Let_def)
qed

lemma get_chunk_cb_page:
  assumes conn: "entry s c = Some e" and wt: "wait_cb e = []" and id: "sha1 D = desc_id (rq_desc r)"
    and data: "data @ ch_data res = take m D" and fin: "ch_end res = (length D \<le> m)"
  shows "get_chunk_internal_cb sha1 v c r data (Answer (Inr res)) s =
    (if length D \<le> m
     then Go (deliver (ChunkDone r (Inr (rq_desc r, D))) (set_entry c (Some (e\<lparr>refcount := refcount e - 1\<rparr>)) s))
     else Go (s\<lparr>calls := calls s @ [ChunkCall c r (of_nat m) (take m D)]\<rparr>))"
proof -
  have c: "c < length (conns s)" using entry_SomeD [OF conn] by simp
  show ?thesis
  proof (cases "length D \<le> m")
    case True
    let ?s1 = "set_entry c (Some (e\<lparr>refcount := refcount e - 1\<rparr>)) s"
    have "entry (deliver d ?s1) c = Some (e\<lparr>refcount := refcount e - 1\<rparr>)" for d
      using c by (simp add: deliver_def entry_set_entry)
    with True data fin id conn wt show ?thesis
      by (simp add: get_chunk_internal_cb_def compute_chunk_id_def release_def check_outstanding_def Let_def)
  next
    case False
    then have "length (take m D) = m" by simp
    with False data fin conn show ?thesis
      by (simp add: get_chunk_internal_cb_def get_chunk_int_def call_on_def Let_def)
  qed
qed

lemma chunk_round:
  assumes off: "unat offset < length D" and conn: "entry s c = Some e"
    and wt: "wait_cb e = []" and id: "sha1 D = desc_id (rq_desc r)"
  shows "\<exists>sv'. \<forall>n. chunk_rounds sha1 v send_size D (Suc n)
      (s\<lparr>calls := ks @ [ChunkCall c r offset (take (unat offset) D)]\<rparr>, sv) =
    (if length D \<le> unat offset + send_size
     then chunk_rounds sha1 v send_size D n (deliver (ChunkDone r (Inr (rq_desc r, D)))
       (set_entry c (Some (e\<lparr>refcount := refcount e - 1\<rparr>)) (s\<lparr>calls := ks\<rparr>)), sv')
     else chunk_rounds sha1 v send_size D n
       (s\<lparr>calls := ks @ [ChunkCall c r (of_nat (unat offset + send_size)) (take (unat offset + send_size) D)]\<rparr>, sv'))"
proof -
  let ?res = "\<lparr>ch_offset = offset, ch_id = desc_id (rq_desc r), ch_data = take send_size (drop (unat offset) D),
      ch_end = (length D \<le> unat offset + send_size)\<rparr>"
  from serve_page_data [OF off] obtain data' sv' where
    page: "serve_page send_size True offset (desc_id (rq_desc r)) D sv = (Inr ?res, data', sv')" by blast
  have "entry (s\<lparr>calls := ks\<rparr>) c = Some e" using conn by simp
  moreover have "take (unat offset) D @ ch_data ?res = take (unat offset + send_size) D" by (simp add: take_add)
  ultimately have cb: "get_chunk_internal_cb sha1 v c r (take (unat offset) D) (Answer (Inr ?res)) (s\<lparr>calls := ks\<rparr>) =
    (if length D \<le> unat offset + send_size
     then Go (deliver (ChunkDone r (Inr (rq_desc r, D)))
       (set_entry c (Some (e\<lparr>refcount := refcount e - 1\<rparr>)) (s\<lparr>calls := ks\<rparr>)))
     else Go (s\<lparr>calls := ks @ [ChunkCall c r (of_nat (unat offset + send_size)) (take (unat offset + send_size) D)]\<rparr>))"
    using get_chunk_cb_page [of "s\<lparr>calls := ks\<rparr>" c e sha1 D r "take (unat offset) D" ?res "unat offset + send_size" v] wt id
    by simp
  show ?thesis
  proof (intro exI [of _ sv'] allI)
    fix n
    have "chunk_rounds sha1 v send_size D (Suc n)
        (s\<lparr>calls := ks @ [ChunkCall c r offset (take (unat offset) D)]\<rparr>, sv) =
      andthen (get_chunk_internal_cb sha1 v c r (take (unat offset) D) (Answer (Inr ?res)) (s\<lparr>calls := ks\<rparr>))
        (\<lambda>s'. chunk_rounds sha1 v send_size D n (s', sv'))"
      using page by (simp add: remote_get_chunk_cb_def)
    then show "chunk_rounds sha1 v send_size D (Suc n)
        (s\<lparr>calls := ks @ [ChunkCall c r offset (take (unat offset) D)]\<rparr>, sv) =
      (if length D \<le> unat offset + send_size
       then chunk_rounds sha1 v send_size D n (deliver (ChunkDone r (Inr (rq_desc r, D)))
         (set_entry c (Some (e\<lparr>refcount := refcount e - 1\<rparr>)) (s\<lparr>calls := ks\<rparr>)), sv')
       else chunk_rounds sha1 v send_size D n
         (s\<lparr>calls := ks @ [ChunkCall c r (of_nat (unat offset + send_size)) (take (unat offset + send_size) D)]\<rparr>, sv'))"
      unfolding cb by simp
  qed
qed

lemma chunk_rounds_from:
  assumes "0 < send_size" and len: "length D < 2 ^ 32" and conn: "entry s c = Some e"
    and wt: "wait_cb e = []" and id: "sha1 D = desc_id (rq_desc r)"
  shows "unat offset < length D \<Longrightarrow> m = length D - unat offset \<Longrightarrow>
    \<exists>n sv'. chunk_rounds sha1 v send_size D n
      (s\<lparr>calls := ks @ [ChunkCall c r offset (take (unat offset) D)]\<rparr>, sv) =
    Go (deliver (ChunkDone r (Inr (rq_desc r, D)))
       (set_entry c (Some (e\<lparr>refcount := refcount e - 1\<rparr>)) (s\<lparr>calls := ks\<rparr>)), sv') \<and>
    m \<le> n * send_size \<and> n * send_size < m + send_size"
proof (induction m arbitrary: offset sv rule: less_induct)
  case (less m)
  let ?st = "(s\<lparr>calls := ks @ [ChunkCall c r offset (take (unat offset) D)]\<rparr>, sv)"
  let ?goal = "deliver (ChunkDone r (Inr (rq_desc r, D)))
       (set_entry c (Some (e\<lparr>refcount := refcount e - 1\<rparr>)) (s\<lparr>calls := ks\<rparr>))"
  from chunk_round [of offset D s c e sha1 r v send_size ks sv] less.prems(1) conn wt id obtain sv1 where
    round: "chunk_rounds sha1 v send_size D (Suc n) ?st =
      (if length D \<le> unat offset + send_size then chunk_rounds sha1 v send_size D n (?goal, sv1)
       else chunk_rounds sha1 v send_size D n
         (s\<lparr>calls := ks @ [ChunkCall c r (of_nat (unat offset + send_size)) (take (unat offset + send_size) D)]\<rparr>, sv1))"
    for n by blast
  show ?case
  proof (cases "length D \<le> unat offset + send_size")
    case True
    then have "chunk_rounds sha1 v send_size D (Suc 0) ?st = Go (?goal, sv1)" using round [of 0] by simp
    then show ?thesis using True less.prems assms(1) by (intro exI [of _ "Suc 0"] exI [of _ sv1]) auto
  next
    case False
    let ?o = "of_nat (unat offset + send_size) :: u32"
    have o: "unat ?o = unat offset + send_size"
      using False len by (simp only: unat_of_nat) (simp add: mod_less)
    have "length D - unat ?o < m" "unat ?o < length D" using False less.prems assms(1) o by simp_all
    from less.IH [OF this refl, of sv1] obtain n sv' where
      "chunk_rounds sha1 v send_size D n (s\<lparr>calls := ks @ [ChunkCall c r ?o (take (unat ?o) D)]\<rparr>, sv1) = Go (?goal, sv')"
      and n: "length D - unat ?o \<le> n * send_size" "n * send_size < length D - unat ?o + send_size" by blast
    with round [of n] False o have "chunk_rounds sha1 v send_size D (Suc n) ?st = Go (?goal, sv')" by simp
    moreover have "m \<le> Suc n * send_size" "Suc n * send_size < m + send_size"
      using n o False less.prems(2) by simp_all
    ultimately show ?thesis by blast
  qed
qed

section \<open>Descriptors\<close>

fun desc_rounds :: "env \<Rightarrow> nat \<Rightarrow> dot_descriptor list \<Rightarrow> nat \<Rightarrow> xferPlugin_gtc \<Rightarrow> xferPlugin_gtc outcome" where
  "desc_rounds v send_size descs 0 s = Go s"
| "desc_rounds v send_size descs (Suc n) s = (case last (calls s) of
     DescCall c oid hints cb offset \<Rightarrow>
       andthen (get_desc_internal_cb v c oid hints cb
           (Answer (remote_get_descriptors_cb send_size offset (Inr descs))) (s\<lparr>calls := butlast (calls s)\<rparr>))
         (desc_rounds v send_size descs n)
   | _ \<Rightarrow> Undefined)"

definition deliver_pages :: "nat \<Rightarrow> (dot_descriptor list \<times> bool) list \<Rightarrow> xferPlugin_gtc \<Rightarrow> xferPlugin_gtc" where
  "deliver_pages cb ps s = s\<lparr>delivered := delivered s @ map (\<lambda>p. DescsDone cb (Inr p)) ps\<rparr>"

lemma desc_round:
  assumes off: "offset = 0 \<or> unat offset < length descs" and len: "length descs < 2 ^ 32"
    and conn: "entry s c = Some e" and k_def: "k = unat (max_descs send_size)" and o'_def: "o' = unat offset"
  shows "desc_rounds v send_size descs (Suc n) (s\<lparr>calls := ks @ [DescCall c oid hints cb offset]\<rparr>) =
    (if length descs - o' \<le> k
     then desc_rounds v send_size descs n (deliver_pages cb [(drop o' descs, True)]
       (set_entry c (Some (e\<lparr>refcount := refcount e - 1\<rparr>)) (s\<lparr>calls := ks\<rparr>)))
     else desc_rounds v send_size descs n (deliver_pages cb [(slice descs o' k, False)]
       (s\<lparr>calls := ks @ [DescCall c oid hints cb (of_nat (o' + k))]\<rparr>)))"
proof -
  define w where "w = (of_nat (length descs - unat offset) :: u32)"
  have rest: "unat w = length descs - o'"
    unfolding w_def o'_def using len by (simp only: unat_of_nat) (simp add: mod_less)
  have numd: "unat (min w (max_descs send_size)) = min (length descs - o') k"
    by (simp add: min_def word_le_nat_alt rest k_def)
  have ok: "\<not> (0 < offset \<and> length descs \<le> unat offset)" using off by auto
  have sl: "slice descs o' (min (length descs - o') k) = (if length descs - o' \<le> k then drop o' descs else slice descs o' k)"
    by (simp add: slice_def min_def)
  have len_sl: "length (slice descs o' (min (length descs - o') k)) = min (length descs - o') k"
    by (simp add: slice_def)
  have following: "min w (max_descs send_size) + offset = of_nat (o' + k)" if "\<not> length descs - o' \<le> k"
  proof -
    have "min w (max_descs send_size) = max_descs send_size"
      using that by (simp add: min_def word_le_nat_alt rest k_def)
    then show ?thesis by (simp add: o'_def k_def)
  qed
  have reply: "remote_get_descriptors_cb send_size offset (Inr descs) =
      Inr \<lparr>ds_offset = offset, ds_count = min w (max_descs send_size),
        ds_descriptors = slice descs o' (min (length descs - o') k), ds_end = (length descs - o' \<le> k)\<rparr>"
    by (simp only: remote_get_descriptors_cb_def sum.case Let_def ok if_False numd [symmetric] w_def [symmetric])
      (simp only: o'_def k_def)
  have c: "c < length (conns s)" using entry_SomeD [OF conn] by simp
  show ?thesis
  proof (cases "length descs - o' \<le> k")
    case True
    then show ?thesis using numd sl len_sl conn c
      by (simp add: reply get_desc_internal_cb_def release_def deliver_def deliver_pages_def)
  next
    case False
    then show ?thesis using numd sl len_sl conn c following [OF False]
      by (simp add: reply get_desc_internal_cb_def get_descriptors_int_def call_on_def deliver_def deliver_pages_def)
  qed
qed

lemma deliver_pages_append: "deliver_pages cb qs (deliver_pages cb ps s) = deliver_pages cb (ps @ qs) s"
  by (simp add: deliver_pages_def)

lemma deliver_pages_calls: "(deliver_pages cb ps s)\<lparr>calls := ks\<rparr> = deliver_pages cb ps (s\<lparr>calls := ks\<rparr>)"
  by (simp add: deliver_pages_def)

lemma deliver_pages_entry: "set_entry c e (deliver_pages cb ps s) = deliver_pages cb ps (set_entry c e s)"
  by (simp add: deliver_pages_def set_entry_def)

lemma desc_rounds_from:
  assumes k: "0 < unat (max_descs send_size)" and len: "length descs < 2 ^ 32"
  shows "offset = 0 \<or> unat offset < length descs \<Longrightarrow> m = length descs - unat offset \<Longrightarrow>
    entry s c = Some e \<Longrightarrow>
    \<exists>n pages. desc_rounds v send_size descs (Suc n) (s\<lparr>calls := ks @ [DescCall c oid hints cb offset]\<rparr>) =
      Go (deliver_pages cb pages (set_entry c (Some (e\<lparr>refcount := refcount e - 1\<rparr>)) (s\<lparr>calls := ks\<rparr>))) \<and>
    concat (map fst pages) = drop (unat offset) descs \<and> map snd pages = replicate n False @ [True]"
proof (induction m arbitrary: offset s rule: less_induct)
  case (less m)
  let ?k = "unat (max_descs send_size)" and ?o = "unat offset"
  let ?st = "s\<lparr>calls := ks @ [DescCall c oid hints cb offset]\<rparr>"
  note round = desc_round [OF less.prems(1) len less.prems(3) refl refl, of v send_size _ ks oid hints cb]
  show ?case
  proof (cases "length descs - ?o \<le> ?k")
    case True
    then show ?thesis using round [of 0]
      by (intro exI [of _ 0] exI [of _ "[(drop ?o descs, True)]"]) simp
  next
    case False
    let ?o' = "of_nat (?o + ?k) :: u32"
    have o: "unat ?o' = ?o + ?k" using False len by (simp only: unat_of_nat) (simp add: mod_less)
    have m: "length descs - unat ?o' < m" "unat ?o' < length descs"
      unfolding o using False less.prems(2) k by linarith+
    let ?s1 = "deliver_pages cb [(slice descs ?o ?k, False)] s"
    have e1: "entry ?s1 c = Some e" using less.prems(3) by (simp add: deliver_pages_def)
    from less.IH [OF m(1) disjI2 [OF m(2)] refl e1] obtain n pages where
      rest: "desc_rounds v send_size descs (Suc n) (?s1\<lparr>calls := ks @ [DescCall c oid hints cb ?o']\<rparr>) =
        Go (deliver_pages cb pages (set_entry c (Some (e\<lparr>refcount := refcount e - 1\<rparr>)) (?s1\<lparr>calls := ks\<rparr>)))"
      and pages: "concat (map fst pages) = drop (unat ?o') descs" "map snd pages = replicate n False @ [True]" by blast
    have "slice descs ?o ?k @ drop (unat ?o') descs = drop ?o descs"
      unfolding o slice_def using append_take_drop_id [of ?k "drop ?o descs"] by (simp add: add.commute)
    then show ?thesis using False round [of "Suc n"] rest pages
      by (intro exI [of _ "Suc n"] exI [of _ "(slice descs ?o ?k, False) # pages"])
        (simp add: deliver_pages_append deliver_pages_calls deliver_pages_entry del: desc_rounds.simps)
  qed
qed

section \<open>Bitmaps\<close>

fun bitmap_rounds :: "env \<Rightarrow> nat \<Rightarrow> bool list \<Rightarrow> nat \<Rightarrow> xferPlugin_gtc \<Rightarrow> xferPlugin_gtc outcome" where
  "bitmap_rounds v send_size bits 0 s = Go s"
| "bitmap_rounds v send_size bits (Suc n) s = (case last (calls s) of
     BitmapCall c oid cb offset bmp \<Rightarrow>
       (case remote_get_bitmap_cb send_size offset None bits of
          None \<Rightarrow> Undefined
        | Some rep \<Rightarrow>
            andthen (get_bitmap_internal_cb v c oid cb bmp (Answer rep) (s\<lparr>calls := butlast (calls s)\<rparr>))
              (bitmap_rounds v send_size bits n))
   | _ \<Rightarrow> Undefined)"

lemma page_sum:
  "unat (bm_offset r) + unat (bm_count r) < 2 ^ 32 \<Longrightarrow>
   unat (bm_count r + bm_offset r) = unat (bm_offset r) + unat (bm_count r)"
  using unat_add_of_nat32 [of "bm_offset r" "unat (bm_count r)"]
  by (simp add: add.commute)

lemma take_page:
  assumes "convert_to_bitvec (bm_bmp r) (unat (bm_count r)) = Some bs" and "length bs = unat (bm_count r)"
    and "unat (bm_offset r) + unat (bm_count r) < 2 ^ 32"
  shows "\<exists>bmp'. take_bitmap_page r bmp = Some bmp'"
    and "bm_offset r = 0 \<Longrightarrow> take_bitmap_page r [] = Some bs"
proof -
  note sum = page_sum [OF assms(3)]
  have copy: "copy_bits bs (bm_offset r) (zsetsize (unat (bm_count r + bm_offset r)) bmp) =
      Some (take (unat (bm_offset r)) (zsetsize (unat (bm_count r + bm_offset r)) bmp) @ bs @
        drop (unat (bm_offset r) + length bs) (zsetsize (unat (bm_count r + bm_offset r)) bmp))" for bmp
    using assms(2,3) sum by (intro copy_bits_page) (simp_all add: zsetsize_def)
  show "\<exists>bmp'. take_bitmap_page r bmp = Some bmp'"
    unfolding take_bitmap_page_def assms(1) using copy by simp
  show "take_bitmap_page r [] = Some bs" if "bm_offset r = 0"
    unfolding take_bitmap_page_def assms(1) using copy [of "[]"] that assms(2) sum by (simp add: zsetsize_def)
qed

text \<open>Short bitmaps: one page.\<close>

lemma bitmap_one_page:
  assumes ss: "0 < send_size div 2" "send_size div 2 * 8 < 2 ^ 32" and n: "length bits \<le> send_size div 2 * 8"
    and conn: "entry s c = Some e"
  shows "bitmap_rounds v send_size bits 1 (s\<lparr>calls := ks @ [BitmapCall c oid cb 0 []]\<rparr>) =
    Go (deliver (BitmapDone cb (Inr bits)) (set_entry c (Some (e\<lparr>refcount := refcount e - 1\<rparr>)) (s\<lparr>calls := ks\<rparr>)))"
proof -
  have len: "length bits < 2 ^ 32" using n ss(2) by linarith
  from remote_page [OF len _ _ ss(2) ss(1), of 0] obtain r where
    r: "remote_get_bitmap_cb send_size 0 None bits = Some (Inr r)" "bm_offset r = 0"
      "unat (bm_count r) = min (send_size div 2 * 8) (length bits)" "bm_end r"
      "convert_to_bitvec (bm_bmp r) (unat (bm_count r)) = Some (slice bits 0 (unat (bm_count r)))"
    using n by auto
  have cnt: "unat (bm_count r) = length bits" using r(3) n by simp
  have "take_bitmap_page r [] = Some bits"
    using take_page(2) [OF r(5)] cnt len r(2) by (simp add: slice_full)
  moreover have "c < length (conns s)" using entry_SomeD [OF conn] by simp
  ultimately show ?thesis using r(1,4) conn
    by (simp add: get_bitmap_internal_cb_def release_def deliver_def)
qed

text \<open>Longer bitmaps: some later page is refused.\<close>

lemma bitmap_refused:
  assumes ss: "0 < send_size div 2" "send_size div 2 * 8 < 2 ^ 32" and len: "length bits < 2 ^ 32"
    and long: "send_size div 2 * 8 < length bits" and conn: "entry s c = Some e"
  shows "unat offset = q * (send_size div 2 * 8) \<Longrightarrow> unat offset < length bits \<Longrightarrow> m = length bits - unat offset \<Longrightarrow>
    \<exists>n. bitmap_rounds v send_size bits n (s\<lparr>calls := ks @ [BitmapCall c oid cb offset bmp]\<rparr>) =
      Go (deliver (BitmapDone cb (Inl (PeerError ''Too large offset for GET_BITMAP''))) (s\<lparr>calls := ks\<rparr>))"
proof (induction m arbitrary: offset q bmp rule: less_induct)
  case (less m)
  let ?max = "send_size div 2 * 8"
  let ?st = "s\<lparr>calls := ks @ [BitmapCall c oid cb offset bmp]\<rparr>"
  show ?case
  proof (cases "0 < offset \<and> nbytes_of (length bits) \<le> unat offset")
    case True
    then have "bitmap_rounds v send_size bits 1 ?st =
        Go (deliver (BitmapDone cb (Inl (PeerError ''Too large offset for GET_BITMAP''))) (s\<lparr>calls := ks\<rparr>))"
      by (simp add: remote_get_bitmap_cb_def length_convert_from Let_def get_bitmap_internal_cb_def)
    then show ?thesis by blast
  next
    case False
    then have off: "unat offset < nbytes_of (length bits) \<or> offset = 0" by (auto simp: word_gt_0)
    have o8: "unat offset mod 8 = 0" unfolding less.prems(1) by simp
    have later: "?max < length bits - unat offset"
    proof (cases "q = 0")
      case True
      then show ?thesis using long less.prems(1) by simp
    next
      case q: False
      then have "?max \<le> unat offset" unfolding less.prems(1) by simp
      moreover have "0 < ?max" using ss(1) by linarith
      ultimately have pos: "0 < unat offset" by linarith
      then have "offset \<noteq> 0" by auto
      with off have "unat offset < (length bits + 7) div 8" by (simp add: nbytes_of_alt)
      then have "8 * unat offset < length bits + 7" by linarith
      moreover have "8 \<le> ?max" using ss(1) by linarith
      ultimately show ?thesis using \<open>?max \<le> unat offset\<close> by linarith
    qed
    from remote_page [OF len o8 off ss(2) ss(1)] later obtain r where
      r: "remote_get_bitmap_cb send_size offset None bits = Some (Inr r)" "bm_offset r = offset"
        "unat (bm_count r) = ?max" "\<not> bm_end r"
        "convert_to_bitvec (bm_bmp r) (unat (bm_count r)) = Some (slice bits (unat offset) (unat (bm_count r)))"
      by auto
    have fits: "unat (bm_offset r) + unat (bm_count r) < 2 ^ 32" using r(2,3) later len by simp
    have "length (slice bits (unat offset) (unat (bm_count r))) = unat (bm_count r)"
      using r(3) later by (intro length_slice) simp
    from take_page(1) [OF r(5) this fits] obtain bmp' where bmp': "take_bitmap_page r bmp = Some bmp'" by blast
    let ?o = "bm_count r + bm_offset r"
    have o: "unat ?o = unat offset + ?max"
      using page_sum [OF fits] r(2,3) by simp
    have round: "bitmap_rounds v send_size bits (Suc n) ?st =
        bitmap_rounds v send_size bits n (s\<lparr>calls := ks @ [BitmapCall c oid cb ?o bmp']\<rparr>)" for n
      using r(1,4) bmp' conn by (simp add: get_bitmap_internal_cb_def get_bitmap_int_def call_on_def)
    have "unat ?o = Suc q * ?max" using o less.prems(1) by simp
    moreover have "unat ?o < length bits" "length bits - unat ?o < m" using o later less.prems(3) ss(1) by simp_all
    ultimately obtain n where "bitmap_rounds v send_size bits n (s\<lparr>calls := ks @ [BitmapCall c oid cb ?o bmp']\<rparr>) =
        Go (deliver (BitmapDone cb (Inl (PeerError ''Too large offset for GET_BITMAP''))) (s\<lparr>calls := ks\<rparr>))"
      using less.IH by blast
    with round [of n] show ?thesis by metis
  qed
qed

section \<open>Properties\<close>


definition one_conn :: xferPlugin_gtc where
  "one_conn = xfer_start\<lparr>conns := [Some (conn_entry_new ''10.0.0.2:12000'' 0)], connCache := [0]\<rparr>"

definition one_env :: env where
  "one_env = \<lparr>no_dot_proxy = False, route_lines = None, tv_now = 0\<rparr>"

definition one_req :: chunk_req where
  "one_req = \<lparr>rq_desc = \<lparr>desc_id = [1, 2, 3], desc_length = 3\<rparr>, rq_hints = [], rq_cb = 0\<rparr>"

definition no_stats :: serve_stats where
  "no_stats = \<lparr>statCache = Map.empty, numChunksServed = 0, numBytesOfChunksServed = 0\<rparr>"

lemma one_conn_entry: "entry one_conn 0 = Some (conn_entry_new ''10.0.0.2:12000'' 0)"
  "calls one_conn = []" "delivered one_conn = []"
  by (simp_all add: one_conn_def entry_def xfer_start_def)


text \<open>C28. Descriptors arrive in pages: for every list of descriptors the callback is run once per page, the pages
  put together are the list, only the last is marked as the last, and the connection has its slot back.\<close>

theorem descriptor_pages_complete:
  assumes "0 < unat (max_descs send_size)" and "length descs < 2 ^ 32" and "entry s c = Some e"
  shows "\<exists>n s' pages. desc_rounds v send_size descs (Suc n) (s\<lparr>calls := calls s @ [DescCall c oid hints cb 0]\<rparr>) = Go s' \<and>
    delivered s' = delivered s @ map (\<lambda>p. DescsDone cb (Inr p)) pages \<and> concat (map fst pages) = descs \<and>
    map snd pages = replicate n False @ [True] \<and> calls s' = calls s \<and>
    entry s' c = Some (e\<lparr>refcount := refcount e - 1\<rparr>)"
proof -
  have "(0 :: u32) = 0 \<or> unat (0 :: u32) < length descs" by simp
  from desc_rounds_from [OF assms(1,2) this refl assms(3), of v "calls s" oid hints cb] obtain n pages where
    n: "desc_rounds v send_size descs (Suc n) (s\<lparr>calls := calls s @ [DescCall c oid hints cb 0]\<rparr>) =
      Go (deliver_pages cb pages (set_entry c (Some (e\<lparr>refcount := refcount e - 1\<rparr>)) (s\<lparr>calls := calls s\<rparr>)))"
      "concat (map fst pages) = descs" "map snd pages = replicate n False @ [True]" by auto
  have "c < length (conns s)" using entry_SomeD [OF assms(3)] by simp
  then have "entry (deliver_pages cb pages (set_entry c (Some (e\<lparr>refcount := refcount e - 1\<rparr>)) (s\<lparr>calls := calls s\<rparr>))) c =
      Some (e\<lparr>refcount := refcount e - 1\<rparr>)" by (simp add: deliver_pages_def entry_set_entry)
  with n show ?thesis
    by (intro exI [of _ n] exI [of _ pages] exI) (auto simp: deliver_pages_def simp del: desc_rounds.simps)
qed

lemma descriptor_pages_complete_witness:
  "\<exists>n s' pages. desc_rounds one_env 160 [rq_desc one_req, \<lparr>desc_id = [7], desc_length = 1\<rparr>] (Suc n)
      (one_conn\<lparr>calls := [DescCall 0 [1] [] 5 0]\<rparr>) = Go s' \<and>
    concat (map fst pages) = [rq_desc one_req, \<lparr>desc_id = [7], desc_length = 1\<rparr>] \<and>
    map snd pages = replicate n False @ [True]"
proof -
  have "0 < unat (max_descs 160)" by (simp add: max_descs_def EVP_MAX_MD_SIZE_def)
  moreover have "length [rq_desc one_req, \<lparr>desc_id = [7], desc_length = 1\<rparr>] < 2 ^ 32" by simp
  ultimately show ?thesis
    using descriptor_pages_complete [OF _ _ one_conn_entry(1), of 160 _ one_env "[1]" "[]" 5]
    by (simp only: one_conn_entry append_Nil) blast
qed

text \<open>C29. A bitmap arrives exactly when it fits one page. Up to \<^verbatim>\<open>SEND_SIZE / 2 * 8\<close> bits it is delivered as it
  is; a longer one never is: the offset of a later page counts bits and is checked against the number of
  bytes, so that page is refused, and the connection does not get its slot back.\<close>

theorem bitmap_transfer_one_page:
  assumes "0 < send_size div 2" and "send_size div 2 * 8 < 2 ^ 32" and "length bits < 2 ^ 32"
    and "entry s c = Some e"
  shows "\<exists>n s'. bitmap_rounds v send_size bits n (s\<lparr>calls := calls s @ [BitmapCall c oid cb 0 []]\<rparr>) = Go s' \<and>
    calls s' = calls s \<and>
    delivered s' = delivered s @ [BitmapDone cb (if length bits \<le> send_size div 2 * 8 then Inr bits
      else Inl (PeerError ''Too large offset for GET_BITMAP''))] \<and>
    entry s' c = Some (if length bits \<le> send_size div 2 * 8 then e\<lparr>refcount := refcount e - 1\<rparr> else e)"
proof (cases "length bits \<le> send_size div 2 * 8")
  case True
  have "c < length (conns s)" using entry_SomeD [OF assms(4)] by simp
  with True bitmap_one_page [OF assms(1,2) True assms(4), of v "calls s" oid cb] show ?thesis
    by (intro exI [of _ 1] exI) (auto simp: deliver_def entry_set_entry)
next
  case False
  then have "unat (0 :: u32) = 0 * (send_size div 2 * 8)" "unat (0 :: u32) < length bits" by (simp, auto)
  from bitmap_refused [OF assms(1-3) _ assms(4) this refl, of v "calls s" oid cb "[]"] False obtain n where
    "bitmap_rounds v send_size bits n (s\<lparr>calls := calls s @ [BitmapCall c oid cb 0 []]\<rparr>) =
      Go (deliver (BitmapDone cb (Inl (PeerError ''Too large offset for GET_BITMAP''))) (s\<lparr>calls := calls s\<rparr>))"
    by auto
  with False assms(4) show ?thesis by (intro exI [of _ n] exI) (auto simp: deliver_def)
qed

lemma bitmap_transfer_one_page_witness:
  "\<exists>n s'. bitmap_rounds one_env 2 (replicate 9 True) n (one_conn\<lparr>calls := [BitmapCall 0 [1] 5 0 []]\<rparr>) = Go s' \<and>
    delivered s' = [BitmapDone 5 (Inl (PeerError ''Too large offset for GET_BITMAP''))]"
  using bitmap_transfer_one_page [OF _ _ _ one_conn_entry(1), of 2 "replicate 9 True" one_env "[1]" 5]
  by (auto simp: one_conn_entry)

end
