(* ===== verification/IdealSniff.thy ===== *)
theory IdealSniff
  imports HandleIp
begin

text \<open>
  \<^verbatim>\<open>src/ideal-sniffer\<close>: the variant of the sniffer that also knows which chunks were transferred, to
  tell how many of them it could put together. Its \<^verbatim>\<open>SniffTcp.cc\<close> differs from the sniffer's: a flow
  lists chunk ids only, start and length of a chunk are looked up in the chunk itself; a chunk has
  a flag \<^verbatim>\<open>chunk_done\<close> and a pointer \<^verbatim>\<open>oracle_data\<close>; the search through the flow list enters the
  chunks it finds into the chunk map.

  The chunk is the sniffer's record extended with the two fields. The files of the directory that
  are copies of the sniffer's (blocks, flow ids, byte extraction) are the theories of the
  sniffer, used here. The last section holds the state of the sniffer that a state of this program
  stands for.
\<close>

section \<open>Chunks\<close>

text \<open>\<^verbatim>\<open>oracle_data\<close> is not initialised by the constructors: \<open>None\<close> is a pointer never assigned.\<close>

record IdealChunk = ReconstructedChunk +
  chunk_done :: bool
  oracle_data :: "ContiguousBlock option"

definition IdealChunk_new :: "bytes \<Rightarrow> int \<Rightarrow> IdealChunk" where
  "IdealChunk_new p_cid len = \<lparr>p_chunk_id = p_cid, lcb = [], rc_length = len,
     flow_seq_map = Map.empty, uniquely_contributing_flows = Map.empty,
     chunk_done = False, oracle_data = None\<rparr>"

definition IdealChunk_copy :: "IdealChunk \<Rightarrow> IdealChunk" where
  "IdealChunk_copy c = \<lparr>p_chunk_id = p_chunk_id c, lcb = lcb c, rc_length = rc_length c,
     flow_seq_map = flow_seq_map c, uniquely_contributing_flows = uniquely_contributing_flows c,
     chunk_done = False, oracle_data = None\<rparr>"

definition fill_oracle_data :: "ContiguousBlock \<Rightarrow> IdealChunk \<Rightarrow> IdealChunk" where
  "fill_oracle_data b rc = rc\<lparr>oracle_data := Some b\<rparr>"

text \<open>The part of a chunk that both programs have; \<^verbatim>\<open>fill_gaps_in_chunk\<close> and \<^verbatim>\<open>get_data\<close> work on it.\<close>

abbreviation base :: "IdealChunk \<Rightarrow> ReconstructedChunk" where
  "base \<equiv> ReconstructedChunk.truncate"

definition IdealChunk_fill_gaps :: "string \<Rightarrow> cptr \<Rightarrow> int \<Rightarrow> tcp_seq \<Rightarrow> IdealChunk \<Rightarrow> u64 \<Rightarrow>
    (bool \<times> IdealChunk \<times> u64) option" where
  "IdealChunk_fill_gaps fid payload size_payload seq_num rc dup = do {
     (b_chunk_done, rc', dup') \<leftarrow> fill_gaps_in_chunk fid payload size_payload seq_num (base rc) dup;
     Some (b_chunk_done, ReconstructedChunk.extend rc' (ReconstructedChunk.more rc), dup')
   }"

section \<open>State\<close>

record IdealSniff =
  i_flow_list :: "flow_entry list"
  i_flow_chunk_map :: "string \<rightharpoonup> bytes list"
  i_rc_map :: "bytes \<rightharpoonup> IdealChunk"
  i_numChunksSniffed :: int
  i_numPacketsCaptured :: int
  i_numTcpPacketsCaptured :: int
  i_numBytesOfTcpPacketsCaptured :: u64
  i_numBytesOfChunksSniffed :: u64
  i_numDuplicateBytes :: u64
  i_multi_chances :: bool
  i_sent :: "bytes list"

definition IdealSniff_new :: "bool \<Rightarrow> IdealSniff" where
  "IdealSniff_new multi = \<lparr>i_flow_list = [], i_flow_chunk_map = Map.empty, i_rc_map = Map.empty,
     i_numChunksSniffed = 0, i_numPacketsCaptured = 0, i_numTcpPacketsCaptured = 0,
     i_numBytesOfTcpPacketsCaptured = 0, i_numBytesOfChunksSniffed = 0, i_numDuplicateBytes = 0,
     i_multi_chances = multi, i_sent = []\<rparr>"

section \<open>Flow list and plugin\<close>

definition ideal_get_flow_offset :: "FlowId \<Rightarrow> IdealSniff \<Rightarrow> int" where
  "ideal_get_flow_offset fid s = flow_offset_from 0 fid (i_flow_list s)"

definition ideal_insert :: "FlowId \<Rightarrow> cptr \<Rightarrow> int \<Rightarrow> tcp_seq \<Rightarrow> IdealSniff \<Rightarrow>
    (edit \<times> IdealSniff) option" where
  "ideal_insert fid payload size_payload seq_num s =
     (let flow_offset = ideal_get_flow_offset fid s
      in if 0 \<le> flow_offset then do {
           let (f, p_lcb) = i_flow_list s ! nat flow_offset;
           (e, p_lcb') \<leftarrow> insert_loop payload size_payload seq_num 0 p_lcb;
           Some (e, s\<lparr>i_flow_list := (i_flow_list s)[nat flow_offset := (f, p_lcb')]\<rparr>)
         }
         else do {
           p_cb \<leftarrow> cb_append payload size_payload seq_num ContiguousBlock_new;
           Some (NoEdit, s\<lparr>i_flow_list := i_flow_list s @ [(fid, [p_cb])]\<rparr>)
         })"

definition ideal_send_chunk :: "cptr \<Rightarrow> IdealSniff \<Rightarrow> IdealSniff option" where
  "ideal_send_chunk rpc_buffer s = do {
     r \<leftarrow> extract_chunk_response rpc_buffer;
     (case r of
        None \<Rightarrow> Some s
      | Some chunk_res \<Rightarrow> do {
          arg_data \<leftarrow> load (chunk_data_base chunk_res) 0 (uint (chunk_data_len chunk_res));
          Some (s\<lparr>i_numChunksSniffed := i_numChunksSniffed s + 1,
                  i_numBytesOfChunksSniffed := i_numBytesOfChunksSniffed s + of_nat (length arg_data),
                  i_sent := i_sent s @ [arg_data]\<rparr>)
        })
   }"

section \<open>Filling chunks\<close>

definition ideal_fill_gaps :: "bytes \<Rightarrow> FlowId \<Rightarrow> string \<Rightarrow> cptr \<Rightarrow> int \<Rightarrow> tcp_seq \<Rightarrow> IdealSniff \<Rightarrow>
    (bool \<times> edit \<times> IdealSniff) option" where
  "ideal_fill_gaps cid fid fidstr payload size_payload seq_num s = do {
     rc \<leftarrow> i_rc_map s cid;
     (case flow_seq_map rc fidstr of
        None \<Rightarrow> Some (False, NoEdit, s)
      | Some starting_seq_num \<Rightarrow> do {
          let diff = chunk_excess seq_num size_payload starting_seq_num (rc_length rc);
          (e, s1) \<leftarrow> (if 0 < diff
                     then ideal_insert fid (padd payload (size_payload - diff)) diff
                            (seq_num + word_of_int size_payload - word_of_int diff) s
                     else Some (NoEdit, s));
          (b_chunk_done, rc', dup) \<leftarrow>
            IdealChunk_fill_gaps fidstr payload (size_payload - diff) seq_num rc
              (i_numDuplicateBytes s1);
          Some (b_chunk_done, e,
            s1\<lparr>i_rc_map := (i_rc_map s1)(cid \<mapsto> rc'), i_numDuplicateBytes := dup\<rparr>)
        })
   }"

text \<open>\<^verbatim>\<open>if (b_chunk_done)\<close>: the chunk is marked, then sent.\<close>

definition ideal_send_if_done :: "bytes \<Rightarrow> bool \<Rightarrow> IdealSniff \<Rightarrow> IdealSniff option" where
  "ideal_send_if_done cid b_chunk_done s =
     (if b_chunk_done then do {
        rc \<leftarrow> i_rc_map s cid;
        p_data \<leftarrow> get_data (base rc);
        ideal_send_chunk p_data (s\<lparr>i_rc_map := (i_rc_map s)(cid \<mapsto> rc\<lparr>chunk_done := True\<rparr>)\<rparr>)
      }
      else Some s)"

text \<open>The map's \<^verbatim>\<open>operator[]\<close>: a flow the chunk does not know gets an entry with start 0.\<close>

definition start_in :: "string \<Rightarrow> IdealChunk \<Rightarrow> tcp_seq" where
  "start_in fidstr rc = (case flow_seq_map rc fidstr of None \<Rightarrow> 0 | Some v \<Rightarrow> v)"

definition touch_start :: "bytes \<Rightarrow> string \<Rightarrow> IdealChunk \<Rightarrow> IdealSniff \<Rightarrow> IdealSniff" where
  "touch_start cid fidstr rc s = s\<lparr>i_rc_map := (i_rc_map s)
     (cid \<mapsto> rc\<lparr>flow_seq_map := (flow_seq_map rc)(fidstr \<mapsto> start_in fidstr rc)\<rparr>)\<rparr>"

text \<open>\<^verbatim>\<open>deal_with_pkt_without_chunkid\<close>: ids the chunk map does not hold are passed over.\<close>

fun ideal_deal_pkt_loop :: "FlowId \<Rightarrow> string \<Rightarrow> cptr \<Rightarrow> int \<Rightarrow> tcp_seq \<Rightarrow> bytes list \<Rightarrow> IdealSniff \<Rightarrow>
    IdealSniff option" where
  "ideal_deal_pkt_loop fid fidstr payload size_payload seq_num [] s =
     map_option snd (ideal_insert fid payload size_payload seq_num s)"
| "ideal_deal_pkt_loop fid fidstr payload size_payload seq_num (ci # cis) s =
     (case i_rc_map s ci of
        None \<Rightarrow> ideal_deal_pkt_loop fid fidstr payload size_payload seq_num cis s
      | Some rc \<Rightarrow>
          let starting_seq_number = start_in fidstr rc; s1 = touch_start ci fidstr rc s
          in if starting_seq_number < seq_num \<and>
                seq_num < starting_seq_number + word_of_int (rc_length rc) then do {
               (b_chunk_done, e, s2) \<leftarrow>
                 ideal_fill_gaps ci fid fidstr payload size_payload seq_num s1;
               ideal_send_if_done ci b_chunk_done s2
             }
             else ideal_deal_pkt_loop fid fidstr payload size_payload seq_num cis s1)"

definition ideal_deal_with_pkt :: "FlowId \<Rightarrow> string \<Rightarrow> cptr \<Rightarrow> int \<Rightarrow> tcp_seq \<Rightarrow> IdealSniff \<Rightarrow>
    IdealSniff option" where
  "ideal_deal_with_pkt fid fidstr payload size_payload seq_num s =
     (case i_flow_chunk_map s fidstr of
        None \<Rightarrow> Some s
      | Some cis \<Rightarrow> ideal_deal_pkt_loop fid fidstr payload size_payload seq_num cis s)"

section \<open>Candidates for a new chunk\<close>

definition ideal_blocks_of :: "nat \<Rightarrow> IdealSniff \<Rightarrow> ContiguousBlock list" where
  "ideal_blocks_of off s = snd (i_flow_list s ! off)"

definition ideal_erase_block :: "nat \<Rightarrow> nat \<Rightarrow> IdealSniff \<Rightarrow> IdealSniff" where
  "ideal_erase_block off k s = s\<lparr>i_flow_list := (i_flow_list s)
     [off := (fst (i_flow_list s ! off), erase_at k (snd (i_flow_list s ! off)))]\<rparr>"

definition ideal_take_candidate :: "bytes \<Rightarrow> FlowId \<Rightarrow> string \<Rightarrow> nat \<Rightarrow> nat \<Rightarrow> IdealSniff \<Rightarrow>
    (nat \<times> IdealSniff) option" where
  "ideal_take_candidate cid fid fidstr off k s = do {
     let b = ideal_blocks_of off s ! k;
     (b_chunk_done, e, s1) \<leftarrow> ideal_fill_gaps cid fid fidstr (c_str (p_s_contiguous_block b))
       (int_of_size (length (p_s_contiguous_block b))) (starting_seq_number b) s;
     s2 \<leftarrow> ideal_send_if_done cid b_chunk_done s1;
     k' \<leftarrow> adjust e k;
     Some (k', ideal_erase_block off k' s2)
   }"

fun ideal_deal_loop :: "nat \<Rightarrow> bytes \<Rightarrow> FlowId \<Rightarrow> string \<Rightarrow> tcp_seq \<Rightarrow> int \<Rightarrow> nat \<Rightarrow> nat \<Rightarrow>
    IdealSniff \<Rightarrow> IdealSniff option" where
  "ideal_deal_loop 0 cid fid fidstr start len off k s = None"
| "ideal_deal_loop (Suc n) cid fid fidstr start len off k s =
     (if k < length (ideal_blocks_of off s) then
        if is_candidate start len (ideal_blocks_of off s ! k) then do {
          (k', s') \<leftarrow> ideal_take_candidate cid fid fidstr off k s;
          ideal_deal_loop n cid fid fidstr start len off k' s'
        }
        else ideal_deal_loop n cid fid fidstr start len off (Suc k) s
      else Some s)"

text \<open>The fuel is the sniffer's, which is enough (\<open>candidates_loop_ends\<close>): the loop runs in step with
  the sniffer's.\<close>

definition ideal_deal_fuel :: "nat \<Rightarrow> IdealSniff \<Rightarrow> nat" where
  "ideal_deal_fuel off s = 3 * length (ideal_blocks_of off s) + 1"

definition ideal_deal_with_candidates :: "bytes \<Rightarrow> FlowId \<Rightarrow> string \<Rightarrow> IdealSniff \<Rightarrow>
    IdealSniff option" where
  "ideal_deal_with_candidates cid fid fidstr s = do {
     rc \<leftarrow> i_rc_map s cid;
     let s1 = touch_start cid fidstr rc s;
     let flow_offset = ideal_get_flow_offset fid s1;
     if 0 \<le> flow_offset then
       ideal_deal_loop (ideal_deal_fuel (nat flow_offset) s1) cid fid fidstr (start_in fidstr rc)
         (rc_length rc) (nat flow_offset) 0 s1
     else Some s1
   }"

section \<open>Packets\<close>

definition ideal_unseen_chunk :: "bytes \<Rightarrow> FlowId \<Rightarrow> string \<Rightarrow> cptr \<Rightarrow> int \<Rightarrow> tcp_seq \<Rightarrow> IdealSniff \<Rightarrow>
    IdealSniff option" where
  "ideal_unseen_chunk p_cid fid fidstr payload size_payload seq_num s = do {
     chunk_len \<leftarrow> get_length_from_byte_stream payload;
     let p_rc = (IdealChunk_new p_cid chunk_len)\<lparr>flow_seq_map := [fidstr \<mapsto> seq_num]\<rparr>;
     let s1 = s\<lparr>i_rc_map := (i_rc_map s)(p_cid \<mapsto> p_rc)\<rparr>;
     (b_chunk_done, e, s2) \<leftarrow> ideal_fill_gaps p_cid fid fidstr payload size_payload seq_num s1;
     s3 \<leftarrow> ideal_send_if_done p_cid b_chunk_done s2;
     ideal_deal_with_candidates p_cid fid fidstr s3
   }"

definition ideal_seen_chunk :: "bytes \<Rightarrow> IdealChunk \<Rightarrow> FlowId \<Rightarrow> string \<Rightarrow> cptr \<Rightarrow> int \<Rightarrow> tcp_seq \<Rightarrow>
    IdealSniff \<Rightarrow> IdealSniff option" where
  "ideal_seen_chunk p_cid rc fid fidstr payload size_payload seq_num s = do {
     let rc1 = rc\<lparr>flow_seq_map := (flow_seq_map rc)(fidstr \<mapsto> seq_num)\<rparr>;
     let s1 = s\<lparr>i_rc_map := (i_rc_map s)(p_cid \<mapsto> rc1)\<rparr>;
     (b_chunk_done, e, s2) \<leftarrow> ideal_fill_gaps p_cid fid fidstr payload size_payload seq_num s1;
     ideal_send_if_done p_cid b_chunk_done s2
   }"

definition ideal_new_flow_packet :: "FlowId \<Rightarrow> string \<Rightarrow> cptr \<Rightarrow> int \<Rightarrow> tcp_seq \<Rightarrow> IdealSniff \<Rightarrow>
    IdealSniff option" where
  "ideal_new_flow_packet fid fidstr payload size_payload seq_num s = do {
     p_cid_offset_pair \<leftarrow> getChunkId payload size_payload;
     (case p_cid_offset_pair of
        None \<Rightarrow> map_option snd (ideal_insert fid payload size_payload seq_num s)
      | Some (p_cid, chunk_offset) \<Rightarrow> do {
          (payload, size_payload, seq_num, s1) \<leftarrow>
            (if 0 < chunk_offset then do {
               (e, s1) \<leftarrow> ideal_insert fid payload chunk_offset seq_num s;
               Some (padd payload chunk_offset, size_payload - chunk_offset,
                     seq_num + word_of_int chunk_offset, s1)
             }
             else Some (payload, size_payload, seq_num, s));
          let s2 = s1\<lparr>i_flow_chunk_map := (i_flow_chunk_map s1)(fidstr \<mapsto> [p_cid])\<rparr>;
          (case i_rc_map s2 p_cid of
             None \<Rightarrow> ideal_unseen_chunk p_cid fid fidstr payload size_payload seq_num s2
           | Some rc \<Rightarrow> ideal_seen_chunk p_cid rc fid fidstr payload size_payload seq_num s2)
        })
   }"

definition ideal_list_chunk :: "bytes \<Rightarrow> string \<Rightarrow> IdealSniff \<Rightarrow> IdealSniff option" where
  "ideal_list_chunk p_cid fidstr s = do {
     cis \<leftarrow> i_flow_chunk_map s fidstr;
     Some (if p_cid \<in> set cis then s
           else s\<lparr>i_flow_chunk_map := (i_flow_chunk_map s)(fidstr \<mapsto> cis @ [p_cid])\<rparr>)
   }"

definition ideal_old_flow_packet :: "FlowId \<Rightarrow> string \<Rightarrow> cptr \<Rightarrow> int \<Rightarrow> tcp_seq \<Rightarrow> IdealSniff \<Rightarrow>
    IdealSniff option" where
  "ideal_old_flow_packet fid fidstr payload size_payload seq_num s = do {
     p_cid_offset_pair \<leftarrow> getChunkId payload size_payload;
     (case p_cid_offset_pair of
        None \<Rightarrow> ideal_deal_with_pkt fid fidstr payload size_payload seq_num s
      | Some (p_cid, chunk_offset) \<Rightarrow> do {
          (payload, size_payload, seq_num, s1) \<leftarrow>
            (if 0 < chunk_offset then do {
               s1 \<leftarrow> ideal_deal_with_pkt fid fidstr payload chunk_offset seq_num s;
               Some (padd payload chunk_offset, size_payload - chunk_offset,
                     seq_num + word_of_int chunk_offset, s1)
             }
             else Some (payload, size_payload, seq_num, s));
          s2 \<leftarrow> ideal_list_chunk p_cid fidstr s1;
          (case i_rc_map s2 p_cid of
             None \<Rightarrow> ideal_unseen_chunk p_cid fid fidstr payload size_payload seq_num s2
           | Some rc \<Rightarrow> ideal_seen_chunk p_cid rc fid fidstr payload size_payload seq_num s2)
        })
   }"

definition ideal_tcp_payload :: "FlowId \<Rightarrow> cptr \<Rightarrow> int \<Rightarrow> tcp_seq \<Rightarrow> IdealSniff \<Rightarrow>
    IdealSniff option" where
  "ideal_tcp_payload fid payload size_payload seq_num s =
     (let fidstr = toString fid
      in if \<not> i_multi_chances s
         then map_option snd (ideal_insert fid payload size_payload seq_num s)
         else case i_flow_chunk_map s fidstr of
                None \<Rightarrow> ideal_new_flow_packet fid fidstr payload size_payload seq_num s
              | Some _ \<Rightarrow> ideal_old_flow_packet fid fidstr payload size_payload seq_num s)"

definition ideal_handle_tcp :: "cptr \<Rightarrow> int \<Rightarrow> int \<Rightarrow> IdealSniff \<Rightarrow> IdealSniff option" where
  "ideal_handle_tcp ip ip_hlen ip_len s = do {
     let tcp = padd ip ip_hlen;
     offx2 \<leftarrow> load8 tcp 12;
     let size_tcp_header = uint (TH_OFF offx2) * 4;
     if size_tcp_header < 20 then Some s
     else do {
       let payload = padd ip (ip_hlen + size_tcp_header);
       let size_payload = ip_len - (ip_hlen + size_tcp_header);
       if 0 < size_payload then do {
         let s1 = s\<lparr>i_numTcpPacketsCaptured := i_numTcpPacketsCaptured s + 1,
                    i_numBytesOfTcpPacketsCaptured :=
                      i_numBytesOfTcpPacketsCaptured s + word_of_int size_payload\<rparr>;
         src_ip \<leftarrow> load ip 12 4;
         dst_ip \<leftarrow> load ip 16 4;
         seq_num \<leftarrow> EXTRACT_32BITS tcp 4;
         th_sport \<leftarrow> EXTRACT_16BITS tcp 0;
         th_dport \<leftarrow> EXTRACT_16BITS tcp 2;
         let fid = FlowId_new (inet_ntoa src_ip) (inet_ntoa dst_ip) (ucast th_sport) (ucast th_dport);
         ideal_tcp_payload fid payload size_payload seq_num s1
       }
       else Some s
     }
   }"

definition ideal_handle_ip :: "int \<Rightarrow> cptr \<Rightarrow> IdealSniff \<Rightarrow> IdealSniff option" where
  "ideal_handle_ip len ip_packet s =
     (if len < 20 then Some s
      else do {
        ip_len \<leftarrow> EXTRACT_16BITS ip_packet 2;
        ip_vhl \<leftarrow> load8 ip_packet 0;
        let ip_hlen = uint (IP_HL ip_vhl) * 4;
        if IP_V ip_vhl \<noteq> 4 then Some s
        else if ip_hlen < 20 then Some s
        else if len < uint ip_len then Some s
        else do {
          off \<leftarrow> EXTRACT_16BITS ip_packet 6;
          ip_p \<leftarrow> load8 ip_packet 9;
          if ip_p \<noteq> IPPROTO_TCP then Some s
          else ideal_handle_tcp ip_packet ip_hlen (uint ip_len) s
        }
      })"

definition ideal_callback_ethernet :: "bytes \<Rightarrow> IdealSniff \<Rightarrow> IdealSniff option" where
  "ideal_callback_ethernet packet s = do {
     type \<leftarrow> handle_ethernet packet;
     if type = ETHERTYPE_IP
     then ideal_handle_ip (int (length packet) - ETHER_HDRLEN) (padd (packet, 0) ETHER_HDRLEN) s
     else Some s
   }"

primrec ideal_dispatch :: "bytes list \<Rightarrow> IdealSniff \<Rightarrow> IdealSniff option" where
  "ideal_dispatch [] s = Some s"
| "ideal_dispatch (pkt # pkts) s = do {
     s1 \<leftarrow> ideal_callback_ethernet pkt s;
     ideal_dispatch pkts s1
   }"

end
