(* ===== verification/IdealRefine.thy ===== *)
theory IdealRefine
  imports IdealSniff
begin

text \<open>
  The two sniffers side by side. \<open>same_state i s\<close>: the state \<open>i\<close> of \<^verbatim>\<open>src/ideal-sniffer\<close> and the
  state \<open>s\<close> of \<^verbatim>\<open>src/sniffer\<close> hold the same flows, chunks, counters and chunks sent. Every
  operation of one runs in step with the other's; only a packet without a chunk id is placed by
  different data, the current start and length of the chunk here, a copy made when the flow first
  announced it there. While the copies are up to date (\<open>infos_current\<close>) the programs agree.
\<close>

section \<open>The relation\<close>

lemma rel_option_bind:
  "rel_option R x y \<Longrightarrow> (\<And>a b. R a b \<Longrightarrow> rel_option S (f a) (g b)) \<Longrightarrow>
   rel_option S (Option.bind x f) (Option.bind y g)"
  by (cases x; cases y) simp_all

lemma rel_option_bind_same:
  "(\<And>a. x = Some a \<Longrightarrow> rel_option S (f a) (g a)) \<Longrightarrow>
   rel_option S (Option.bind x f) (Option.bind x g)"
  by (cases x) simp_all

lemma rel_option_map_snd: "rel_option (rel_prod A R) x y \<Longrightarrow> rel_option R (map_option snd x) (map_option snd y)"
  by (cases x; cases y) auto

definition same_state :: "IdealSniff \<Rightarrow> SniffTcp \<Rightarrow> bool" where
  "same_state i s \<longleftrightarrow> p_flow_list s = i_flow_list i \<and>
     (\<forall>f. map_option (map chunk_id) (flow_chunk_map s f) = i_flow_chunk_map i f) \<and>
     rc_map s = map_option base \<circ> i_rc_map i \<and>
     numChunksSniffed s = i_numChunksSniffed i \<and> numPacketsCaptured s = i_numPacketsCaptured i \<and>
     numTcpPacketsCaptured s = i_numTcpPacketsCaptured i \<and>
     numBytesOfTcpPacketsCaptured s = i_numBytesOfTcpPacketsCaptured i \<and>
     numBytesOfChunksSniffed s = i_numBytesOfChunksSniffed i \<and>
     numDuplicateBytes s = i_numDuplicateBytes i \<and> g_multi_chances s = i_multi_chances i \<and>
     sent s = i_sent i"

definition infos_current :: "SniffTcp \<Rightarrow> bool" where
  "infos_current s \<longleftrightarrow> (\<forall>f cis. flow_chunk_map s f = Some cis \<longrightarrow>
     (\<forall>ci \<in> set cis. \<exists>rc. rc_map s (chunk_id ci) = Some rc \<and>
        flow_seq_map rc f = Some (s_seq_num ci) \<and> rc_length rc = chunk_length ci))"

lemma base_simps [simp]:
  "flow_seq_map (base rc) = flow_seq_map rc" "rc_length (base rc) = rc_length rc"
  "lcb (base rc) = lcb rc" "p_chunk_id (base rc) = p_chunk_id rc"
  "base (rc\<lparr>chunk_done := d\<rparr>) = base rc" "base (rc\<lparr>oracle_data := d2\<rparr>) = base rc"
  "base (rc\<lparr>flow_seq_map := m\<rparr>) = (base rc)\<lparr>flow_seq_map := m\<rparr>"
  "base (ReconstructedChunk.extend r x) = r"
  "base (IdealChunk_new cid len) = ReconstructedChunk_new cid len"
  by (simp_all add: ReconstructedChunk.truncate_def ReconstructedChunk.extend_def
      IdealChunk_new_def ReconstructedChunk_new_def)

lemma same_state_new: "same_state (IdealSniff_new multi) (SniffTcp_new multi)"
  by (simp add: same_state_def IdealSniff_new_def SniffTcp_new_def fun_eq_iff)

lemma same_state_rc: "same_state i s \<Longrightarrow> rc_map s cid = map_option base (i_rc_map i cid)"
  by (simp add: same_state_def)

lemma same_state_upd:
  "same_state i s \<Longrightarrow> base rc = rc' \<Longrightarrow>
   same_state (i\<lparr>i_rc_map := (i_rc_map i)(cid \<mapsto> rc)\<rparr>) (s\<lparr>rc_map := (rc_map s)(cid \<mapsto> rc')\<rparr>)"
  by (simp add: same_state_def)

lemma same_state_mark:
  "same_state i s \<Longrightarrow> i_rc_map i cid = Some rc \<Longrightarrow> base rc' = base rc \<Longrightarrow>
   same_state (i\<lparr>i_rc_map := (i_rc_map i)(cid \<mapsto> rc')\<rparr>) s"
  by (simp add: same_state_def fun_eq_iff)

lemma same_offset: "same_state i s \<Longrightarrow> get_flow_offset fid s = ideal_get_flow_offset fid i"
  by (simp add: same_state_def get_flow_offset_def ideal_get_flow_offset_def)

section \<open>The operations in step\<close>

lemma insert_same:
  assumes "same_state i s"
  shows "rel_option (rel_prod (=) same_state) (ideal_insert fid p sz seq i)
    (SniffTcp_insert fid p sz seq s)"
proof -
  from assms have fl: "p_flow_list s = i_flow_list i" by (simp add: same_state_def)
  show ?thesis
    unfolding ideal_insert_def SniffTcp_insert_def Let_def same_offset [OF assms] fl
    using assms by (auto intro!: rel_option_bind_same simp: same_state_def split: prod.split)
qed

lemma send_same:
  assumes "same_state i s"
  shows "rel_option same_state (ideal_send_chunk p i) (send_chunk_to_sniffer_plugin p s)"
  unfolding ideal_send_chunk_def send_chunk_to_sniffer_plugin_def
  using assms by (auto intro!: rel_option_bind_same simp: same_state_def split: option.split)

lemma fill_same:
  assumes "same_state i s"
  shows "rel_option (rel_prod (=) (rel_prod (=) same_state)) (ideal_fill_gaps cid fid fs p sz seq i)
    (SniffTcp_fill_gaps cid fid fs p sz seq s)"
proof (cases "i_rc_map i cid")
  case None
  with same_state_rc [OF assms] show ?thesis
    by (simp add: ideal_fill_gaps_def SniffTcp_fill_gaps_def)
next
  case (Some rc)
  have rc: "rc_map s cid = Some (base rc)" using same_state_rc [OF assms] Some by simp
  show ?thesis
  proof (cases "flow_seq_map rc fs")
    case None
    with Some rc assms show ?thesis by (simp add: ideal_fill_gaps_def SniffTcp_fill_gaps_def)
  next
    case start: (Some start)
    let ?d = "chunk_excess seq sz start (rc_length rc)"
    have 1: "rel_option (rel_prod (=) same_state)
      (if 0 < ?d then ideal_insert fid (padd p (sz - ?d)) ?d
         (seq + word_of_int sz - word_of_int ?d) i else Some (NoEdit, i))
      (if 0 < ?d then SniffTcp_insert fid (padd p (sz - ?d)) ?d
         (seq + word_of_int sz - word_of_int ?d) s else Some (NoEdit, s))"
      using insert_same [OF assms] assms by simp
    have 2: "rel_option (rel_prod (=) (rel_prod (=) same_state))
      (do { (b, rc', dup) \<leftarrow> IdealChunk_fill_gaps fs p (sz - ?d) seq rc (i_numDuplicateBytes i1);
         Some (b, e, i1\<lparr>i_rc_map := (i_rc_map i1)(cid \<mapsto> rc'), i_numDuplicateBytes := dup\<rparr>) })
      (do { (b, rc', dup) \<leftarrow> fill_gaps_in_chunk fs p (sz - ?d) seq (base rc) (numDuplicateBytes s1);
         Some (b, e, s1\<lparr>rc_map := (rc_map s1)(cid \<mapsto> rc'), numDuplicateBytes := dup\<rparr>) })"
      if "same_state i1 s1" for e i1 s1
    proof -
      from that have d: "i_numDuplicateBytes i1 = numDuplicateBytes s1" by (simp add: same_state_def)
      from that show ?thesis
        unfolding IdealChunk_fill_gaps_def d
        by (cases "fill_gaps_in_chunk fs p (sz - ?d) seq (base rc) (numDuplicateBytes s1)")
           (auto simp: same_state_def)
    qed
    show ?thesis
      unfolding ideal_fill_gaps_def SniffTcp_fill_gaps_def Some rc
      by (simp only: Option.bind.simps base_simps start option.case Let_def)
         (rule rel_option_bind [OF 1], use 2 in auto)
  qed
qed

lemma send_if_done_same:
  assumes "same_state i s"
  shows "rel_option same_state (ideal_send_if_done cid d i) (send_if_done cid d s)"
proof (cases "d \<and> i_rc_map i cid \<noteq> None")
  case True
  then obtain rc where rc: "i_rc_map i cid = Some rc" by blast
  note m = same_state_mark [OF assms rc, of "rc\<lparr>chunk_done := True\<rparr>"]
  show ?thesis using True rc same_state_rc [OF assms, of cid]
    by (auto simp: ideal_send_if_done_def send_if_done_def intro!: rel_option_bind_same send_same m)
next
  case False
  with assms same_state_rc [OF assms, of cid] show ?thesis
    by (auto simp: ideal_send_if_done_def send_if_done_def)
qed

lemma touch_same:
  assumes "same_state i s" and "i_rc_map i cid = Some rc"
  shows "same_state (touch_start cid fs rc i)
    (s\<lparr>rc_map := (rc_map s)(cid \<mapsto> (base rc)\<lparr>flow_seq_map := (flow_seq_map rc)(fs \<mapsto> start_in fs rc)\<rparr>)\<rparr>)"
  unfolding touch_start_def by (rule same_state_upd [OF assms(1)]) simp

lemma take_candidate_same:
  assumes "same_state i s"
  shows "rel_option (\<lambda>(k, i') (d, k', s'). k = k' \<and> same_state i' s')
    (ideal_take_candidate cid fid fs off k i) (take_candidate cid fid fs off k s)"
proof -
  from assms have b: "blocks_of off s = ideal_blocks_of off i"
    by (simp add: same_state_def blocks_of_def ideal_blocks_of_def)
  show ?thesis
    unfolding ideal_take_candidate_def take_candidate_def Let_def b
    by (rule rel_option_bind [OF fill_same [OF assms]], clarsimp,
        rule rel_option_bind, erule send_if_done_same, rule rel_option_bind_same)
       (auto simp: same_state_def ideal_erase_block_def erase_block_def)
qed

lemma deal_loop_same:
  "same_state i s \<Longrightarrow> rel_option (\<lambda>i' (d, s'). same_state i' s')
    (ideal_deal_loop n cid fid fs start len off k i) (deal_loop n cid fid fs start len off k b s)"
proof (induction n arbitrary: i s k b)
  case (Suc n)
  from Suc.prems have b: "blocks_of off s = ideal_blocks_of off i"
    by (simp add: same_state_def blocks_of_def ideal_blocks_of_def)
  have "rel_option (\<lambda>i' (d, s'). same_state i' s')
    (do { (k', i') \<leftarrow> ideal_take_candidate cid fid fs off k i;
          ideal_deal_loop n cid fid fs start len off k' i' })
    (do { (d, k', s') \<leftarrow> take_candidate cid fid fs off k s;
          deal_loop n cid fid fs start len off k' (b \<or> d) s' })"
    by (rule rel_option_bind [OF take_candidate_same [OF Suc.prems]]) (auto intro: Suc.IH)
  with Suc.IH [OF Suc.prems] Suc.prems show ?case by (simp add: b)
qed simp

lemma deal_with_candidates_same:
  assumes "same_state i s"
  shows "rel_option (\<lambda>i' (d, s'). same_state i' s')
    (ideal_deal_with_candidates cid fid fs i) (deal_with_candidates_for_chunk cid fid fs s)"
proof (cases "i_rc_map i cid")
  case None
  with same_state_rc [OF assms] show ?thesis
    by (simp add: ideal_deal_with_candidates_def deal_with_candidates_for_chunk_def)
next
  case (Some rc)
  note t = touch_same [OF assms Some, of fs]
  let ?i = "touch_start cid fs rc i"
  let ?s = "s\<lparr>rc_map := (rc_map s)(cid \<mapsto> (base rc)\<lparr>flow_seq_map := (flow_seq_map rc)(fs \<mapsto> start_in fs rc)\<rparr>)\<rparr>"
  have f: "deal_fuel off ?s = ideal_deal_fuel off ?i" for off
    using t by (simp add: same_state_def deal_fuel_def ideal_deal_fuel_def blocks_of_def ideal_blocks_of_def)
  from Some same_state_rc [OF assms, of cid] show ?thesis
    by (simp add: ideal_deal_with_candidates_def deal_with_candidates_for_chunk_def Let_def
        same_offset [OF t] f [symmetric] flip: start_in_def)
       (use t deal_loop_same [OF t] in \<open>auto simp: f\<close>)
qed

section \<open>Packets in step\<close>

lemma deal_pkt_loop_same:
  assumes "same_state i s"
    and "\<forall>ci \<in> set cis. \<exists>rc. rc_map s (chunk_id ci) = Some rc \<and>
      flow_seq_map rc fs = Some (s_seq_num ci) \<and> rc_length rc = chunk_length ci"
  shows "rel_option same_state (ideal_deal_pkt_loop fid fs p sz seq (map chunk_id cis) i)
    (deal_pkt_loop fid fs p sz seq cis s)"
  using assms(2)
proof (induction cis)
  case Nil
  from rel_option_map_snd [OF insert_same [OF assms(1)]] show ?case by simp
next
  case (Cons ci cis)
  then obtain rc' where "rc_map s (chunk_id ci) = Some rc'"
    "flow_seq_map rc' fs = Some (s_seq_num ci)" "rc_length rc' = chunk_length ci" by auto
  with same_state_rc [OF assms(1)] obtain rc where
    rc: "i_rc_map i (chunk_id ci) = Some rc" "flow_seq_map rc fs = Some (s_seq_num ci)"
      "rc_length rc = chunk_length ci" by fastforce
  from rc have start: "start_in fs rc = s_seq_num ci" by (simp add: start_in_def)
  have "(flow_seq_map rc)(fs \<mapsto> s_seq_num ci) = flow_seq_map rc" using rc(2) by (rule map_upd_triv)
  then have "rc\<lparr>flow_seq_map := (flow_seq_map rc)(fs \<mapsto> start_in fs rc)\<rparr> = rc"
    unfolding start by simp
  then have touch: "touch_start (chunk_id ci) fs rc i = i"
    using map_upd_triv [of "i_rc_map i", OF rc(1)] by (simp add: touch_start_def)
  have fits: "rel_option same_state
      (do { (b, e, i2) \<leftarrow> ideal_fill_gaps (chunk_id ci) fid fs p sz seq i;
            ideal_send_if_done (chunk_id ci) b i2 })
      (do { (b, e, s2) \<leftarrow> SniffTcp_fill_gaps (chunk_id ci) fid fs p sz seq s;
            send_if_done (chunk_id ci) b s2 })"
    by (rule rel_option_bind [OF fill_same [OF assms(1)]]) (auto intro: send_if_done_same)
  show ?case
    unfolding list.map ideal_deal_pkt_loop.simps deal_pkt_loop.simps rc(1) option.case Let_def
      lies_within_def start touch rc(3)
    using fits Cons by simp
qed

lemma deal_with_pkt_same:
  assumes "same_state i s" and "infos_current s"
  shows "rel_option same_state (ideal_deal_with_pkt fid fs p sz seq i)
    (deal_with_pkt_without_chunkid fid fs p sz seq s)"
proof (cases "flow_chunk_map s fs")
  case None
  moreover from this assms(1) have "i_flow_chunk_map i fs = None"
    by (simp add: same_state_def) (metis option.simps(8))
  ultimately show ?thesis using assms(1)
    by (simp add: ideal_deal_with_pkt_def deal_with_pkt_without_chunkid_def)
next
  case (Some cis)
  moreover from this assms(1) have "i_flow_chunk_map i fs = Some (map chunk_id cis)"
    by (simp add: same_state_def) (metis option.simps(9))
  moreover from Some assms(2) have "\<forall>ci \<in> set cis. \<exists>rc. rc_map s (chunk_id ci) = Some rc \<and>
      flow_seq_map rc fs = Some (s_seq_num ci) \<and> rc_length rc = chunk_length ci"
    by (simp add: infos_current_def)
  ultimately show ?thesis using deal_pkt_loop_same [OF assms(1)]
    by (simp add: ideal_deal_with_pkt_def deal_with_pkt_without_chunkid_def)
qed

lemma unseen_same:
  assumes "same_state i s"
  shows "rel_option same_state (ideal_unseen_chunk cid fid fs p sz seq i)
    (unseen_chunk cid fid fs p sz seq s)"
proof -
  have up: "same_state
      (i\<lparr>i_rc_map := (i_rc_map i)(cid \<mapsto> (IdealChunk_new cid n)\<lparr>flow_seq_map := m\<rparr>)\<rparr>)
      (s\<lparr>rc_map := (rc_map s)(cid \<mapsto> (ReconstructedChunk_new cid n)\<lparr>flow_seq_map := m\<rparr>)\<rparr>)" for n m
    by (rule same_state_upd [OF assms]) simp
  have fin: "rel_option same_state (ideal_deal_with_candidates cid fid fs i3)
      (do { (b2, s4) \<leftarrow> deal_with_candidates_for_chunk cid fid fs s3; Some s4 })"
    if "same_state i3 s3" for i3 s3
    using deal_with_candidates_same [OF that, of cid fid fs]
    by (cases "deal_with_candidates_for_chunk cid fid fs s3";
        cases "ideal_deal_with_candidates cid fid fs i3") auto
  show ?thesis
    unfolding ideal_unseen_chunk_def unseen_chunk_def Let_def
    by (rule rel_option_bind_same, rule rel_option_bind [OF fill_same [OF up]], clarsimp,
        rule rel_option_bind, erule send_if_done_same, rule fin)
qed

lemma seen_same:
  assumes "same_state i s"
  shows "rel_option same_state (ideal_seen_chunk cid rc fid fs p sz seq i)
    (seen_chunk cid (base rc) fid fs p sz seq s)"
proof -
  have up: "same_state
      (i\<lparr>i_rc_map := (i_rc_map i)(cid \<mapsto> rc\<lparr>flow_seq_map := (flow_seq_map rc)(fs \<mapsto> seq)\<rparr>)\<rparr>)
      (s\<lparr>rc_map := (rc_map s)(cid \<mapsto> (base rc)\<lparr>flow_seq_map := (flow_seq_map (base rc))(fs \<mapsto> seq)\<rparr>)\<rparr>)"
    by (rule same_state_upd [OF assms]) simp
  show ?thesis
    unfolding ideal_seen_chunk_def seen_chunk_def Let_def
    by (rule rel_option_bind [OF fill_same [OF up]]) (auto intro: send_if_done_same)
qed

lemma chunk_packet_same:
  assumes "same_state i s"
  shows "rel_option same_state
    (case i_rc_map i cid of None \<Rightarrow> ideal_unseen_chunk cid fid fs p sz seq i
      | Some rc \<Rightarrow> ideal_seen_chunk cid rc fid fs p sz seq i)
    (case rc_map s cid of None \<Rightarrow> unseen_chunk cid fid fs p sz seq s
      | Some rc \<Rightarrow> seen_chunk cid rc fid fs p sz seq s)"
  using same_state_rc [OF assms, of cid] unseen_same [OF assms] seen_same [OF assms]
  by (cases "i_rc_map i cid") simp_all

text \<open>A packet with a chunk id holds the length of the chunk.\<close>

lemma rpc_header_scan_from: "rpc_header_scan p i n = Some (Some k) \<Longrightarrow> i \<le> k"
proof (induction n arbitrary: i)
  case (Suc n)
  from Suc.prems have "k = i \<or> rpc_header_scan p (i + 1) n = Some (Some k)"
    by (auto simp: bind_eq_Some_conv split: if_splits)
  with Suc.IH [of "i + 1"] show ?case by auto
qed simp

lemma getChunkId_length:
  assumes "getChunkId p sz = Some (Some (cid, off))"
  shows "0 \<le> off" and "\<exists>n. get_length_from_byte_stream (padd p off) = Some n"
proof -
  from assms obtain r where r: "rpc_header_in_stream p sz = Some r"
    by (auto simp: getChunkId_def bind_eq_Some_conv)
  have "r = Some off \<and> (\<exists>n. get_length_from_byte_stream (padd p off) = Some n)"
  proof (cases r)
    case None
    with assms r show ?thesis by (simp add: getChunkId_def)
  next
    case (Some k)
    with assms r obtain n where "get_length_from_byte_stream (padd p k) = Some n"
      by (auto simp: getChunkId_def Let_def bind_eq_Some_conv)
    moreover from assms r Some this have "k = off"
      by (auto simp: getChunkId_def Let_def bind_eq_Some_conv split: if_splits)
    ultimately show ?thesis using Some by simp
  qed
  then show "0 \<le> off" and "\<exists>n. get_length_from_byte_stream (padd p off) = Some n"
    using r rpc_header_scan_from [of p 0] by (auto simp: rpc_header_in_stream_def)
qed

lemma list_chunk_same:
  assumes "same_state i s" and "get_length_from_byte_stream p = Some n"
  shows "rel_option same_state (ideal_list_chunk cid fs i) (add_chunk_info cid fs p seq s)"
proof -
  from assms(1) have m: "i_flow_chunk_map i fs = map_option (map chunk_id) (flow_chunk_map s fs)"
    by (simp add: same_state_def)
  show ?thesis
    using assms by (cases "flow_chunk_map s fs")
      (auto simp: ideal_list_chunk_def add_chunk_info_def m ChunkInfo_new_def same_state_def)
qed

lemma new_flow_same:
  assumes "same_state i s"
  shows "rel_option same_state (ideal_new_flow_packet fid fs p sz seq i)
    (new_flow_packet fid fs p sz seq s)"
proof (cases "getChunkId p sz")
  case None
  then show ?thesis by (simp add: ideal_new_flow_packet_def new_flow_packet_def)
next
  case (Some r)
  show ?thesis
  proof (cases r)
    case None
    with Some rel_option_map_snd [OF insert_same [OF assms]] show ?thesis
      by (simp add: ideal_new_flow_packet_def new_flow_packet_def)
  next
    case co: (Some co)
    obtain cid off where c: "co = (cid, off)" by (cases co)
    note chunk = getChunkId_length [OF Some [unfolded co c]]
    from chunk(2) obtain n where n: "get_length_from_byte_stream (padd p off) = Some n" by blast
    have main: "rel_option same_state
      (let i2 = i1\<lparr>i_flow_chunk_map := (i_flow_chunk_map i1)(fs \<mapsto> [cid])\<rparr>
       in case i_rc_map i2 cid of None \<Rightarrow> ideal_unseen_chunk cid fid fs q sz1 seq1 i2
          | Some rc \<Rightarrow> ideal_seen_chunk cid rc fid fs q sz1 seq1 i2)
      (do { c_len \<leftarrow> get_length_from_byte_stream q;
            let s2 = s1\<lparr>flow_chunk_map := (flow_chunk_map s1)(fs \<mapsto> [ChunkInfo_new cid seq1 c_len])\<rparr>;
            case rc_map s2 cid of None \<Rightarrow> unseen_chunk cid fid fs q sz1 seq1 s2
          | Some rc \<Rightarrow> seen_chunk cid rc fid fs q sz1 seq1 s2 })"
      if "same_state i1 s1" and "get_length_from_byte_stream q = Some n" for i1 s1 q sz1 seq1
    proof -
      have "same_state (i1\<lparr>i_flow_chunk_map := (i_flow_chunk_map i1)(fs \<mapsto> [cid])\<rparr>)
        (s1\<lparr>flow_chunk_map := (flow_chunk_map s1)(fs \<mapsto> [ChunkInfo_new cid seq1 n])\<rparr>)"
        using that(1) by (simp add: same_state_def ChunkInfo_new_def)
      from chunk_packet_same [OF this] that(2) show ?thesis by (simp add: Let_def)
    qed
    show ?thesis
    proof (cases "0 < off")
      case True
      have "rel_option same_state
        (do { (e, i1) \<leftarrow> ideal_insert fid p off seq i;
           let i2 = i1\<lparr>i_flow_chunk_map := (i_flow_chunk_map i1)(fs \<mapsto> [cid])\<rparr>;
           case i_rc_map i2 cid of
             None \<Rightarrow> ideal_unseen_chunk cid fid fs (padd p off) (sz - off) (seq + word_of_int off) i2
           | Some rc \<Rightarrow>
               ideal_seen_chunk cid rc fid fs (padd p off) (sz - off) (seq + word_of_int off) i2 })
        (do { (e, s1) \<leftarrow> SniffTcp_insert fid p off seq s;
           c_len \<leftarrow> get_length_from_byte_stream (padd p off);
           let s2 = s1\<lparr>flow_chunk_map := (flow_chunk_map s1)
             (fs \<mapsto> [ChunkInfo_new cid (seq + word_of_int off) c_len])\<rparr>;
           case rc_map s2 cid of
             None \<Rightarrow> unseen_chunk cid fid fs (padd p off) (sz - off) (seq + word_of_int off) s2
           | Some rc \<Rightarrow>
               seen_chunk cid rc fid fs (padd p off) (sz - off) (seq + word_of_int off) s2 })"
        by (rule rel_option_bind [OF insert_same [OF assms]], clarify, rule main [OF _ n], simp)
      with True Some show ?thesis
        by (simp add: ideal_new_flow_packet_def new_flow_packet_def co c Let_def split_def cong del: option.case_cong_weak)
    next
      case False
      with chunk(1) n have "off = 0" "get_length_from_byte_stream p = Some n"
        by (simp_all add: padd_def)
      from main [OF assms this(2), of sz seq] this False Some show ?thesis
        by (simp add: ideal_new_flow_packet_def new_flow_packet_def co c Let_def)
    qed
  qed
qed

lemma old_flow_same:
  assumes "same_state i s" and "infos_current s"
  shows "rel_option same_state (ideal_old_flow_packet fid fs p sz seq i)
    (old_flow_packet fid fs p sz seq s)"
proof (cases "getChunkId p sz")
  case None
  then show ?thesis by (simp add: ideal_old_flow_packet_def old_flow_packet_def)
next
  case (Some r)
  show ?thesis
  proof (cases r)
    case None
    with Some deal_with_pkt_same [OF assms] show ?thesis
      by (simp add: ideal_old_flow_packet_def old_flow_packet_def)
  next
    case co: (Some co)
    obtain cid off where c: "co = (cid, off)" by (cases co)
    note chunk = getChunkId_length [OF Some [unfolded co c]]
    from chunk(2) obtain n where n: "get_length_from_byte_stream (padd p off) = Some n" by blast
    have main: "rel_option same_state
      (do { i2 \<leftarrow> ideal_list_chunk cid fs i1;
            case i_rc_map i2 cid of None \<Rightarrow> ideal_unseen_chunk cid fid fs q sz1 seq1 i2
          | Some rc \<Rightarrow> ideal_seen_chunk cid rc fid fs q sz1 seq1 i2 })
      (do { s2 \<leftarrow> add_chunk_info cid fs q seq1 s1;
            case rc_map s2 cid of None \<Rightarrow> unseen_chunk cid fid fs q sz1 seq1 s2
          | Some rc \<Rightarrow> seen_chunk cid rc fid fs q sz1 seq1 s2 })"
      if "same_state i1 s1" and "get_length_from_byte_stream q = Some n" for i1 s1 q sz1 seq1
      by (rule rel_option_bind [OF list_chunk_same [OF that]]) (rule chunk_packet_same)
    show ?thesis
    proof (cases "0 < off")
      case True
      have "rel_option same_state
        (do { i1 \<leftarrow> ideal_deal_with_pkt fid fs p off seq i;
           i2 \<leftarrow> ideal_list_chunk cid fs i1;
           case i_rc_map i2 cid of
             None \<Rightarrow> ideal_unseen_chunk cid fid fs (padd p off) (sz - off) (seq + word_of_int off) i2
           | Some rc \<Rightarrow>
               ideal_seen_chunk cid rc fid fs (padd p off) (sz - off) (seq + word_of_int off) i2 })
        (do { s1 \<leftarrow> deal_with_pkt_without_chunkid fid fs p off seq s;
           s2 \<leftarrow> add_chunk_info cid fs (padd p off) (seq + word_of_int off) s1;
           case rc_map s2 cid of
             None \<Rightarrow> unseen_chunk cid fid fs (padd p off) (sz - off) (seq + word_of_int off) s2
           | Some rc \<Rightarrow>
               seen_chunk cid rc fid fs (padd p off) (sz - off) (seq + word_of_int off) s2 })"
        by (rule rel_option_bind [OF deal_with_pkt_same [OF assms]]) (rule main [OF _ n])
      with True Some show ?thesis
        by (simp add: ideal_old_flow_packet_def old_flow_packet_def co c Let_def)
    next
      case False
      with chunk(1) n have "off = 0" "get_length_from_byte_stream p = Some n"
        by (simp_all add: padd_def)
      from main [OF assms(1) this(2), of sz seq] this False Some show ?thesis
        by (simp add: ideal_old_flow_packet_def old_flow_packet_def co c Let_def)
    qed
  qed
qed

lemma tcp_payload_same:
  assumes "same_state i s" and "infos_current s"
  shows "rel_option same_state (ideal_tcp_payload fid p sz seq i) (tcp_payload fid p sz seq s)"
proof -
  from assms(1) have m: "g_multi_chances s = i_multi_chances i"
    "i_flow_chunk_map i fs = map_option (map chunk_id) (flow_chunk_map s fs)" for fs
    by (simp_all add: same_state_def)
  show ?thesis
    using rel_option_map_snd [OF insert_same [OF assms(1)]] new_flow_same [OF assms(1)]
      old_flow_same [OF assms]
    by (cases "flow_chunk_map s (toString fid)") (simp_all add: ideal_tcp_payload_def tcp_payload_def Let_def m)
qed

lemma handle_tcp_same:
  assumes "same_state i s" and "infos_current s"
  shows "rel_option same_state (ideal_handle_tcp ip hlen len i) (handle_tcp ip hlen len s)"
proof -
  have c: "same_state
      (i\<lparr>i_numTcpPacketsCaptured := i_numTcpPacketsCaptured i + 1,
         i_numBytesOfTcpPacketsCaptured := i_numBytesOfTcpPacketsCaptured i + n\<rparr>)
      (s\<lparr>numTcpPacketsCaptured := numTcpPacketsCaptured s + 1,
         numBytesOfTcpPacketsCaptured := numBytesOfTcpPacketsCaptured s + n\<rparr>)"
    "infos_current (s\<lparr>numTcpPacketsCaptured := numTcpPacketsCaptured s + 1,
         numBytesOfTcpPacketsCaptured := numBytesOfTcpPacketsCaptured s + n\<rparr>)" for n
    using assms by (simp_all add: same_state_def infos_current_def)
  show ?thesis
    unfolding ideal_handle_tcp_def handle_tcp_def Let_def
    by (rule rel_option_bind_same) (use assms(1) in \<open>auto intro!: rel_option_bind_same tcp_payload_same c\<close>)
qed

lemma callback_same:
  assumes "same_state i s" and "infos_current s"
  shows "rel_option same_state (ideal_callback_ethernet pkt i) (my_callback_ethernet pkt s)"
proof -
  have ip: "rel_option same_state (ideal_handle_ip len p i) (handle_ip len p s)" for len p
    unfolding ideal_handle_ip_def handle_ip_def Let_def
    using assms(1) by (auto intro!: rel_option_bind_same handle_tcp_same [OF assms])
  show ?thesis
    unfolding ideal_callback_ethernet_def my_callback_ethernet_def
    by (rule rel_option_bind_same) (use assms(1) ip in simp)
qed

text \<open>The sniffer's copies are up to date before each packet of the list.\<close>

primrec stays_current :: "bytes list \<Rightarrow> SniffTcp \<Rightarrow> bool" where
  "stays_current [] s = True"
| "stays_current (pkt # pkts) s = (infos_current s \<and>
     (case my_callback_ethernet pkt s of None \<Rightarrow> True | Some s' \<Rightarrow> stays_current pkts s'))"

lemma dispatch_same:
  "same_state i s \<Longrightarrow> stays_current pkts s \<Longrightarrow>
   rel_option same_state (ideal_dispatch pkts i) (dispatch pkts s)"
proof (induction pkts arbitrary: i s)
  case (Cons pkt pkts)
  note c = callback_same [OF Cons.prems(1), of pkt]
  show ?case
  proof (cases "my_callback_ethernet pkt s")
    case None
    with c Cons.prems show ?thesis by simp
  next
    case (Some s')
    with c Cons.prems(2) obtain i' where "ideal_callback_ethernet pkt i = Some i'" "same_state i' s'"
      by (auto simp: option_rel_Some2)
    with Some Cons.IH Cons.prems show ?thesis by simp
  qed
qed simp

end
