(* ===== verification/IdealGrep.thy ===== *)
theory IdealGrep
  imports IdealRefine
begin

text \<open>
  \<^verbatim>\<open>src/ideal-sniffer/SniffTcp.cc\<close>, \<^verbatim>\<open>grep_flows_for_chunks\<close> and \<^verbatim>\<open>grep_contiguous_block_for_chunks\<close>:
  the sniffer's search, which here also looks up the chunk id at every byte that could start a reply
  and enters the chunks found into the chunk map. \<open>scan_result\<close>, \<open>found_reply\<close> and \<open>object_rep\<close> are
  those of the sniffer's search.
\<close>

section \<open>The search\<close>

text \<open>The body of the loop. The chunk id is looked up before the code has checked how much of the
  block is left; \<^verbatim>\<open>size() - i\<close> is passed as an \<^verbatim>\<open>int\<close>.\<close>

definition ideal_grep_at :: "bytes \<Rightarrow> u32 \<Rightarrow> (scan_result \<times> (bytes \<times> int) option \<times> int + u32) option"
  where
  "ideal_grep_at blk i = do {
     c \<leftarrow> load8 (c_str blk) (uint i);
     if c = RPC_HEADER then do {
       p_cid_offset_pair \<leftarrow>
         getChunkId (padd (c_str blk) (uint i)) (int_of_size (length blk - unat i));
       if unat (i + 3) < length blk then do {
         payload_length \<leftarrow> get_length_from_byte_stream (padd (c_str blk) (uint i));
         let j = i + 8;
         if unat (j + word_of_int mask_size_in_bytes) < length blk then do {
           m \<leftarrow> load (c_str blk) (uint j) mask_size_in_bytes;
           Some (if m = mask_bytes
                 then (case found_reply blk i payload_length of
                         Inl r \<Rightarrow> Inl (r, p_cid_offset_pair, payload_length)
                       | Inr i' \<Rightarrow> Inr i')
                 else Inr (i + 1))
         }
         else Some (Inr (i + 1))
       }
       else Some (Inr (i + 1))
     }
     else Some (Inr (i + 1))
   }"

fun ideal_grep_scan :: "nat \<Rightarrow> bytes \<Rightarrow> u32 \<Rightarrow> (scan_result \<times> (bytes \<times> int) option \<times> int) option"
  where
  "ideal_grep_scan 0 blk i = None"
| "ideal_grep_scan (Suc n) blk i =
     (if unat i < length blk then do {
        r \<leftarrow> ideal_grep_at blk i;
        (case r of Inl res \<Rightarrow> Some res | Inr i' \<Rightarrow> ideal_grep_scan n blk i')
      }
      else Some (Exhausted, None, 0))"

text \<open>"Throw it into the chunker map too": the three copies of this step in the code are the same.\<close>

definition ideal_mark_found :: "(bytes \<times> int) option \<Rightarrow> int \<Rightarrow> IdealSniff \<Rightarrow> IdealSniff" where
  "ideal_mark_found p_cid_offset_pair payload_length s =
     (case p_cid_offset_pair of
        None \<Rightarrow> s
      | Some (cid, _) \<Rightarrow>
          let p_rc = (case i_rc_map s cid of
                        None \<Rightarrow> IdealChunk_new cid payload_length
                      | Some rc \<Rightarrow> rc)
          in s\<lparr>i_rc_map := (i_rc_map s)(cid \<mapsto> p_rc\<lparr>chunk_done := True\<rparr>)\<rparr>)"

definition ideal_grep_block :: "(bytes \<Rightarrow> bytes) \<Rightarrow> ContiguousBlock \<Rightarrow> IdealSniff \<Rightarrow>
    (ContiguousBlock list \<times> ContiguousBlock \<times> IdealSniff) option" where
  "ideal_grep_block object_rep pcb s = do {
     let blk = p_s_contiguous_block pcb;
     (r, pair, payload_length) \<leftarrow> ideal_grep_scan (length blk + 1) blk 0;
     let s1 = ideal_mark_found pair payload_length s;
     (case r of
        Exhausted \<Rightarrow> Some ([], pcb\<lparr>bModified := False\<rparr>, s)
      | Front i \<Rightarrow> do {
          s' \<leftarrow> ideal_send_chunk (c_str blk) s1;
          Some ([], pcb\<lparr>starting_seq_number := starting_seq_number pcb + i,
                        p_s_contiguous_block := drop (unat i) blk\<rparr>, s')
        }
      | AtEnd start i n \<Rightarrow> do {
          s' \<leftarrow> ideal_send_chunk (padd (c_str blk) (uint start)) s1;
          Some ([], pcb\<lparr>next_expected_seq_number := start,
                        p_s_contiguous_block := take (nat (int (length blk) - n - 4)) blk,
                        bModified := False\<rparr>, s')
        }
      | Middle start i \<Rightarrow> do {
          s' \<leftarrow> ideal_send_chunk (padd (c_str blk) (uint start)) s1;
          p_cb \<leftarrow> cb_append (object_rep blk, 0) (sint start) (starting_seq_number pcb)
                    ContiguousBlock_new;
          Some ([p_cb\<lparr>bModified := False\<rparr>],
                pcb\<lparr>starting_seq_number := starting_seq_number pcb + i,
                    p_s_contiguous_block := drop (unat i) blk\<rparr>, s')
        })
   }"

fun ideal_grep_while :: "nat \<Rightarrow> (bytes \<Rightarrow> bytes) \<Rightarrow> ContiguousBlock \<Rightarrow> IdealSniff \<Rightarrow>
    (ContiguousBlock list \<times> ContiguousBlock \<times> IdealSniff) option" where
  "ideal_grep_while 0 object_rep b s = None"
| "ideal_grep_while (Suc n) object_rep b s =
     (if bModified b \<and> starting_seq_number b < next_expected_seq_number b then do {
        (ins, b1, s1) \<leftarrow> ideal_grep_block object_rep b s;
        (ins', b2, s2) \<leftarrow> ideal_grep_while n object_rep b1 s1;
        Some (ins @ ins', b2, s2)
      }
      else Some ([], b, s))"

fun ideal_grep_blocks :: "(bytes \<Rightarrow> bytes) \<Rightarrow> ContiguousBlock list \<Rightarrow> IdealSniff \<Rightarrow>
    (ContiguousBlock list \<times> IdealSniff) option" where
  "ideal_grep_blocks object_rep [] s = Some ([], s)"
| "ideal_grep_blocks object_rep (b # bs) s = do {
     (ins, b', s1) \<leftarrow> ideal_grep_while (length (p_s_contiguous_block b) + 2) object_rep b s;
     (bs', s2) \<leftarrow> ideal_grep_blocks object_rep bs s1;
     Some (ins @ (if starting_seq_number b' = next_expected_seq_number b' then [] else [b']) @ bs',
           s2)
   }"

fun ideal_grep_flow_list :: "(bytes \<Rightarrow> bytes) \<Rightarrow> flow_entry list \<Rightarrow> IdealSniff \<Rightarrow>
    (flow_entry list \<times> IdealSniff) option" where
  "ideal_grep_flow_list object_rep [] s = Some ([], s)"
| "ideal_grep_flow_list object_rep ((fid, bs) # es) s = do {
     (bs', s1) \<leftarrow> ideal_grep_blocks object_rep bs s;
     (es', s2) \<leftarrow> ideal_grep_flow_list object_rep es s1;
     Some ((fid, bs') # es', s2)
   }"

definition ideal_grep_flows :: "(bytes \<Rightarrow> bytes) \<Rightarrow> IdealSniff \<Rightarrow> IdealSniff option" where
  "ideal_grep_flows object_rep s = do {
     (fl, s') \<leftarrow> ideal_grep_flow_list object_rep (i_flow_list s) s;
     Some (s'\<lparr>i_flow_list := fl\<rparr>)
   }"

text \<open>One round of the endless loop of \<^verbatim>\<open>run_pcap_live\<close>.\<close>

definition ideal_live_round :: "(bytes \<Rightarrow> bytes) \<Rightarrow> bytes list \<Rightarrow> int \<Rightarrow> IdealSniff \<Rightarrow>
    IdealSniff option" where
  "ideal_live_round object_rep pkts ret s = do {
     s1 \<leftarrow> ideal_dispatch pkts s;
     ideal_grep_flows object_rep (s1\<lparr>i_numPacketsCaptured := i_numPacketsCaptured s1 + ret\<rparr>)
   }"

text \<open>\<^verbatim>\<open>run_pcap_offline\<close> up to the analysis that follows.\<close>

definition ideal_read_dump :: "(bytes \<Rightarrow> bytes) \<Rightarrow> bytes list \<Rightarrow> IdealSniff \<Rightarrow> IdealSniff option" where
  "ideal_read_dump object_rep dump s = do {
     s1 \<leftarrow> ideal_dispatch dump s;
     ideal_grep_flows object_rep s1
   }"

declare ideal_grep_scan.simps [simp del] ideal_grep_while.simps [simp del]

section \<open>The search in step with the sniffer's\<close>

text \<open>What the programs share once the search has entered chunks into one chunk map only.\<close>

definition same_output :: "IdealSniff \<Rightarrow> SniffTcp \<Rightarrow> bool" where
  "same_output i s \<longleftrightarrow> p_flow_list s = i_flow_list i \<and>
     numChunksSniffed s = i_numChunksSniffed i \<and>
     numTcpPacketsCaptured s = i_numTcpPacketsCaptured i \<and>
     numBytesOfTcpPacketsCaptured s = i_numBytesOfTcpPacketsCaptured i \<and>
     numBytesOfChunksSniffed s = i_numBytesOfChunksSniffed i \<and>
     numDuplicateBytes s = i_numDuplicateBytes i \<and> sent s = i_sent i"

lemma same_output_of_state: "same_state i s \<Longrightarrow> same_output i s"
  by (simp add: same_state_def same_output_def)

lemma mark_found_output [simp]: "same_output (ideal_mark_found pair n i) s = same_output i s"
  by (auto simp: ideal_mark_found_def same_output_def Let_def split: option.split prod.split)

lemma grep_at_agrees:
  assumes "ideal_grep_at blk i = Some a"
  shows "grep_at blk i = Some (map_sum fst id a)"
proof -
  let ?p = "padd (c_str blk) (uint i)"
  let ?j = "unat (i + 8 + word_of_int mask_size_in_bytes) < length blk"
  from assms obtain c where c: "load8 (c_str blk) (uint i) = Some c"
    by (auto simp: ideal_grep_at_def bind_eq_Some_conv)
  show ?thesis
  proof (cases "c = RPC_HEADER \<and> unat (i + 3) < length blk")
    case True
    with assms c obtain pair where pair: "getChunkId ?p (int_of_size (length blk - unat i)) = Some pair"
      by (auto simp: ideal_grep_at_def bind_eq_Some_conv)
    with assms c True obtain n where n: "get_length_from_byte_stream ?p = Some n"
      by (auto simp: ideal_grep_at_def bind_eq_Some_conv)
    show ?thesis
    proof (cases ?j)
      case j: True
      with assms c True pair n obtain m where
        m: "load (c_str blk) (uint (i + 8)) mask_size_in_bytes = Some m"
        by (auto simp: ideal_grep_at_def bind_eq_Some_conv Let_def)
      from assms c True pair n j m show ?thesis
        by (cases "found_reply blk i n") (auto simp: ideal_grep_at_def grep_at_def)
    next
      case False
      with assms c True pair n show ?thesis by (auto simp: ideal_grep_at_def grep_at_def)
    qed
  next
    case False
    with assms c show ?thesis
      by (auto simp: ideal_grep_at_def grep_at_def bind_eq_Some_conv split: if_splits)
  qed
qed

lemma grep_scan_agrees: "ideal_grep_scan n blk i = Some (r, x) \<Longrightarrow> grep_scan n blk i = Some r"
proof (induction n arbitrary: i)
  case (Suc n)
  show ?case
  proof (cases "unat i < length blk")
    case True
    with Suc.prems obtain a where a: "ideal_grep_at blk i = Some a"
      "(case a of Inl res \<Rightarrow> Some res | Inr i' \<Rightarrow> ideal_grep_scan n blk i') = Some (r, x)"
      by (auto simp only: ideal_grep_scan.simps if_True bind_eq_Some_conv)
    from grep_at_agrees [OF a(1)] a(2) True Suc.IH show ?thesis
      by (cases a) (simp_all add: grep_scan.simps)
  next
    case False
    with Suc.prems show ?thesis by (simp add: ideal_grep_scan.simps grep_scan.simps)
  qed
qed (simp add: ideal_grep_scan.simps)

lemma send_output:
  assumes "ideal_send_chunk p i = Some i'" and "same_output i s"
  obtains s' where "send_chunk_to_sniffer_plugin p s = Some s'" and "same_output i' s'"
proof -
  have "rel_option same_output (ideal_send_chunk p i) (send_chunk_to_sniffer_plugin p s)"
    unfolding ideal_send_chunk_def send_chunk_to_sniffer_plugin_def
    using assms(2) by (auto intro!: rel_option_bind_same simp: same_output_def split: option.split)
  with assms(1) that show thesis by (auto simp: option_rel_Some1)
qed

lemma grep_block_agrees:
  assumes "ideal_grep_block rep b i = Some (ins, b', i')" and "same_output i s"
  shows "\<exists>s'. grep_contiguous_block_for_chunks rep b s = Some (ins, b', s') \<and> same_output i' s'"
proof -
  let ?blk = "p_s_contiguous_block b"
  from assms(1) obtain r pair n where r: "ideal_grep_scan (length ?blk + 1) ?blk 0 = Some (r, pair, n)"
    by (auto simp: ideal_grep_block_def Let_def bind_eq_Some_conv)
  let ?i1 = "ideal_mark_found pair n i"
  note s0 = grep_scan_agrees [OF r]
  have out: "same_output ?i1 s" using assms(2) by simp
  show ?thesis
  proof (cases r)
    case (Front k)
    with assms(1) r have "ideal_send_chunk (c_str ?blk) ?i1 = Some i'"
      by (auto simp: ideal_grep_block_def Let_def bind_eq_Some_conv)
    from this out obtain s' where
      "send_chunk_to_sniffer_plugin (c_str ?blk) s = Some s'" "same_output i' s'" by (rule send_output)
    with assms(1) r Front s0 show ?thesis
      by (auto simp: ideal_grep_block_def grep_contiguous_block_for_chunks_def Let_def
          bind_eq_Some_conv)
  next
    case (AtEnd start k m)
    with assms(1) r have "ideal_send_chunk (padd (c_str ?blk) (uint start)) ?i1 = Some i'"
      by (auto simp: ideal_grep_block_def Let_def bind_eq_Some_conv)
    from this out obtain s' where
      "send_chunk_to_sniffer_plugin (padd (c_str ?blk) (uint start)) s = Some s'"
      "same_output i' s'" by (rule send_output)
    with assms(1) r AtEnd s0 show ?thesis
      by (auto simp: ideal_grep_block_def grep_contiguous_block_for_chunks_def Let_def
          bind_eq_Some_conv)
  next
    case (Middle start k)
    with assms(1) r have "ideal_send_chunk (padd (c_str ?blk) (uint start)) ?i1 = Some i'"
      by (auto simp: ideal_grep_block_def Let_def bind_eq_Some_conv)
    from this out obtain s' where
      "send_chunk_to_sniffer_plugin (padd (c_str ?blk) (uint start)) s = Some s'"
      "same_output i' s'" by (rule send_output)
    with assms(1) r Middle s0 show ?thesis
      by (auto simp: ideal_grep_block_def grep_contiguous_block_for_chunks_def Let_def
          bind_eq_Some_conv)
  next
    case Exhausted
    with assms r s0 show ?thesis
      by (auto simp: ideal_grep_block_def grep_contiguous_block_for_chunks_def Let_def)
  qed
qed

lemma grep_while_agrees:
  "ideal_grep_while n rep b i = Some (ins, b', i') \<Longrightarrow> same_output i s \<Longrightarrow>
   \<exists>s'. grep_while n rep b s = Some (ins, b', s') \<and> same_output i' s'"
proof (induction n arbitrary: b i s ins)
  case (Suc n)
  show ?case
  proof (cases "bModified b \<and> starting_seq_number b < next_expected_seq_number b")
    case True
    with Suc.prems(1) obtain ins1 b1 i1 ins2 where
      g: "ideal_grep_block rep b i = Some (ins1, b1, i1)"
      "ideal_grep_while n rep b1 i1 = Some (ins2, b', i')" "ins = ins1 @ ins2"
      by (auto simp: ideal_grep_while.simps bind_eq_Some_conv)
    from grep_block_agrees [OF g(1) Suc.prems(2)] obtain s1 where
      s1: "grep_contiguous_block_for_chunks rep b s = Some (ins1, b1, s1)" "same_output i1 s1" by blast
    with Suc.IH [OF g(2) s1(2)] True g(3) show ?thesis by (auto simp: grep_while.simps)
  next
    case False
    with Suc.prems show ?thesis by (auto simp: ideal_grep_while.simps grep_while.simps)
  qed
qed (simp add: ideal_grep_while.simps)

lemma grep_blocks_agree:
  "ideal_grep_blocks rep bs i = Some (bs', i') \<Longrightarrow> same_output i s \<Longrightarrow>
   \<exists>s'. grep_blocks rep bs s = Some (bs', s') \<and> same_output i' s'"
proof (induction bs arbitrary: i s bs')
  case (Cons b bs)
  from Cons.prems(1) obtain ins b1 i1 bs1 where
    g: "ideal_grep_while (length (p_s_contiguous_block b) + 2) rep b i = Some (ins, b1, i1)"
    "ideal_grep_blocks rep bs i1 = Some (bs1, i')"
    "bs' = ins @ (if starting_seq_number b1 = next_expected_seq_number b1 then [] else [b1]) @ bs1"
    by (auto simp: bind_eq_Some_conv)
  from grep_while_agrees [OF g(1) Cons.prems(2)] obtain s1 where
    s1: "grep_while (length (p_s_contiguous_block b) + 2) rep b s = Some (ins, b1, s1)"
    "same_output i1 s1" by blast
  from Cons.IH [OF g(2) s1(2)] s1(1) g(3) show ?case by auto
qed simp

lemma grep_flow_list_agrees:
  "ideal_grep_flow_list rep es i = Some (es', i') \<Longrightarrow> same_output i s \<Longrightarrow>
   \<exists>s'. grep_flow_list rep es s = Some (es', s') \<and> same_output i' s'"
proof (induction es arbitrary: i s es')
  case (Cons e es)
  obtain fid bs where e: "e = (fid, bs)" by (cases e)
  from Cons.prems(1) obtain bs1 i1 es1 where
    g: "ideal_grep_blocks rep bs i = Some (bs1, i1)" "ideal_grep_flow_list rep es i1 = Some (es1, i')"
      "es' = (fid, bs1) # es1"
    by (auto simp: e bind_eq_Some_conv)
  from grep_blocks_agree [OF g(1) Cons.prems(2)] obtain s1 where
    s1: "grep_blocks rep bs s = Some (bs1, s1)" "same_output i1 s1" by blast
  from Cons.IH [OF g(2) s1(2)] s1(1) g(3) e show ?case by auto
qed simp

lemma grep_flows_agree:
  assumes "ideal_grep_flows rep i = Some i'" and "same_output i s"
  shows "\<exists>s'. grep_flows_for_chunks rep s = Some s' \<and> same_output i' s'"
proof -
  from assms(1) obtain fl i1 where g: "ideal_grep_flow_list rep (i_flow_list i) i = Some (fl, i1)"
    "i' = i1\<lparr>i_flow_list := fl\<rparr>" by (auto simp: ideal_grep_flows_def bind_eq_Some_conv)
  from assms(2) have "p_flow_list s = i_flow_list i" by (simp add: same_output_def)
  with grep_flow_list_agrees [OF g(1) assms(2)] g(2) show ?thesis
    by (auto simp: grep_flows_for_chunks_def same_output_def)
qed

end
