(* ===== verification/IdealAnalysis.thy ===== *)
theory IdealAnalysis
  imports IdealGrep CmdLine
begin

text \<open>
  The rest of \<^verbatim>\<open>src/ideal-sniffer/SniffTcp.cc\<close>: \<^verbatim>\<open>run_ideal_analysis\<close>, which reads the file of the
  chunks that were really transferred into the chunk map, \<^verbatim>\<open>dump_flow_chunk_map\<close>, and the command
  line. Then the invariants of the program and its properties.

  A file is its list of bytes. \<^verbatim>\<open>struct { char id[20]; unsigned int length; }\<close> is written in the byte
  order of the host, the parameter \<open>big\<close> says which. \<^verbatim>\<open>chunk_data\<close> is an array of \<^verbatim>\<open>CHUNK_SIZE\<close> bytes
  on the stack: \<^verbatim>\<open>fread\<close> of more than that is undefined.
\<close>

section \<open>The analysis\<close>

definition CHUNK_SIZE :: nat where "CHUNK_SIZE = 16384"

definition host_unsigned :: "bool \<Rightarrow> bytes \<Rightarrow> u32" where
  "host_unsigned big b = (if big then be32 (b ! 0) (b ! 1) (b ! 2) (b ! 3)
     else be32 (b ! 3) (b ! 2) (b ! 1) (b ! 0))"

text \<open>How the analysis stops before its end: \<^verbatim>\<open>fatal\<close>, or a write behind \<^verbatim>\<open>chunk_data\<close>.\<close>

datatype analysis_stop = CannotOpen | ProblemInRead | WritesOutside

definition oracle_block :: "bytes \<Rightarrow> ContiguousBlock option" where
  "oracle_block data = cb_append (data, 0) (int (length data)) 0 ContiguousBlock_new"

text \<open>The body of the loop once the data is read: \<^verbatim>\<open>chunk_info.length\<close> is passed as an \<^verbatim>\<open>int\<close>.\<close>

definition enter_oracle :: "bytes \<Rightarrow> u32 \<Rightarrow> ContiguousBlock \<Rightarrow> IdealSniff \<Rightarrow> IdealSniff" where
  "enter_oracle key len block s =
     (let p_rc = (case i_rc_map s key of None \<Rightarrow> IdealChunk_new key (sint len) | Some rc \<Rightarrow> rc)
      in s\<lparr>i_rc_map := (i_rc_map s)(key \<mapsto> fill_oracle_data block p_rc)\<rparr>)"

text \<open>The loop: \<^verbatim>\<open>feof\<close> is not set by a read that gets all it asks for, so the loop is left by the
  short read of a header.\<close>

function read_records :: "bool \<Rightarrow> bytes \<Rightarrow> IdealSniff \<Rightarrow> analysis_stop + IdealSniff" where
  "read_records big fp s =
     (if length fp < 24 then Inr s
      else
        let key = take 20 fp;
            len = host_unsigned big (slice fp 20 4);
            chunk_data = take (unat len) (drop 24 fp)
        in if CHUNK_SIZE < length chunk_data then Inl WritesOutside
           else if length chunk_data \<noteq> unat len then Inl ProblemInRead
           else case oracle_block chunk_data of
                  None \<Rightarrow> Inl WritesOutside
                | Some block \<Rightarrow>
                    read_records big (drop (24 + unat len) fp) (enter_oracle key len block s))"
  by pat_completeness auto
termination by (relation "measure (\<lambda>(big, fp, s). length fp)") auto

declare read_records.simps [simp del]

definition run_ideal_analysis :: "bool \<Rightarrow> bytes option \<Rightarrow> IdealSniff \<Rightarrow> analysis_stop + IdealSniff"
  where
  "run_ideal_analysis big input_file s =
     (case input_file of None \<Rightarrow> Inl CannotOpen | Some fp \<Rightarrow> read_records big fp s)"

text \<open>\<^verbatim>\<open>dump_flow_chunk_map\<close> reports these ids as "Not completed" (the map as a list of its keys).\<close>

definition not_completed :: "bytes list \<Rightarrow> IdealSniff \<Rightarrow> bytes list" where
  "not_completed keys s =
     filter (\<lambda>cid. case i_rc_map s cid of None \<Rightarrow> False | Some rc \<Rightarrow> \<not> chunk_done rc) keys"

section \<open>Command line\<close>

text \<open>\<open>None\<close> is the null pointer. \<^verbatim>\<open>argv[argc]\<close> is null, \<^verbatim>\<open>argv\<close> behind it cannot be read.\<close>

record ideal_params = run_params +
  dump_file_name :: "string option"
  input_file_name :: "string option"

definition ideal_g_run_options :: ideal_params where
  "ideal_g_run_options = \<lparr>num_pkts = 0, interface = [], socket = [], mode = OFFLINE,
     ip_to_ignore = [], multi_chance = 0, dump_file_name = None, input_file_name = None\<rparr>"

definition arg_at :: "string list \<Rightarrow> nat \<Rightarrow> string option option" where
  "arg_at argv k = (if k < length argv then Some (Some (argv ! k))
     else if k = length argv then Some None else None)"

definition ideal_parse_args :: "string list \<Rightarrow> ideal_params \<Rightarrow> (bool \<times> ideal_params) option" where
  "ideal_parse_args argv o1 =
     (if length argv < 6 then Some (False, o1)
      else do {
        n \<leftarrow> atoi (argv ! 1);
        let o2 = o1\<lparr>num_pkts := n, interface := argv ! 2, socket := argv ! 3\<rparr>;
        m \<leftarrow> atoi (argv ! 4);
        (case mode_of m of
           None \<Rightarrow> Some (False, o2)
         | Some md \<Rightarrow> do {
             let o3 = o2\<lparr>mode := md, ip_to_ignore := argv ! 5\<rparr>;
             o4 \<leftarrow> (if 6 < length argv then do {
                      c \<leftarrow> atoi (argv ! 6);
                      Some (o3\<lparr>multi_chance := c\<rparr>)
                    }
                    else Some o3);
             if md = OFFLINE then do {
               dump \<leftarrow> arg_at argv 7;
               inp \<leftarrow> arg_at argv 8;
               Some (True, o4\<lparr>dump_file_name := dump, input_file_name := inp\<rparr>)
             }
             else Some (True, o4)
           })
      })"

definition ideal_main_actions :: "string list \<Rightarrow> (action list \<times> bool \<times> ideal_params) option" where
  "ideal_main_actions argv = do {
     (ok, opts) \<leftarrow> ideal_parse_args argv ideal_g_run_options;
     if \<not> ok then Some ([PrintUsage], True, opts)
     else Some (run_actions (mode opts), multi_chance opts \<noteq> 0, opts)
   }"

section \<open>Reachable states\<close>

inductive ideal_step :: "(bytes \<Rightarrow> bytes) \<Rightarrow> IdealSniff \<Rightarrow> IdealSniff \<Rightarrow> bool" for object_rep where
  frame: "ideal_callback_ethernet pkt s = Some s' \<Longrightarrow> ideal_step object_rep s s'"
| search: "ideal_grep_flows object_rep s = Some s' \<Longrightarrow> ideal_step object_rep s s'"
| counted: "ideal_step object_rep s (s\<lparr>i_numPacketsCaptured := i_numPacketsCaptured s + ret\<rparr>)"
| analysed: "run_ideal_analysis big input s = Inr s' \<Longrightarrow> ideal_step object_rep s s'"

inductive_cases ideal_stepE: "ideal_step object_rep s s'"

inductive ideal_reachable :: "(bytes \<Rightarrow> bytes) \<Rightarrow> IdealSniff \<Rightarrow> bool" for object_rep where
  start: "ideal_reachable object_rep (IdealSniff_new multi)"
| step: "ideal_reachable object_rep s \<Longrightarrow> ideal_step object_rep s s' \<Longrightarrow>
    ideal_reachable object_rep s'"

section \<open>The contract of an invariant\<close>

text \<open>Filling a chunk and sending it if that completed it belong together: between the two calls a
  complete chunk is not marked yet.\<close>

locale ideal_invariant =
  fixes Inv :: "IdealSniff \<Rightarrow> bool"
  assumes flows: "Inv s \<Longrightarrow> Inv (s\<lparr>i_flow_list := fl\<rparr>)"
    and lists: "Inv s \<Longrightarrow> Inv (s\<lparr>i_flow_chunk_map := l\<rparr>)"
    and counts: "Inv s \<Longrightarrow> Inv (s\<lparr>i_numTcpPacketsCaptured := i, i_numBytesOfTcpPacketsCaptured := n\<rparr>)"
    and captured: "Inv s \<Longrightarrow> Inv (s\<lparr>i_numPacketsCaptured := i\<rparr>)"
    and fill_send: "Inv s \<Longrightarrow> ideal_fill_gaps cid fid fs p sz seq s = Some (d, e, s1) \<Longrightarrow>
      ideal_send_if_done cid d s1 = Some s2 \<Longrightarrow> Inv s2"
    and snd: "Inv s \<Longrightarrow> ideal_send_chunk p s = Some s' \<Longrightarrow> Inv s'"
    and enter: "Inv s \<Longrightarrow> i_rc_map s cid = None \<Longrightarrow>
      Inv (s\<lparr>i_rc_map := (i_rc_map s)
        (cid \<mapsto> (IdealChunk_new cid len)\<lparr>flow_seq_map := m, chunk_done := d, oracle_data := ob\<rparr>)\<rparr>)"
    and join: "Inv s \<Longrightarrow> i_rc_map s cid = Some rc \<Longrightarrow>
      Inv (s\<lparr>i_rc_map := (i_rc_map s)(cid \<mapsto> rc\<lparr>flow_seq_map := m\<rparr>)\<rparr>)"
    and mark: "Inv s \<Longrightarrow> i_rc_map s cid = Some rc \<Longrightarrow>
      Inv (s\<lparr>i_rc_map := (i_rc_map s)(cid \<mapsto> rc\<lparr>chunk_done := True\<rparr>)\<rparr>)"
    and known: "Inv s \<Longrightarrow> i_rc_map s cid = Some rc \<Longrightarrow>
      Inv (s\<lparr>i_rc_map := (i_rc_map s)(cid \<mapsto> rc\<lparr>oracle_data := Some b\<rparr>)\<rparr>)"
    and initially: "Inv (IdealSniff_new multi)"
begin

lemma ins:
  assumes "ideal_insert fid p sz seq s = Some (e, s')" and "Inv s"
  shows "Inv s'"
  using assms flows
  by (auto simp: ideal_insert_def Let_def bind_eq_Some_conv split: if_splits prod.splits)

lemma touch: "Inv s \<Longrightarrow> i_rc_map s cid = Some rc \<Longrightarrow> Inv (touch_start cid fs rc s)"
  unfolding touch_start_def by (rule join)

lemma deal_pkt_loop:
  "ideal_deal_pkt_loop fid fs p sz seq cis s = Some s' \<Longrightarrow> Inv s \<Longrightarrow> Inv s'"
proof (induction cis arbitrary: s)
  case Nil
  then show ?case by (auto dest: ins)
next
  case (Cons ci cis)
  show ?case
  proof (cases "i_rc_map s ci")
    case None
    with Cons show ?thesis by simp
  next
    case (Some rc)
    note t = touch [OF Cons.prems(2) Some, of fs]
    from Cons.prems(1) Some t Cons.IH [OF _ t] show ?thesis
      by (auto simp: Let_def bind_eq_Some_conv split: if_splits dest: fill_send)
  qed
qed

lemma deal_with_pkt: "ideal_deal_with_pkt fid fs p sz seq s = Some s' \<Longrightarrow> Inv s \<Longrightarrow> Inv s'"
  by (auto simp: ideal_deal_with_pkt_def split: option.splits dest: deal_pkt_loop)

lemma take_candidate:
  "ideal_take_candidate cid fid fs off k s = Some (k', s') \<Longrightarrow> Inv s \<Longrightarrow> Inv s'"
  by (auto simp: ideal_take_candidate_def Let_def bind_eq_Some_conv ideal_erase_block_def
      intro: flows dest: fill_send)

lemma deal_loop:
  "ideal_deal_loop n cid fid fs start len off k s = Some s' \<Longrightarrow> Inv s \<Longrightarrow> Inv s'"
proof (induction n arbitrary: k s)
  case (Suc n)
  then show ?case by (auto simp: bind_eq_Some_conv split: if_splits dest: take_candidate)
qed simp

lemma deal_with_candidates:
  "ideal_deal_with_candidates cid fid fs s = Some s' \<Longrightarrow> Inv s \<Longrightarrow> Inv s'"
  by (auto simp: ideal_deal_with_candidates_def Let_def bind_eq_Some_conv split: if_splits
      intro: touch dest: deal_loop [OF _ touch])

lemma unseen:
  assumes "ideal_unseen_chunk cid fid fs p sz seq s = Some s'" and "Inv s" and "i_rc_map s cid = None"
  shows "Inv s'"
proof -
  from assms(1) obtain n where n: "get_length_from_byte_stream p = Some n"
    by (auto simp: ideal_unseen_chunk_def bind_eq_Some_conv)
  from enter [OF assms(2,3), where len = n and m = "[fs \<mapsto> seq]" and d = False and ob = None]
  have "Inv (s\<lparr>i_rc_map := (i_rc_map s)(cid \<mapsto> (IdealChunk_new cid n)\<lparr>flow_seq_map := [fs \<mapsto> seq]\<rparr>)\<rparr>)"
    by (simp add: IdealChunk_new_def)
  with assms(1) n show ?thesis
    by (auto simp: ideal_unseen_chunk_def Let_def bind_eq_Some_conv
        dest: fill_send deal_with_candidates)
qed

lemma chunk_packet:
  assumes "(case i_rc_map s cid of None \<Rightarrow> ideal_unseen_chunk cid fid fs p sz seq s
      | Some rc \<Rightarrow> ideal_seen_chunk cid rc fid fs p sz seq s) = Some s'" and "Inv s"
  shows "Inv s'"
proof (cases "i_rc_map s cid")
  case None
  with assms unseen show ?thesis by simp
next
  case (Some rc)
  with assms join [OF assms(2) Some] show ?thesis
    by (auto simp: ideal_seen_chunk_def Let_def bind_eq_Some_conv dest: fill_send)
qed

lemma new_flow_packet:
  assumes "ideal_new_flow_packet fid fs p sz seq s = Some s'" and "Inv s"
  shows "Inv s'"
proof -
  from assms(1) obtain r where r: "getChunkId p sz = Some r"
    by (auto simp: ideal_new_flow_packet_def bind_eq_Some_conv)
  show ?thesis
  proof (cases r)
    case None
    with assms r show ?thesis by (auto simp: ideal_new_flow_packet_def dest: ins)
  next
    case (Some co)
    obtain cid off where co: "co = (cid, off)" by (cases co)
    from assms(1) r Some co obtain p1 sz1 seq1 s1 where
      pre: "(if 0 < off then do {
               (e, s1) \<leftarrow> ideal_insert fid p off seq s;
               Some (padd p off, sz - off, seq + word_of_int off, s1)
             } else Some (p, sz, seq, s)) = Some (p1, sz1, seq1, s1)"
      and rest: "(let s2 = s1\<lparr>i_flow_chunk_map := (i_flow_chunk_map s1)(fs \<mapsto> [cid])\<rparr>
        in case i_rc_map s2 cid of None \<Rightarrow> ideal_unseen_chunk cid fid fs p1 sz1 seq1 s2
           | Some rc \<Rightarrow> ideal_seen_chunk cid rc fid fs p1 sz1 seq1 s2) = Some s'"
      by (auto simp: ideal_new_flow_packet_def bind_eq_Some_conv)
    from pre assms(2) have "Inv s1"
      by (auto simp: bind_eq_Some_conv split: if_splits dest: ins)
    then show ?thesis by (intro chunk_packet [OF rest [unfolded Let_def]] lists)
  qed
qed

lemma list_chunk: "ideal_list_chunk cid fs s = Some s' \<Longrightarrow> Inv s \<Longrightarrow> Inv s'"
  by (auto simp: ideal_list_chunk_def bind_eq_Some_conv intro: lists)

lemma old_flow_packet:
  assumes "ideal_old_flow_packet fid fs p sz seq s = Some s'" and "Inv s"
  shows "Inv s'"
proof -
  from assms(1) obtain r where r: "getChunkId p sz = Some r"
    by (auto simp: ideal_old_flow_packet_def bind_eq_Some_conv)
  show ?thesis
  proof (cases r)
    case None
    with assms r show ?thesis by (auto simp: ideal_old_flow_packet_def dest: deal_with_pkt)
  next
    case (Some co)
    obtain cid off where co: "co = (cid, off)" by (cases co)
    from assms(1) r Some co obtain p1 sz1 seq1 s1 s2 where
      pre: "(if 0 < off then do {
               s1 \<leftarrow> ideal_deal_with_pkt fid fs p off seq s;
               Some (padd p off, sz - off, seq + word_of_int off, s1)
             } else Some (p, sz, seq, s)) = Some (p1, sz1, seq1, s1)"
      and add: "ideal_list_chunk cid fs s1 = Some s2"
      and rest: "(case i_rc_map s2 cid of None \<Rightarrow> ideal_unseen_chunk cid fid fs p1 sz1 seq1 s2
           | Some rc \<Rightarrow> ideal_seen_chunk cid rc fid fs p1 sz1 seq1 s2) = Some s'"
      by (auto simp: ideal_old_flow_packet_def bind_eq_Some_conv)
    from pre assms(2) have "Inv s1"
      by (auto simp: bind_eq_Some_conv split: if_splits dest: deal_with_pkt)
    from chunk_packet [OF rest list_chunk [OF add this]] show ?thesis .
  qed
qed

lemma callback:
  assumes "ideal_callback_ethernet pkt s = Some s'" and "Inv s"
  shows "Inv s'"
proof -
  have payload: "Inv s'" if "ideal_tcp_payload fid p sz seq s1 = Some s'" "Inv s1" for fid p sz seq s1
    using that by (auto simp: ideal_tcp_payload_def Let_def split: if_splits option.splits
        dest: ins new_flow_packet old_flow_packet)
  have tcp: "Inv s'" if "ideal_handle_tcp ip hlen len s = Some s'" for ip hlen len
  proof -
    from that have "s' = s \<or> (\<exists>fid p sz seq i n. ideal_tcp_payload fid p sz seq
        (s\<lparr>i_numTcpPacketsCaptured := i, i_numBytesOfTcpPacketsCaptured := n\<rparr>) = Some s')"
      unfolding ideal_handle_tcp_def Let_def
      by (auto simp: bind_eq_Some_conv simp del: split_paired_Ex split_paired_All split: if_splits)
    with assms(2) show ?thesis using counts payload by blast
  qed
  from assms show ?thesis
    by (auto simp: ideal_callback_ethernet_def ideal_handle_ip_def Let_def bind_eq_Some_conv
        split: if_splits dest: tcp)
qed

lemma mark_found: "Inv s \<Longrightarrow> Inv (ideal_mark_found pair n s)"
proof -
  assume inv: "Inv s"
  have "Inv (s\<lparr>i_rc_map := (i_rc_map s)(cid \<mapsto> (IdealChunk_new cid n)\<lparr>chunk_done := True\<rparr>)\<rparr>)"
    if "i_rc_map s cid = None" for cid
    using enter [OF inv that, where len = n and m = Map.empty and d = True and ob = None] by (simp add: IdealChunk_new_def)
  with inv mark show ?thesis
    by (auto simp: ideal_mark_found_def Let_def split: option.split)
qed

lemma grep_block:
  assumes "ideal_grep_block rep b s = Some (ins1, b', s')" and "Inv s"
  shows "Inv s'"
proof -
  let ?blk = "p_s_contiguous_block b"
  from assms(1) obtain r pair n where r: "ideal_grep_scan (length ?blk + 1) ?blk 0 = Some (r, pair, n)"
    by (auto simp: ideal_grep_block_def Let_def bind_eq_Some_conv)
  with assms(1) have "s' = s \<or> (\<exists>p. ideal_send_chunk p (ideal_mark_found pair n s) = Some s')"
    by (cases r) (auto simp: ideal_grep_block_def Let_def bind_eq_Some_conv simp del: split_paired_Ex)
  with assms(2) show ?thesis using snd [OF mark_found] by blast
qed

lemma grep_while: "ideal_grep_while n rep b s = Some (ins1, b', s') \<Longrightarrow> Inv s \<Longrightarrow> Inv s'"
proof (induction n arbitrary: b s ins1)
  case (Suc n)
  show ?case
  proof (cases "bModified b \<and> starting_seq_number b < next_expected_seq_number b")
    case True
    with Suc.prems(1) obtain ins2 b1 s1 ins3 where
      g: "ideal_grep_block rep b s = Some (ins2, b1, s1)"
      "ideal_grep_while n rep b1 s1 = Some (ins3, b', s')"
      by (auto simp: ideal_grep_while.simps bind_eq_Some_conv)
    from grep_block [OF g(1) Suc.prems(2)] show ?thesis by (rule Suc.IH [OF g(2)])
  next
    case False
    with Suc.prems show ?thesis by (auto simp: ideal_grep_while.simps)
  qed
qed (simp add: ideal_grep_while.simps)

lemma grep_blocks: "ideal_grep_blocks rep bs s = Some (bs', s') \<Longrightarrow> Inv s \<Longrightarrow> Inv s'"
  by (induction bs arbitrary: s bs') (auto simp: bind_eq_Some_conv dest: grep_while)

lemma grep_flow_list: "ideal_grep_flow_list rep es s = Some (es', s') \<Longrightarrow> Inv s \<Longrightarrow> Inv s'"
proof (induction es arbitrary: s es')
  case (Cons e es)
  obtain fid bs where "e = (fid, bs)" by (cases e)
  with Cons show ?case by (auto simp: bind_eq_Some_conv dest: grep_blocks)
qed simp

lemma grep_flows: "ideal_grep_flows rep s = Some s' \<Longrightarrow> Inv s \<Longrightarrow> Inv s'"
  by (auto simp: ideal_grep_flows_def bind_eq_Some_conv intro: flows dest: grep_flow_list)

lemma enter_oracle: "Inv s \<Longrightarrow> Inv (enter_oracle key n b s)"
proof -
  assume inv: "Inv s"
  have "Inv (s\<lparr>i_rc_map := (i_rc_map s)(key \<mapsto> (IdealChunk_new key (sint n))\<lparr>oracle_data := Some b\<rparr>)\<rparr>)"
    if "i_rc_map s key = None"
    using enter [OF inv that, where len = "sint n" and m = Map.empty and d = False and ob = "Some b"] by (simp add: IdealChunk_new_def)
  with inv known show ?thesis
    by (auto simp: enter_oracle_def fill_oracle_data_def Let_def split: option.split)
qed

lemma read_records: "read_records big fp s = Inr s' \<Longrightarrow> Inv s \<Longrightarrow> Inv s'"
proof (induction big fp s rule: read_records.induct)
  case (1 big fp s)
  show ?case
  proof (cases "length fp < 24")
    case True
    with "1.prems" show ?thesis by (simp add: read_records.simps)
  next
    case False
    let ?len = "host_unsigned big (slice fp 20 4)"
    let ?data = "take (unat ?len) (drop 24 fp)"
    from "1.prems"(1) False obtain b where
      b: "\<not> CHUNK_SIZE < length ?data" "\<not> length ?data \<noteq> unat ?len" "oracle_block ?data = Some b"
      "read_records big (drop (24 + unat ?len) fp) (enter_oracle (take 20 fp) ?len b s) = Inr s'"
      unfolding read_records.simps [of big fp s]
      by (simp only: if_False Let_def sum.distinct split: if_splits option.splits) blast+
    from "1.IH" [OF False refl refl refl b(1-4)] enter_oracle [OF "1.prems"(2)] show ?thesis .
  qed
qed

lemma reachable: "ideal_reachable rep s \<Longrightarrow> Inv s"
proof (induction rule: ideal_reachable.induct)
  case (start multi)
  show ?case by (rule initially)
next
  case (step s s')
  from step.hyps(2) step.IH show ?case
    by (cases rule: ideal_step.cases)
       (auto simp: run_ideal_analysis_def split: option.splits
         intro: captured dest: callback grep_flows read_records)
qed

end

end
