(* ===== verification/IdealProps.thy ===== *)
theory IdealProps
  imports IdealAnalysis
begin

text \<open>
  The invariants of \<^verbatim>\<open>src/ideal-sniffer\<close>, as interpretations of \<open>ideal_invariant\<close>, and its
  properties: it sends what the sniffer sends, every chunk it put together is marked, and the
  analysis finds the chunks of its input file.
\<close>

section \<open>What the operations leave alone\<close>

lemma ideal_insert_frame:
  "ideal_insert fid p sz seq s = Some (e, s') \<Longrightarrow> \<exists>l. s' = s\<lparr>i_flow_list := l\<rparr>"
  by (auto simp: ideal_insert_def Let_def bind_eq_Some_conv split: if_splits prod.splits)

lemma ideal_send_cases:
  assumes "ideal_send_chunk p s = Some s'"
  obtains "s' = s"
  | d where "s' = s\<lparr>i_numChunksSniffed := i_numChunksSniffed s + 1,
      i_numBytesOfChunksSniffed := i_numBytesOfChunksSniffed s + of_nat (length d),
      i_sent := i_sent s @ [d]\<rparr>"
  using assms by (auto simp: ideal_send_chunk_def bind_eq_Some_conv split: option.splits)

lemma ideal_send_rc_map: "ideal_send_chunk p s = Some s' \<Longrightarrow> i_rc_map s' = i_rc_map s"
  by (erule ideal_send_cases) simp_all

lemma ideal_fill_cases:
  assumes "ideal_fill_gaps cid fid fs p sz seq s = Some (d, e, s')"
  obtains (unknown) "s' = s" "d = False"
  | (filled) rc rc' l sz1 dup dup' r where "i_rc_map s cid = Some rc"
      "fill_gaps_in_chunk fs p sz1 seq (base rc) dup = Some (d, r, dup')"
      "rc' = ReconstructedChunk.extend r (ReconstructedChunk.more rc)"
      "s' = s\<lparr>i_flow_list := l, i_rc_map := (i_rc_map s)(cid \<mapsto> rc'), i_numDuplicateBytes := dup'\<rparr>"
proof -
  from assms obtain rc where rc: "i_rc_map s cid = Some rc"
    by (auto simp: ideal_fill_gaps_def bind_eq_Some_conv)
  show thesis
  proof (cases "flow_seq_map rc fs")
    case None
    with rc assms unknown show ?thesis by (auto simp: ideal_fill_gaps_def)
  next
    case (Some start)
    define diff where "diff = chunk_excess seq sz start (rc_length rc)"
    let ?ins = "(if 0 < diff then ideal_insert fid (padd p (sz - diff)) diff
         (seq + word_of_int sz - word_of_int diff) s else Some (NoEdit, s))"
    from rc Some assms have run: "do {
        (e1, s1) \<leftarrow> ?ins;
        (b, rc', dup) \<leftarrow> IdealChunk_fill_gaps fs p (sz - diff) seq rc (i_numDuplicateBytes s1);
        Some (b, e1, s1\<lparr>i_rc_map := (i_rc_map s1)(cid \<mapsto> rc'), i_numDuplicateBytes := dup\<rparr>)
      } = Some (d, e, s')"
      by (simp add: ideal_fill_gaps_def Let_def diff_def cong: if_cong)
    then obtain e1 s1 where i: "?ins = Some (e1, s1)" by (cases ?ins) auto
    have "\<exists>l. s1 = s\<lparr>i_flow_list := l\<rparr>"
    proof (cases "0 < diff")
      case True
      with i ideal_insert_frame show ?thesis by simp
    next
      case False
      with i have "s1 = s\<lparr>i_flow_list := i_flow_list s\<rparr>" by simp
      then show ?thesis ..
    qed
    then obtain l where l: "s1 = s\<lparr>i_flow_list := l\<rparr>" ..
    from run i obtain b rc' dup' where
      f: "IdealChunk_fill_gaps fs p (sz - diff) seq rc (i_numDuplicateBytes s1) = Some (d, rc', dup')"
      and s': "s' = s1\<lparr>i_rc_map := (i_rc_map s1)(cid \<mapsto> rc'), i_numDuplicateBytes := dup'\<rparr>"
      by (auto simp: bind_eq_Some_conv)
    from f obtain r where
      "fill_gaps_in_chunk fs p (sz - diff) seq (base rc) (i_numDuplicateBytes s1) = Some (d, r, dup')"
      "rc' = ReconstructedChunk.extend r (ReconstructedChunk.more rc)"
      by (auto simp: IdealChunk_fill_gaps_def bind_eq_Some_conv)
    from filled [OF rc this] show ?thesis using s' l by simp
  qed
qed

section \<open>Complete chunks are marked\<close>

definition complete :: "IdealChunk \<Rightarrow> bool" where
  "complete rc = (case lcb rc of
     [] \<Rightarrow> False
   | b # _ \<Rightarrow> unat (word_of_int (rc_length rc) :: u32) \<le> length (p_s_contiguous_block b))"

definition marked :: "IdealSniff \<Rightarrow> bool" where
  "marked s \<longleftrightarrow> (\<forall>cid rc. i_rc_map s cid = Some rc \<longrightarrow> complete rc \<longrightarrow> chunk_done rc)"

lemma markedD: "marked s \<Longrightarrow> i_rc_map s cid = Some rc \<Longrightarrow> complete rc \<Longrightarrow> chunk_done rc"
  by (simp add: marked_def)

lemma marked_cong: "i_rc_map s' = i_rc_map s \<Longrightarrow> marked s' = marked s"
  by (simp add: marked_def)

lemma marked_update:
  "marked s \<Longrightarrow> complete rc \<longrightarrow> chunk_done rc \<Longrightarrow> i_rc_map s' = (i_rc_map s)(cid \<mapsto> rc) \<Longrightarrow> marked s'"
  by (simp add: marked_def)

lemma complete_simps [simp]:
  "complete (rc\<lparr>flow_seq_map := m\<rparr>) = complete rc" "complete (rc\<lparr>chunk_done := d\<rparr>) = complete rc"
  "complete (rc\<lparr>oracle_data := ob\<rparr>) = complete rc" "\<not> complete (IdealChunk_new cid len)"
  by (simp_all add: complete_def IdealChunk_new_def split: list.split)

lemma fg_loop_duplicate:
  "fg_loop p sz q bs dup = Some (bs', dup', True) \<Longrightarrow> bs' = bs"
proof (induction p sz q bs dup arbitrary: bs' dup' rule: fg_loop.induct)
  case (1 p sz q dup)
  then show ?case by (auto simp: bind_eq_Some_conv)
next
  case (2 p sz q b bs dup)
  then show ?case
    by (auto simp: bind_eq_Some_conv fg_within_def Let_def split: if_splits)
qed

lemma fill_not_done:
  assumes "fill_gaps_in_chunk fs p sz seq rc dup = Some (False, rc', dup')"
  shows "lcb rc' = lcb rc \<or>
    (\<exists>b bs. lcb rc' = b # bs \<and> length (p_s_contiguous_block b) < unat (word_of_int (rc_length rc') :: u32))"
proof (cases "flow_seq_map rc fs")
  case None
  with assms show ?thesis by (simp add: fill_gaps_in_chunk_def)
next
  case (Some start)
  with assms obtain bs d where
    l: "fg_loop p sz (seq - start) (lcb rc) dup = Some (bs, dup', d)"
    and f: "fg_finish fs d (rc\<lparr>lcb := bs\<rparr>) = Some (False, rc')"
    by (auto simp: fill_gaps_in_chunk_def bind_eq_Some_conv)
  show ?thesis
  proof (cases d)
    case True
    with l have "fg_loop p sz (seq - start) (lcb rc) dup = Some (bs, dup', True)" by simp
    then have "bs = lcb rc" by (rule fg_loop_duplicate)
    with f True show ?thesis by (auto simp: fg_finish_def)
  next
    case False
    with f show ?thesis by (cases bs) (auto simp: fg_finish_def Let_def)
  qed
qed

lemma send_marks:
  assumes "ideal_send_if_done cid d s = Some s'"
  shows "i_rc_map s' = i_rc_map s \<and> \<not> d \<or>
    (\<exists>rc. i_rc_map s cid = Some rc \<and> i_rc_map s' = (i_rc_map s)(cid \<mapsto> rc\<lparr>chunk_done := True\<rparr>))"
  using assms
  by (auto simp: ideal_send_if_done_def bind_eq_Some_conv dest: ideal_send_rc_map split: if_splits)

lemma extend_parts:
  "lcb (ReconstructedChunk.extend r (ReconstructedChunk.more rc)) = lcb r"
  "rc_length (ReconstructedChunk.extend r (ReconstructedChunk.more rc)) = rc_length r"
  "chunk_done (ReconstructedChunk.extend r (ReconstructedChunk.more rc)) = chunk_done rc"
  for rc :: IdealChunk
  by (cases rc, simp add: ReconstructedChunk.extend_def)+

lemma marked_fill_send:
  assumes "marked s" and "ideal_fill_gaps cid fid fs p sz seq s = Some (d, e, s1)"
    and "ideal_send_if_done cid d s1 = Some s2"
  shows "marked s2"
  using assms(2)
proof (cases rule: ideal_fill_cases)
  case unknown
  with assms(3) have "s2 = s" by (simp add: ideal_send_if_done_def)
  with assms(1) show ?thesis by simp
next
  case (filled rc rc' l sz1 dup dup' r)
  have s1: "i_rc_map s1 = (i_rc_map s)(cid \<mapsto> rc')" unfolding filled(4) by simp
  show ?thesis
  proof (cases d)
    case True
    with send_marks [OF assms(3)] s1 have
      "i_rc_map s2 = (i_rc_map s)(cid \<mapsto> rc'\<lparr>chunk_done := True\<rparr>)" by auto
    then show ?thesis by (rule marked_update [OF assms(1), rotated]) simp
  next
    case False
    with assms(3) have "i_rc_map s2 = (i_rc_map s)(cid \<mapsto> rc')"
      using s1 by (simp add: ideal_send_if_done_def)
    moreover have "complete rc' \<longrightarrow> chunk_done rc'"
    proof
      assume c: "complete rc'"
      from fill_not_done [of fs p sz1 seq "base rc" dup r dup'] filled(2) False
      have "lcb r = lcb rc \<or> (\<exists>b bs. lcb r = b # bs \<and>
        length (p_s_contiguous_block b) < unat (word_of_int (rc_length r) :: u32))" by simp
      moreover have "rc_length r = rc_length rc" using fill_gaps_frame(2) [OF filled(2)] by simp
      ultimately have "complete rc" using c
        by (auto simp: complete_def filled(3) extend_parts cong del: list.case_cong_weak)
      then show "chunk_done rc'" using markedD [OF assms(1) filled(1)]
        by (simp add: filled(3) extend_parts)
    qed
    ultimately show ?thesis by (rule marked_update [OF assms(1), rotated])
  qed
qed

interpretation marks: ideal_invariant marked
proof
  show "marked (s\<lparr>i_flow_list := fl\<rparr>)" if "marked s" for s fl using that by (simp add: marked_def)
  show "marked (s\<lparr>i_flow_chunk_map := l\<rparr>)" if "marked s" for s l using that by (simp add: marked_def)
  show "marked (s\<lparr>i_numTcpPacketsCaptured := i, i_numBytesOfTcpPacketsCaptured := n\<rparr>)"
    if "marked s" for s i n using that by (simp add: marked_def)
  show "marked (s\<lparr>i_numPacketsCaptured := i\<rparr>)" if "marked s" for s i
    using that by (simp add: marked_def)
  show "marked s2" if "marked s" "ideal_fill_gaps cid fid fs p sz seq s = Some (d, e, s1)"
      "ideal_send_if_done cid d s1 = Some s2" for s cid fid fs p sz seq d e s1 s2
    by (rule marked_fill_send [OF that])
  show "marked s'" if "marked s" "ideal_send_chunk p s = Some s'" for s p s'
    using that(1) marked_cong [OF ideal_send_rc_map [OF that(2)]] by simp
  show "marked (s\<lparr>i_rc_map := (i_rc_map s)(cid \<mapsto> (IdealChunk_new cid len)
      \<lparr>flow_seq_map := m, chunk_done := d, oracle_data := ob\<rparr>)\<rparr>)" if "marked s" for s cid len m d ob
    using that by (simp add: marked_def)
  show "marked (s\<lparr>i_rc_map := (i_rc_map s)(cid \<mapsto> rc\<lparr>flow_seq_map := m\<rparr>)\<rparr>)"
    if "marked s" "i_rc_map s cid = Some rc" for s cid rc m
    by (rule marked_update [OF that(1)]) (use markedD [OF that] in simp_all)
  show "marked (s\<lparr>i_rc_map := (i_rc_map s)(cid \<mapsto> rc\<lparr>chunk_done := True\<rparr>)\<rparr>)" if "marked s" for s cid rc
    using that by (simp add: marked_def)
  show "marked (s\<lparr>i_rc_map := (i_rc_map s)(cid \<mapsto> rc\<lparr>oracle_data := Some b\<rparr>)\<rparr>)"
    if "marked s" "i_rc_map s cid = Some rc" for s cid rc b
    by (rule marked_update [OF that(1)]) (use markedD [OF that] in simp_all)
  show "marked (IdealSniff_new multi)" for multi by (simp add: marked_def IdealSniff_new_def)
qed

section \<open>The input file of the analysis\<close>

definition host_bytes :: "bool \<Rightarrow> nat \<Rightarrow> bytes" where
  "host_bytes big n = (if big then id else rev)
     [of_nat (n div 2 ^ 24), of_nat (n div 2 ^ 16), of_nat (n div 2 ^ 8), of_nat n]"

definition record_bytes :: "bool \<Rightarrow> bytes \<times> bytes \<Rightarrow> bytes" where
  "record_bytes big r = fst r @ host_bytes big (length (snd r)) @ snd r"

lemma digits_256:
  fixes n :: nat
  assumes "n < 2 ^ 32"
  shows "2 ^ 24 * (n div 2 ^ 24) + 2 ^ 16 * (n div 2 ^ 16 mod 256) +
    2 ^ 8 * (n div 2 ^ 8 mod 256) + n mod 256 = n"
    and "n div 2 ^ 24 < 256"
proof -
  define a b c where "a = n div 256" and "b = a div 256" and "c = b div 256"
  have "n div 2 ^ 8 = a" "n div 2 ^ 16 = b" "n div 2 ^ 24 = c"
    by (simp_all add: a_def b_def c_def flip: div_mult2_eq)
  moreover have "n = 256 * a + n mod 256" "a = 256 * b + a mod 256" "b = 256 * c + b mod 256"
    by (simp_all add: a_def b_def c_def)
  ultimately show "2 ^ 24 * (n div 2 ^ 24) + 2 ^ 16 * (n div 2 ^ 16 mod 256) +
    2 ^ 8 * (n div 2 ^ 8 mod 256) + n mod 256 = n" by simp
  show "n div 2 ^ 24 < 256" using assms by (simp add: less_mult_imp_div_less)
qed

lemma host_unsigned_bytes:
  assumes "n < 2 ^ 32"
  shows "unat (host_unsigned big (host_bytes big n)) = n"
  using digits_256 [OF assms] mod_less [OF digits_256(2) [OF assms]]
  by (simp add: host_unsigned_def host_bytes_def unat_be32 unat_of_nat)

lemma length_host_bytes [simp]: "length (host_bytes big n) = 4"
  by (simp add: host_bytes_def)

lemma oracle_block_Some:
  "oracle_block data = Some \<lparr>starting_seq_number = 0, next_expected_seq_number = of_nat (length data),
     p_s_contiguous_block = data, bInit = False, bModified = True\<rparr>"
  by (simp add: oracle_block_def cb_append_iff ContiguousBlock_new_def load_Some_iff slice_full)

text \<open>A header in front of the rest of a file.\<close>

lemma header_parts:
  assumes "length key = 20" and "length data < 2 ^ 32"
  shows "take 20 (record_bytes big (key, data) @ more1) = key"
    and "unat (host_unsigned big (slice (record_bytes big (key, data) @ more1) 20 4)) = length data"
    and "drop 24 (record_bytes big (key, data) @ more1) = data @ more1"
  using assms by (simp_all add: record_bytes_def slice_def host_unsigned_bytes)

lemma read_records_next:
  assumes "\<not> length fp < 24" and "take 20 fp = key" and "host_unsigned big (slice fp 20 4) = w"
    and "take (unat w) (drop 24 fp) = data" and "drop (24 + unat w) fp = more1"
    and "length data = unat w" and "length data \<le> CHUNK_SIZE" and "oracle_block data = Some b"
  shows "read_records big fp s = read_records big more1 (enter_oracle key w b s)"
  unfolding read_records.simps [of big fp s] Let_def assms(2-5) using assms(1,6-8) by simp

lemma read_record:
  assumes "length key = 20" and "length data \<le> CHUNK_SIZE" and "oracle_block data = Some b"
  shows "read_records big (record_bytes big (key, data) @ more1) s =
    read_records big more1 (enter_oracle key (of_nat (length data)) b s)"
proof -
  let ?fp = "record_bytes big (key, data) @ more1"
  have small: "length data < 2 ^ 32" using assms(2) by (simp add: CHUNK_SIZE_def)
  then have n: "unat (of_nat (length data) :: u32) = length data"
    by (simp only: unat_of_nat) (simp add: mod_less)
  note h = header_parts [OF assms(1) small, of big more1]
  show ?thesis
  proof (rule read_records_next [OF _ h(1) _ _ _ _ assms(2,3)])
    show "\<not> length ?fp < 24" using assms(1) by (simp add: record_bytes_def)
    show "host_unsigned big (slice ?fp 20 4) = of_nat (length data)"
      using h(2) n by (simp only: word_unat_eq_iff)
    show "take (unat (of_nat (length data) :: u32)) (drop 24 ?fp) = data" by (simp only: n h(3)) simp
    have "drop (24 + length data) ?fp = drop (length data) (drop 24 ?fp)"
      by (simp only: drop_drop add.commute)
    then show "drop (24 + unat (of_nat (length data) :: u32)) ?fp = more1"
      by (simp only: n h(3)) simp
    show "length data = unat (of_nat (length data) :: u32)" by (simp only: n)
  qed
qed

definition enter_record :: "bytes \<times> bytes \<Rightarrow> IdealSniff \<Rightarrow> IdealSniff" where
  "enter_record r s = enter_oracle (fst r) (of_nat (length (snd r))) (the (oracle_block (snd r))) s"

lemma read_all_records:
  assumes "\<forall>r \<in> set recs. length (fst r) = 20 \<and> length (snd r) \<le> CHUNK_SIZE" and "length rest < 24"
  shows "read_records big (concat (map (record_bytes big) recs) @ rest) s = Inr (fold enter_record recs s)"
  using assms(1)
proof (induction recs arbitrary: s)
  case Nil
  with assms(2) show ?case by (simp add: read_records.simps)
next
  case (Cons r recs)
  obtain key data where r: "r = (key, data)" by (cases r)
  with Cons show ?case
    by (simp add: read_record [OF _ _ oracle_block_Some] enter_record_def oracle_block_Some)
qed

lemma enter_record_map:
  assumes "length (snd r) \<le> CHUNK_SIZE"
  shows "i_rc_map (enter_record r s) = (i_rc_map s)(fst r \<mapsto>
    (case i_rc_map s (fst r) of None \<Rightarrow> IdealChunk_new (fst r) (int (length (snd r))) | Some rc \<Rightarrow> rc)
      \<lparr>oracle_data := oracle_block (snd r)\<rparr>)"
proof -
  have "sint (of_nat (length (snd r)) :: u32) = int (length (snd r))"
    using assms by (simp add: CHUNK_SIZE_def signed_of_nat signed_take_bit_int_eq_self)
  then show ?thesis
    by (simp add: enter_record_def enter_oracle_def fill_oracle_data_def oracle_block_Some Let_def
        split: option.split)
qed

lemma fold_enter_map:
  assumes "\<forall>r \<in> set recs. length (snd r) \<le> CHUNK_SIZE"
  shows "i_rc_map (fold enter_record recs s) cid =
    (case map_of (rev recs) cid of
       None \<Rightarrow> i_rc_map s cid
     | Some data \<Rightarrow> Some ((case i_rc_map s cid of
           None \<Rightarrow> IdealChunk_new cid (int (length (the (map_of recs cid))))
         | Some rc \<Rightarrow> rc)\<lparr>oracle_data := oracle_block data\<rparr>))"
  using assms
proof (induction recs arbitrary: s)
  case (Cons r recs)
  from Cons.prems have m: "i_rc_map (enter_record r s) = (i_rc_map s)(fst r \<mapsto>
    (case i_rc_map s (fst r) of None \<Rightarrow> IdealChunk_new (fst r) (int (length (snd r))) | Some rc \<Rightarrow> rc)
      \<lparr>oracle_data := oracle_block (snd r)\<rparr>)" by (simp add: enter_record_map)
  from Cons.prems have ih: "i_rc_map (fold enter_record (r # recs) s) cid =
    (case map_of (rev recs) cid of
       None \<Rightarrow> i_rc_map (enter_record r s) cid
     | Some data \<Rightarrow> Some ((case i_rc_map (enter_record r s) cid of
           None \<Rightarrow> IdealChunk_new cid (int (length (the (map_of recs cid))))
         | Some rc \<Rightarrow> rc)\<lparr>oracle_data := oracle_block data\<rparr>))"
    using Cons.IH [of "enter_record r s"] by simp
  have rev_None: "map_of (rev recs) cid = None \<longleftrightarrow> map_of recs cid = None"
    by (simp add: map_of_eq_None_iff)
  show ?case
    unfolding ih m
    by (cases "map_of (rev recs) cid"; cases "cid = fst r")
       (auto simp: map_of_append map_add_def split: option.split)
qed simp

lemma enter_record_sent: "i_sent (fold enter_record recs s) = i_sent s"
  by (induction recs arbitrary: s) (simp_all add: enter_record_def enter_oracle_def Let_def)

section \<open>A byte that looks like a reply\<close>

text \<open>A block without the first byte of a reply is passed over; at such a byte the chunk id is looked
  up, which compares 24 bytes wherever the block ends.\<close>

lemma grep_passes:
  assumes "RPC_HEADER \<notin> set bs" and "length bs < 2 ^ 31"
  shows "k \<le> length bs \<Longrightarrow> length bs - k < n \<Longrightarrow>
    ideal_grep_scan n (bs @ x) (of_nat k) =
      ideal_grep_scan (n - (length bs - k)) (bs @ x) (of_nat (length bs)) \<and>
    grep_scan n (bs @ x) (of_nat k) =
      grep_scan (n - (length bs - k)) (bs @ x) (of_nat (length bs))"
proof (induction "length bs - k" arbitrary: k n)
  case (Suc m)
  then have k: "k < length bs" by simp
  then have w: "unat (of_nat k :: u32) = k" using assms(2)
    by (simp only: unat_of_nat) (simp add: mod_less)
  from Suc.prems(2) obtain n' where n': "n = Suc n'" by (cases n) simp_all
  have "load8 (c_str (bs @ x)) (uint (of_nat k :: u32)) = Some (bs ! k)"
    using c_str_load8 [of "of_nat k" "bs @ x"] w k by (simp add: nth_append)
  moreover have "bs ! k \<noteq> RPC_HEADER" using assms(1) k by (metis nth_mem)
  ultimately have "ideal_grep_at (bs @ x) (of_nat k) = Some (Inr (of_nat k + 1))"
    "grep_at (bs @ x) (of_nat k) = Some (Inr (of_nat k + 1))"
    by (simp_all add: ideal_grep_at_def grep_at_def)
  then have "ideal_grep_scan n (bs @ x) (of_nat k) = ideal_grep_scan n' (bs @ x) (of_nat (Suc k))"
    "grep_scan n (bs @ x) (of_nat k) = grep_scan n' (bs @ x) (of_nat (Suc k))"
    using k w by (simp_all add: n' ideal_grep_scan.simps grep_scan.simps add.commute)
  moreover have "length bs - Suc k < n'" "m = length bs - Suc k" "Suc k \<le> length bs"
    "n - (length bs - k) = n' - (length bs - Suc k)"
    using Suc n' k by simp_all
  ultimately show ?case using Suc.hyps(1) [of "Suc k" n'] by simp
qed simp

lemma lookup_reads_beyond:
  assumes "fst p ! nat (snd p) = RPC_HEADER" and "0 \<le> snd p"
    and "snd p < int (length (fst p))" and "int (length (fst p)) < snd p + 32" and "0 < sz"
  shows "getChunkId p sz = None"
proof -
  obtain n where n: "nat sz = Suc n" using assms(5) by (cases "nat sz") simp_all
  have "load8 p 0 = Some RPC_HEADER" using assms(1-3) load8_within [of p 0] by simp
  moreover have "load p 8 mask_size_in_bytes = None"
    using assms(4) by (simp add: load_def mask_size_in_bytes_def)
  ultimately show ?thesis by (simp add: getChunkId_def rpc_header_in_stream_def n)
qed

section \<open>Properties\<close>

text \<open>C9. On a capture during which the sniffer's copies of the start and length of each chunk stay up
  to date, the ideal sniffer does what the sniffer does: if it gets through the packets and the
  search, so does the sniffer, and both have the same flows, counters and chunks sent.\<close>

theorem ideal_matches_sniffer:
  assumes "stays_current dump (SniffTcp_new multi)"
    and "ideal_read_dump object_rep dump (IdealSniff_new multi) = Some i"
  shows "\<exists>s. run_pcap_offline object_rep dump (SniffTcp_new multi) = Some s \<and>
    sent s = i_sent i \<and> p_flow_list s = i_flow_list i \<and> numChunksSniffed s = i_numChunksSniffed i \<and>
    numTcpPacketsCaptured s = i_numTcpPacketsCaptured i \<and> numDuplicateBytes s = i_numDuplicateBytes i"
proof -
  from assms(2) obtain i1 where i1: "ideal_dispatch dump (IdealSniff_new multi) = Some i1"
    "ideal_grep_flows object_rep i1 = Some i" by (auto simp: ideal_read_dump_def bind_eq_Some_conv)
  with dispatch_same [OF same_state_new assms(1)] obtain s1 where
    s1: "dispatch dump (SniffTcp_new multi) = Some s1" "same_state i1 s1"
    by (auto simp: option_rel_Some1)
  from grep_flows_agree [OF i1(2) same_output_of_state [OF s1(2)]] s1(1) show ?thesis
    by (auto simp: run_pcap_offline_def same_output_def)
qed

lemma ideal_matches_sniffer_witness:
  "\<exists>s. run_pcap_offline id [sample_frame 80 [0, 0, 3, 232] (sample_header 4 24)] (SniffTcp_new True) = Some s \<and>
     sent s = [] \<and> numTcpPacketsCaptured s = 1"
proof -
  let ?dump = "[sample_frame 80 [0, 0, 3, 232] (sample_header 4 24)]"
  have "map_option (\<lambda>i. (i_sent i, i_numTcpPacketsCaptured i)) (ideal_read_dump id ?dump (IdealSniff_new True)) =
    Some ([], 1)" by code_simp
  then obtain i where i: "ideal_read_dump id ?dump (IdealSniff_new True) = Some i"
    "i_sent i = []" "i_numTcpPacketsCaptured i = 1" by auto
  have "stays_current ?dump (SniffTcp_new True)"
    by (simp add: infos_current_def SniffTcp_new_def split: option.split)
  from ideal_matches_sniffer [OF this i(1)] i(2,3) show ?thesis by auto
qed

text \<open>C20. Whatever happened before, a chunk that \<^verbatim>\<open>dump_flow_chunk_map\<close> reports as not completed is
  one whose bytes received from its start are fewer than its length: none that was put together is
  reported missing.\<close>

theorem undone_incomplete:
  assumes "ideal_reachable object_rep s" and "cid \<in> set (not_completed keys s)"
    and "i_rc_map s cid = Some rc" and "lcb rc = b # bs"
  shows "length (p_s_contiguous_block b) < unat (word_of_int (rc_length rc) :: u32)"
proof -
  have "\<not> complete rc"
    using markedD [OF marks.reachable [OF assms(1)] assms(3)] assms(2,3) by (auto simp: not_completed_def)
  then show ?thesis by (simp add: complete_def assms(4) not_le)
qed

lemma undone_incomplete_witness:
  "\<exists>s rc b bs. ideal_reachable id s \<and> i_rc_map s (replicate 20 5) = Some rc \<and> lcb rc = b # bs \<and>
     length (p_s_contiguous_block b) < unat (word_of_int (rc_length rc) :: u32)"
proof -
  let ?cid = "replicate 20 5 :: bytes"
  let ?pkt = "sample_frame 80 [0, 0, 3, 232] (sample_header 4 24)"
  have "map_option (\<lambda>s. map_option (\<lambda>rc. (chunk_done rc, rc_length rc,
        map (\<lambda>b. length (p_s_contiguous_block b)) (lcb rc))) (i_rc_map s ?cid))
      (ideal_callback_ethernet ?pkt (IdealSniff_new True)) = Some (Some (False, 1048, [76]))"
    by code_simp
  from iffD1 [OF map_option_eq_Some this] obtain s where
    s: "ideal_callback_ethernet ?pkt (IdealSniff_new True) = Some s"
    and m: "map_option (\<lambda>rc. (chunk_done rc, rc_length rc,
        map (\<lambda>b. length (p_s_contiguous_block b)) (lcb rc))) (i_rc_map s ?cid) = Some (False, 1048, [76])"
    by (elim exE conjE)
  from m obtain rc where rc: "i_rc_map s ?cid = Some rc" "\<not> chunk_done rc"
      "map (\<lambda>b. length (p_s_contiguous_block b)) (lcb rc) = [76]"
    by (cases "i_rc_map s ?cid") auto
  from rc(3) obtain b bs where l: "lcb rc = b # bs" by auto
  have "ideal_reachable id s"
    by (rule ideal_reachable.step [OF ideal_reachable.start ideal_step.frame [OF s]])
  moreover have "?cid \<in> set (not_completed [?cid] s)" using rc by (simp add: not_completed_def)
  ultimately have "length (p_s_contiguous_block b) < unat (word_of_int (rc_length rc) :: u32)"
    using rc(1) l by (rule undone_incomplete)
  with \<open>ideal_reachable id s\<close> rc(1) l show ?thesis by blast
qed



text \<open>A chunk of the input file that is longer than \<^verbatim>\<open>CHUNK_SIZE\<close> is written behind the array
  \<^verbatim>\<open>chunk_data\<close>: its length field is not checked.\<close>

theorem analysis_overflows:
  assumes "length key = 20" and "CHUNK_SIZE < length data" and "length data < 2 ^ 32"
  shows "run_ideal_analysis big (Some (record_bytes big (key, data) @ rest)) s = Inl WritesOutside"
proof -
  note h = header_parts [OF assms(1,3), of big rest]
  have t: "take (length data) (drop 24 (record_bytes big (key, data) @ rest)) = data"
    by (simp only: h(3)) simp
  have "\<not> length (record_bytes big (key, data) @ rest) < 24" using assms(1) by (simp add: record_bytes_def)
  then show ?thesis
    unfolding run_ideal_analysis_def option.case
      read_records.simps [of big "record_bytes big (key, data) @ rest" s] Let_def h(2) t
    using assms(2) by (simp only: if_False if_True)
qed

lemma analysis_overflows_witness:
  "run_ideal_analysis True (Some (record_bytes True (replicate 20 5, replicate 16385 0) @ [])) (IdealSniff_new True) =
    Inl WritesOutside"
  by (rule analysis_overflows) (simp_all add: CHUNK_SIZE_def)

text \<open>The search of the ideal sniffer reads behind every block that ends with a byte which could
  start a reply (0x80) and has no such byte before: it looks up the chunk id there without checking
  how much of the block is left. The sniffer's search passes over the block.\<close>

theorem ideal_search_reads_beyond:
  assumes "RPC_HEADER \<notin> set bs" and "length bs < 2 ^ 31"
    and "p_s_contiguous_block b = bs @ [RPC_HEADER]"
  shows "ideal_grep_block object_rep b i = None \<and>
    grep_contiguous_block_for_chunks object_rep b s = Some ([], b\<lparr>bModified := False\<rparr>, s)"
proof -
  let ?blk = "bs @ [RPC_HEADER]" and ?k = "of_nat (length bs) :: u32"
  have w: "unat ?k = length bs" using assms(2) by (simp only: unat_of_nat) (simp add: mod_less)
  then have u: "uint ?k = int (length bs)" by (metis uint_nat)
  have c: "load8 (c_str ?blk) (uint ?k) = Some RPC_HEADER"
    using c_str_load8 [of ?k ?blk] w by simp
  have "getChunkId (padd (c_str ?blk) (uint ?k)) (int_of_size (length ?blk - unat ?k)) = None"
    by (rule lookup_reads_beyond) (simp_all add: padd_def c_str_def u w nth_append int_of_size_def)
  with c have "ideal_grep_at ?blk ?k = None" by (simp add: ideal_grep_at_def)
  moreover have "grep_at ?blk ?k = Some (Inr (?k + 1))"
  proof -
    have "\<not> unat (?k + 3) < length ?blk"
    proof -
      have "unat (?k + 3) = length bs + 3" using unat_add_of_nat32 [of ?k 3] w assms(2) by simp
      then show ?thesis by simp
    qed
    then show ?thesis using c by (simp add: grep_at_def)
  qed
  moreover have "grep_scan 1 ?blk (?k + 1) = Some Exhausted"
  proof -
    have "unat (?k + 1) = length bs + 1" using unat_add_of_nat32 [of ?k 1] w assms(2) by simp
    then show ?thesis by (simp add: grep_scan.simps)
  qed
  ultimately have "ideal_grep_scan (Suc 1) ?blk ?k = None" "grep_scan (Suc 1) ?blk ?k = Some Exhausted"
    using w by (simp_all only: ideal_grep_scan.simps(2) grep_scan.simps(2)) simp_all
  then have "ideal_grep_scan (length ?blk + 1) ?blk 0 = None"
    "grep_scan (length ?blk + 1) ?blk 0 = Some Exhausted"
    using grep_passes [OF assms(1,2), of 0 "length ?blk + 1" "[RPC_HEADER]"] by (simp_all add: numeral_2_eq_2)
  then show ?thesis
    unfolding ideal_grep_block_def grep_contiguous_block_for_chunks_def Let_def assms(3) by simp
qed

lemma ideal_search_reads_beyond_witness:
  "ideal_grep_block id \<lparr>starting_seq_number = 0, next_expected_seq_number = 3,
     p_s_contiguous_block = [1, 2] @ [RPC_HEADER], bInit = False, bModified = True\<rparr> (IdealSniff_new True) = None"
  by (rule ideal_search_reads_beyond [THEN conjunct1, of "[1, 2]"]) (simp_all add: RPC_HEADER_def)

text \<open>Started in offline mode, the ideal sniffer needs all eight arguments: with fewer than seven it
  reads behind the end of \<^verbatim>\<open>argv\<close>, with seven it goes on with a null input file name; with eight it
  takes both file names over.\<close>

theorem ideal_offline_arguments:
  assumes "6 \<le> length argv" and "atoi (argv ! 1) = Some n" and "atoi (argv ! 4) = Some 0"
    and "6 < length argv \<Longrightarrow> atoi (argv ! 6) = Some c"
  shows "ideal_parse_args argv opts =
    (if length argv < 8 then None
     else Some (True, opts\<lparr>num_pkts := n, interface := argv ! 2, socket := argv ! 3, mode := OFFLINE,
       ip_to_ignore := argv ! 5, multi_chance := c, dump_file_name := Some (argv ! 7 ),
       input_file_name := (if length argv = 8 then None else Some (argv ! 8))\<rparr>))"
  using assms by (auto simp: ideal_parse_args_def mode_of_def arg_at_def bind_eq_None_conv)

lemma ideal_offline_arguments_witness:
  "ideal_parse_args [''sniffTcp'', ''5'', ''lo'', ''/tmp/s'', ''0'', ''1.2.3.4'', ''1''] ideal_g_run_options = None"
proof -
  have "atoi ''5'' = Some 5" "atoi ''0'' = Some 0" "atoi ''1'' = Some 1" by code_simp+
  then show ?thesis
    using ideal_offline_arguments [of "[''sniffTcp'', ''5'', ''lo'', ''/tmp/s'', ''0'', ''1.2.3.4'', ''1'']" 5 1
      ideal_g_run_options] by simp
qed

text \<open>The two flows that announce different lengths for one chunk, which make the sniffer read in
  front of a packet (\<open>conflicting_lengths_read_outside\<close>), do the ideal sniffer no harm.\<close>

lemma ideal_survives_conflict:
  "ideal_dispatch [sample_frame 80 [0, 0, 3, 232] (sample_header 4 24),
             sample_frame 81 [0, 0, 3, 232] (sample_header 8 0),
             sample_frame 81 [0, 0, 9, 196] [1, 2, 3]] (IdealSniff_new True) \<noteq> None"
  by code_simp

end
