(* ===== verification/GtcdSession.thy ===== *)
theory GtcdSession
  imports GtcdBase
begin

text \<open>
  \<^verbatim>\<open>src/gtcd/gtcd.T\<close> and \<^verbatim>\<open>gtcd.h\<close>: one client connection of the daemon (class \<^verbatim>\<open>gtcd\<close>), its table of
  transfers and the handlers that read an object: \<^verbatim>\<open>get_init\<close>, \<^verbatim>\<open>get_data\<close> and the callbacks behind
  them, and those that store one by \<^verbatim>\<open>put_init\<close>, \<^verbatim>\<open>put_data\<close>, \<^verbatim>\<open>put_commit\<close>.

  The storage, transfer and chunker plugins are called with a callback. A call is put on the list
  \<open>calls_out\<close>, its answer is an \<open>event\<close> of its own that comes later. \<open>replies\<close> is what has been answered to
  the client, with the number of the call (\<^verbatim>\<open>sbp\<close>) and of the transfer it is about; \<open>told\<close> are the
  calls that return nothing. \<open>None\<close> is a failed assertion, a null pointer or an index outside a vector.
  \<^verbatim>\<open>SEND_SIZE\<close> depends on a constant of the RPC library: the parameter \<open>send_size\<close>.
  Log output and timing are left out.
\<close>

section \<open>State\<close>

text \<open>\<open>XFER_OTHER\<close> is any other value of the enum on the wire.\<close>

datatype xfer_mode = XFER_SEQUENTIAL | XFER_OUT_OF_ORDER | XFER_OTHER

datatype desc_status = DESC_UNKNOWN | DESC_ON_STORAGE | DESC_REQUESTED | DESC_DONE | DESC_ERROR

text \<open>\<open>xcb\<close> is the client call that waits for data, the argument of the stored \<^verbatim>\<open>transfer_data\<close>. The
  \<^verbatim>\<open>unsigned\<close> counters stay below the number of descriptors plus the number of chunks moved.\<close>

record xferData =
  sid :: nat
  xmode :: xfer_mode
  descs :: "dot_descriptor list option"
  descs_status :: "desc_status list option"
  descs_count :: nat
  descs_xfered :: nat
  buf :: bytes
  buf_offset :: u32
  fetching :: bool
  xcb :: "nat option"
  err :: "string option"
  xhints :: "string list option"

definition xferData_new :: xferData where
  "xferData_new = \<lparr>sid = 0, xmode = XFER_SEQUENTIAL, descs = None, descs_status = None,
     descs_count = 0, descs_xfered = 0, buf = [], buf_offset = 0, fetching = False, xcb = None,
     err = None, xhints = None\<rparr>"

record get_data_ok =
  ok_end :: bool
  ok_offset :: u32
  ok_data :: bytes

datatype reply =
    GetInitRes "string + nat"
  | GetDataRes "string + get_data_ok"
  | PutInitRes nat
  | PutDataRes "string option"
  | PutCommitRes "string + bytes"

datatype call =
    FetchTimer nat
  | SpInit nat bytes nat
  | SpDescs nat bytes nat
  | XpDescs nat bytes "string list option" nat
  | SpChunk nat nat nat int dot_descriptor
  | XpChunks nat "dot_descriptor list" "string list list"
  | CpPut nat nat nat bytes
  | CpCommit nat nat nat

datatype sp_note =
    IncRef dot_descriptor
  | PutIchunk dot_descriptor bytes
  | Release dot_descriptor
  | NotifyXp bytes "dot_descriptor list"
  | NotifySp bytes "dot_descriptor list"

record session =
  xferTable :: "nat \<rightharpoonup> xferData"
  xferCounter :: nat
  calls_out :: "call list"
  replies :: "(nat \<times> nat \<times> reply) list"
  told :: "sp_note list"

definition session_new :: session where
  "session_new = \<lparr>xferTable = Map.empty, xferCounter = 1, calls_out = [], replies = [], told = []\<rparr>"

text \<open>Steps the handlers share: answering a call, removing a transfer, writing it back, calling out.\<close>

definition reply_to :: "nat \<Rightarrow> nat \<Rightarrow> reply \<Rightarrow> session \<Rightarrow> session" where
  "reply_to sbp xid r s = s\<lparr>replies := replies s @ [(sbp, xid, r)]\<rparr>"

definition forget :: "nat \<Rightarrow> session \<Rightarrow> session" where
  "forget xid s = s\<lparr>xferTable := (xferTable s)(xid := None)\<rparr>"

definition store :: "nat \<Rightarrow> xferData \<Rightarrow> session \<Rightarrow> session" where
  "store xid pdp s = s\<lparr>xferTable := (xferTable s)(xid \<mapsto> pdp)\<rparr>"

definition call_out :: "call \<Rightarrow> session \<Rightarrow> session" where
  "call_out c s = s\<lparr>calls_out := calls_out s @ [c]\<rparr>"

definition tell :: "sp_note list \<Rightarrow> session \<Rightarrow> session" where
  "tell ns s = s\<lparr>told := told s @ ns\<rparr>"

text \<open>\<^verbatim>\<open>(*v)[i]\<close> of a vector.\<close>

definition vnth :: "'a list \<Rightarrow> nat \<Rightarrow> 'a option" where
  "vnth xs i = (if i < length xs then Some (xs ! i) else None)"

section \<open>Sending data to the client\<close>

definition actual_transfer_data :: "nat \<Rightarrow> nat \<Rightarrow> nat \<Rightarrow> session \<Rightarrow> session option" where
  "actual_transfer_data send_size sbp xid s = do {
     pdp \<leftarrow> xferTable s xid;
     (case err pdp of
        Some e \<Rightarrow> Some (forget xid (reply_to sbp xid (GetDataRes (Inl e)) s))
      | None \<Rightarrow>
          if length (buf pdp) \<le> send_size then do {
            let data = buf pdp;
            let pdp' = pdp\<lparr>buf_offset := buf_offset pdp + of_nat (length data), buf := []\<rparr>;
            ds \<leftarrow> descs pdp;
            if descs_xfered pdp = length ds
            then Some (forget xid (tell (map Release ds) (reply_to sbp xid (GetDataRes (Inr
                   \<lparr>ok_end = True, ok_offset = buf_offset pdp, ok_data = data\<rparr>)) s)))
            else Some (store xid pdp' (reply_to sbp xid (GetDataRes (Inr
                   \<lparr>ok_end = False, ok_offset = buf_offset pdp, ok_data = data\<rparr>)) s))
          }
          else
            let data = take send_size (buf pdp);
                pdp' = pdp\<lparr>buf_offset := buf_offset pdp + of_nat send_size,
                  buf := drop send_size (buf pdp)\<rparr>
            in Some (store xid pdp' (reply_to sbp xid (GetDataRes (Inr
                 \<lparr>ok_end = False, ok_offset = buf_offset pdp, ok_data = data\<rparr>)) s)))
   }"

text \<open>The first chunk on storage and the sum of the lengths before it, in the loop of the out-of-order
  mode over \<^verbatim>\<open>descs->size()\<close> descriptors.\<close>

fun first_on_storage :: "dot_descriptor list \<Rightarrow> desc_status list \<Rightarrow> nat \<Rightarrow> int \<Rightarrow>
    (nat \<times> int \<times> dot_descriptor) option option" where
  "first_on_storage [] st i offset = Some None"
| "first_on_storage (d # ds) [] i offset = None"
| "first_on_storage (d # ds) (v # st) i offset =
     (if v = DESC_ON_STORAGE then Some (Some (i, offset, d))
      else first_on_storage ds st (Suc i) (offset + int (desc_length d)))"

definition transfer_data :: "nat \<Rightarrow> nat \<Rightarrow> nat \<Rightarrow> session \<Rightarrow> session option" where
  "transfer_data send_size sbp xid s = do {
     pdp \<leftarrow> xferTable s xid;
     if err pdp \<noteq> None then actual_transfer_data send_size sbp xid s
     else (case xmode pdp of
        XFER_SEQUENTIAL \<Rightarrow> do {
          ds \<leftarrow> descs pdp;
          if length (buf pdp) < send_size \<and> descs_xfered pdp \<noteq> length ds then do {
            st \<leftarrow> descs_status pdp;
            v \<leftarrow> vnth st (descs_count pdp);
            if v = DESC_ON_STORAGE then do {
              d \<leftarrow> vnth ds (descs_count pdp);
              Some (call_out (SpChunk sbp xid (descs_count pdp) (- 1) d)
                (store xid (pdp\<lparr>descs_count := descs_count pdp + 1\<rparr>) s))
            }
            else actual_transfer_data send_size sbp xid s
          }
          else actual_transfer_data send_size sbp xid s
        }
      | XFER_OUT_OF_ORDER \<Rightarrow>
          if 0 < length (buf pdp) then actual_transfer_data send_size sbp xid s
          else do {
            ds \<leftarrow> descs pdp;
            st \<leftarrow> (case ds of [] \<Rightarrow> Some [] | _ \<Rightarrow> descs_status pdp);
            r \<leftarrow> first_on_storage ds st 0 0;
            (case r of
               None \<Rightarrow> Some s
             | Some (i, offset, d) \<Rightarrow> Some (call_out (SpChunk sbp xid i offset d) s))
          }
      | XFER_OTHER \<Rightarrow> Some s)
   }"

text \<open>\<^verbatim>\<open>(*xcb)()\<close>: the waiting call goes on.\<close>

definition resume_xcb :: "nat \<Rightarrow> nat \<Rightarrow> xferData \<Rightarrow> nat \<Rightarrow> session \<Rightarrow> session option" where
  "resume_xcb send_size xid pdp sbp s =
     transfer_data send_size sbp xid (store xid (pdp\<lparr>xcb := None\<rparr>) s)"

definition get_chunk_cb :: "nat \<Rightarrow> nat \<Rightarrow> nat \<Rightarrow> nat \<Rightarrow> int \<Rightarrow> string + bytes \<Rightarrow> session \<Rightarrow> session option"
  where
  "get_chunk_cb send_size sbp xid desc_no offset res s = do {
     pdp \<leftarrow> xferTable s xid;
     (case res of
        Inl e \<Rightarrow> actual_transfer_data send_size sbp xid (store xid (pdp\<lparr>err := Some e\<rparr>) s)
      | Inr data \<Rightarrow> do {
          st \<leftarrow> descs_status pdp;
          v0 \<leftarrow> vnth st desc_no;
          let st' = st[desc_no := DESC_DONE];
          let pdp1 = pdp\<lparr>buf := buf pdp @ data, descs_status := Some st',
            descs_xfered := descs_xfered pdp + 1,
            buf_offset := (if 0 \<le> offset then word_of_int offset else buf_offset pdp)\<rparr>;
          ds \<leftarrow> descs pdp1;
          if length (buf pdp1) < send_size \<and> descs_xfered pdp1 \<noteq> length ds then do {
            v \<leftarrow> vnth st' (desc_no + 1);
            if v = DESC_ON_STORAGE then do {
              pdp2 \<leftarrow> (if xmode pdp1 = XFER_SEQUENTIAL
                then if descs_count pdp1 = desc_no + 1
                     then Some (pdp1\<lparr>descs_count := descs_count pdp1 + 1\<rparr>) else None
                else Some pdp1);
              d \<leftarrow> vnth ds (desc_no + 1);
              Some (call_out (SpChunk sbp xid (desc_no + 1) (- 1) d) (store xid pdp2 s))
            }
            else actual_transfer_data send_size sbp xid (store xid pdp1 s)
          }
          else actual_transfer_data send_size sbp xid (store xid pdp1 s)
        })
   }"

section \<open>Reading: gtcd_get_data and fetching\<close>

definition gtcd_get_data :: "nat \<Rightarrow> nat \<Rightarrow> nat \<Rightarrow> session \<Rightarrow> session option" where
  "gtcd_get_data send_size sbp xid s = (case xferTable s xid of
     None \<Rightarrow> Some (reply_to sbp xid (GetDataRes (Inl (''unknown transfer id: '' @ show_nat xid))) s)
   | Some pdp \<Rightarrow> do {
       ready \<leftarrow> (if 0 < length (buf pdp) then Some True
         else if xmode pdp = XFER_SEQUENTIAL then do {
           st \<leftarrow> descs_status pdp;
           v \<leftarrow> vnth st (descs_count pdp);
           Some (v = DESC_ON_STORAGE)
         }
         else Some False);
       if ready then transfer_data send_size sbp xid s
       else do {
         ds \<leftarrow> descs pdp;
         if descs_xfered pdp = length ds then Some (forget xid (reply_to sbp xid (GetDataRes (Inr
           \<lparr>ok_end = True, ok_offset = 0, ok_data = []\<rparr>)) s))
         else do {
           some_ready \<leftarrow> (if xmode pdp = XFER_OUT_OF_ORDER then do {
               st \<leftarrow> descs_status pdp;
               r \<leftarrow> first_on_storage ds st 0 0;
               Some (r \<noteq> None)
             }
             else Some False);
           if some_ready then transfer_data send_size sbp xid s
           else if fetching pdp then Some (store xid (pdp\<lparr>xcb := Some sbp\<rparr>) s)
           else Some (call_out (FetchTimer xid)
             (store xid (pdp\<lparr>fetching := True, xcb := Some sbp\<rparr>) s))
         }
       }
     })"

text \<open>The loop of \<^verbatim>\<open>fetch_data\<close>: \<^verbatim>\<open>get_chunk_refcount\<close> of the storage plugin is the argument \<open>refcount\<close>.
  The result is the new status, the references taken and the missing descriptors.\<close>

fun fetch_loop :: "(dot_descriptor \<Rightarrow> int) \<Rightarrow> desc_status list \<Rightarrow> dot_descriptor list \<Rightarrow>
    (desc_status list \<times> sp_note list \<times> dot_descriptor list) option" where
  "fetch_loop refcount [] ds = Some ([], [], [])"
| "fetch_loop refcount (v # st) [] = None"
| "fetch_loop refcount (v # st) (d # ds) = do {
     (st', ns, missing) \<leftarrow> fetch_loop refcount st ds;
     if 0 \<le> refcount d then Some (DESC_ON_STORAGE # st', IncRef d # ns, missing)
     else Some (DESC_REQUESTED # st', ns, d # missing)
   }"

definition fetch_resume :: "nat \<Rightarrow> nat \<Rightarrow> session \<Rightarrow> session option" where
  "fetch_resume send_size xid s = do {
     pdp \<leftarrow> xferTable s xid;
     (case xcb pdp of
        None \<Rightarrow> Some s
      | Some sbp \<Rightarrow> do {
          ready \<leftarrow> (if xmode pdp = XFER_SEQUENTIAL then do {
              st \<leftarrow> descs_status pdp;
              v \<leftarrow> vnth st (descs_count pdp);
              Some (v = DESC_ON_STORAGE)
            }
            else if xmode pdp = XFER_OUT_OF_ORDER then do {
              ds \<leftarrow> descs pdp;
              st \<leftarrow> descs_status pdp;
              r \<leftarrow> first_on_storage ds st 0 0;
              Some (r \<noteq> None)
            }
            else Some False);
          if ready then resume_xcb send_size xid pdp sbp s else Some s
        })
   }"

definition fetch_data :: "nat \<Rightarrow> (dot_descriptor \<Rightarrow> int) \<Rightarrow> nat \<Rightarrow> session \<Rightarrow> session option" where
  "fetch_data send_size refcount xid s = do {
     pdp \<leftarrow> xferTable s xid;
     st \<leftarrow> descs_status pdp;
     ds \<leftarrow> descs pdp;
     (st', ns, missing) \<leftarrow> fetch_loop refcount st ds;
     s1 \<leftarrow> fetch_resume send_size xid (tell ns (store xid (pdp\<lparr>descs_status := Some st'\<rparr>) s));
     if missing = [] then Some s1
     else do {
       hs \<leftarrow> xhints pdp;
       Some (call_out (XpChunks xid missing (map (\<lambda>d. hs) missing)) s1)
     }
   }"

text \<open>The loop of \<^verbatim>\<open>xp_fetch_data_cb\<close> over the descriptors: whether one matched, and the new status. It
  is left at a matching chunk that is on storage.\<close>

fun mark_arrived :: "bytes \<Rightarrow> desc_status list \<Rightarrow> dot_descriptor list \<Rightarrow>
    (bool \<times> desc_status list) option" where
  "mark_arrived cid [] ds = Some (False, [])"
| "mark_arrived cid (v # st) [] = None"
| "mark_arrived cid (v # st) (d # ds) =
     (if desc_id d = cid then
        if v = DESC_ON_STORAGE then Some (False, v # st)
        else do { (m, st') \<leftarrow> mark_arrived cid st ds; Some (True, DESC_ON_STORAGE # st') }
      else do { (m, st') \<leftarrow> mark_arrived cid st ds; Some (m, v # st') })"

definition xp_fetch_data_cb :: "nat \<Rightarrow> nat \<Rightarrow> string + (dot_descriptor \<times> bytes) \<Rightarrow> session \<Rightarrow>
    session option" where
  "xp_fetch_data_cb send_size xid res s = (case xferTable s xid of
     None \<Rightarrow> Some s
   | Some pdp \<Rightarrow>
       (case res of
          Inl e \<Rightarrow>
            let pdp1 = pdp\<lparr>err := Some e\<rparr>
            in (case xcb pdp1 of
                  None \<Rightarrow> Some (store xid pdp1 s)
                | Some sbp \<Rightarrow> resume_xcb send_size xid pdp1 sbp s)
        | Inr (d, data) \<Rightarrow>
            if data = [] then
              let pdp1 = pdp\<lparr>err := Some ''Unable to fetch data from the xfer plugin''\<rparr>
              in (case xcb pdp1 of
                    None \<Rightarrow> Some (store xid pdp1 s)
                  | Some sbp \<Rightarrow> resume_xcb send_size xid pdp1 sbp s)
            else do {
              st \<leftarrow> descs_status pdp;
              ds \<leftarrow> descs pdp;
              (match, st') \<leftarrow> mark_arrived (desc_id d) st ds;
              let pdp1 = pdp\<lparr>descs_status := Some st'\<rparr>;
              let s1 = (if match then tell [PutIchunk d data] (store xid pdp1 s) else store xid pdp1 s);
              (case xcb pdp1 of
                 None \<Rightarrow> Some s1
               | Some sbp \<Rightarrow> do {
                   ready \<leftarrow> (if xmode pdp1 = XFER_OUT_OF_ORDER then Some True
                     else if xmode pdp1 = XFER_SEQUENTIAL then do {
                       v \<leftarrow> vnth st' (descs_count pdp1);
                       Some (v = DESC_ON_STORAGE)
                     }
                     else Some False);
                   if ready then resume_xcb send_size xid pdp1 sbp s1 else Some s1
                 })
            }))"

section \<open>Opening a transfer\<close>

definition get_init :: "nat \<Rightarrow> bytes \<Rightarrow> string list \<Rightarrow> xfer_mode \<Rightarrow> session \<Rightarrow> session" where
  "get_init sbp oid hs xm s =
     (if oid = [] then reply_to sbp 0 (GetInitRes (Inl ''Received invalid OID for GET'')) s
      else if hs = [] then reply_to sbp 0 (GetInitRes (Inl ''No Hints provided for GET'')) s
      else if xm \<noteq> XFER_SEQUENTIAL \<and> xm \<noteq> XFER_OUT_OF_ORDER
      then reply_to sbp 0 (GetInitRes (Inl ''Invalid Trasnfer mode'')) s
      else call_out (SpInit sbp oid (xferCounter s))
        ((store (xferCounter s) (xferData_new\<lparr>xmode := xm, xhints := Some hs\<rparr>) s)
           \<lparr>xferCounter := xferCounter s + 1\<rparr>))"

text \<open>After \<^verbatim>\<open>get_descriptors_init\<close>: the error message it gives is not looked at.\<close>

definition get_init_resumed :: "nat \<Rightarrow> nat \<Rightarrow> string option \<Rightarrow> bytes option \<Rightarrow> session \<Rightarrow> session option"
  where
  "get_init_resumed sbp xid errmsg oidmd s = do {
     o1 \<leftarrow> oidmd;
     Some (call_out (SpDescs sbp o1 xid) s)
   }"

definition get_init_cb :: "nat \<Rightarrow> bytes \<Rightarrow> bool \<Rightarrow> nat \<Rightarrow> string + (dot_descriptor list \<times> bool) \<Rightarrow>
    session \<Rightarrow> session option" where
  "get_init_cb sbp oid last_try xid res s = (case res of
     Inl e \<Rightarrow>
       if \<not> last_try then do {
         pdp \<leftarrow> xferTable s xid;
         Some (call_out (XpDescs sbp oid (xhints pdp) xid) s)
       }
       else Some (reply_to sbp xid (GetInitRes (Inl e)) (forget xid s))
   | Inr (page, end1) \<Rightarrow> do {
       pdp \<leftarrow> xferTable s xid;
       let ds = (case descs pdp of None \<Rightarrow> page | Some ds0 \<Rightarrow> ds0 @ page);
       let pdp1 = pdp\<lparr>descs := Some ds\<rparr>;
       if end1 then Some (reply_to sbp xid (GetInitRes (Inr xid))
         (tell (NotifyXp oid ds # (if last_try then [NotifySp oid ds] else []))
           (store xid (pdp1\<lparr>descs_status := Some (replicate (length ds) DESC_UNKNOWN)\<rparr>) s)))
       else Some (store xid pdp1 s)
     })"

section \<open>Storing an object\<close>

text \<open>\<open>sid1\<close> is what the chunker's \<^verbatim>\<open>init\<close> returns.\<close>

definition put_init :: "nat \<Rightarrow> nat \<Rightarrow> session \<Rightarrow> session" where
  "put_init sbp sid1 s = reply_to sbp (xferCounter s) (PutInitRes (xferCounter s))
     ((store (xferCounter s) (xferData_new\<lparr>sid := sid1\<rparr>) s)\<lparr>xferCounter := xferCounter s + 1\<rparr>)"

definition put_data :: "nat \<Rightarrow> nat \<Rightarrow> bytes \<Rightarrow> nat \<Rightarrow> session \<Rightarrow> session option" where
  "put_data sbp xid data count s = (case xferTable s xid of
     None \<Rightarrow> Some (reply_to sbp xid (PutDataRes (Some (''unknown xferID '' @ show_nat xid))) s)
   | Some pdp \<Rightarrow>
       if length data = count then Some (call_out (CpPut sbp xid (sid pdp) data) s) else None)"

definition put_data_cb :: "nat \<Rightarrow> nat \<Rightarrow> string option \<Rightarrow> session \<Rightarrow> session" where
  "put_data_cb sbp xid e s = reply_to sbp xid (PutDataRes e) s"

definition put_commit :: "nat \<Rightarrow> nat \<Rightarrow> session \<Rightarrow> session" where
  "put_commit sbp xid s = (case xferTable s xid of
     None \<Rightarrow> reply_to sbp xid (PutCommitRes (Inl (''unknown xferID '' @ show_nat xid))) s
   | Some pdp \<Rightarrow> call_out (CpCommit sbp xid (sid pdp)) (forget xid s))"

text \<open>The reply also carries the default hint of the transfer plugin.\<close>

definition put_commit_cb :: "nat \<Rightarrow> nat \<Rightarrow> string + bytes \<Rightarrow> session \<Rightarrow> session" where
  "put_commit_cb sbp xid res s = reply_to sbp xid (PutCommitRes res) s"

section \<open>Events\<close>

datatype client_call =
    GetInit bytes "string list" xfer_mode
  | GetData nat
  | PutInit nat
  | PutData nat bytes nat
  | PutCommit nat

text \<open>The answers to the calls_out: of \<^verbatim>\<open>get_descriptors_init\<close>, a page of descriptors, the reference counts
  when the timer fires, a chunk of the storage, a chunk of the transfer plugin (one per chunk asked
  for), the chunker's answers.\<close>

datatype answer =
    InitAnswer "string option" "bytes option"
  | DescsAnswer "string + (dot_descriptor list \<times> bool)"
  | TimerAnswer "dot_descriptor \<Rightarrow> int"
  | ChunkAnswer "string + bytes"
  | FetchAnswer "string + (dot_descriptor \<times> bytes)"
  | PutAnswer "string option"
  | CommitAnswer "string + bytes"

datatype event = Client nat client_call | Answered call answer

text \<open>\<^verbatim>\<open>dispatch\<close>, and the callback an answer runs. A call is finished by its answer, one for descriptors
  by its last page or an error; \<^verbatim>\<open>get_chunks\<close> is answered once for each chunk.\<close>

definition session_dispatch :: "nat \<Rightarrow> nat \<Rightarrow> client_call \<Rightarrow> session \<Rightarrow> session option" where
  "session_dispatch send_size sbp c s = (case c of
     GetInit oid hs xm \<Rightarrow> Some (get_init sbp oid hs xm s)
   | GetData xid \<Rightarrow> gtcd_get_data send_size sbp xid s
   | PutInit sid1 \<Rightarrow> Some (put_init sbp sid1 s)
   | PutData xid data count \<Rightarrow> put_data sbp xid data count s
   | PutCommit xid \<Rightarrow> Some (put_commit sbp xid s))"

definition finish_call :: "call \<Rightarrow> session \<Rightarrow> session" where
  "finish_call c s = s\<lparr>calls_out := remove1 c (calls_out s)\<rparr>"

definition last_page :: "string + (dot_descriptor list \<times> bool) \<Rightarrow> bool" where
  "last_page r = (case r of Inl e \<Rightarrow> True | Inr (ds, end1) \<Rightarrow> end1)"

fun run_callback :: "nat \<Rightarrow> call \<Rightarrow> answer \<Rightarrow> session \<Rightarrow> session option" where
  "run_callback n (FetchTimer xid) (TimerAnswer refcount) s =
     fetch_data n refcount xid (finish_call (FetchTimer xid) s)"
| "run_callback n (SpInit sbp oid xid) (InitAnswer errmsg oidmd) s =
     get_init_resumed sbp xid errmsg oidmd (finish_call (SpInit sbp oid xid) s)"
| "run_callback n (SpDescs sbp oid xid) (DescsAnswer r) s =
     get_init_cb sbp oid False xid r
       (if last_page r then finish_call (SpDescs sbp oid xid) s else s)"
| "run_callback n (XpDescs sbp oid hs xid) (DescsAnswer r) s =
     get_init_cb sbp oid True xid r
       (if last_page r then finish_call (XpDescs sbp oid hs xid) s else s)"
| "run_callback n (SpChunk sbp xid k off d) (ChunkAnswer r) s =
     get_chunk_cb n sbp xid k off r (finish_call (SpChunk sbp xid k off d) s)"
| "run_callback n (XpChunks xid ds hs) (FetchAnswer r) s = xp_fetch_data_cb n xid r s"
| "run_callback n (CpPut sbp xid sid1 data) (PutAnswer e) s =
     Some (put_data_cb sbp xid e (finish_call (CpPut sbp xid sid1 data) s))"
| "run_callback n (CpCommit sbp xid sid1) (CommitAnswer r) s =
     Some (put_commit_cb sbp xid r (finish_call (CpCommit sbp xid sid1) s))"
| "run_callback n c a s = Some s"

definition handle_event :: "nat \<Rightarrow> event \<Rightarrow> session \<Rightarrow> session option" where
  "handle_event send_size e s = (case e of
     Client sbp c \<Rightarrow> session_dispatch send_size sbp c s
   | Answered c a \<Rightarrow> if c \<in> set (calls_out s) then run_callback send_size c a s else Some s)"

end
