(* ===== verification/GtcdSerial.thy ===== *)
theory GtcdSerial
  imports GtcdSession
begin

text \<open>
  A client that reads an object in sequential mode and waits for each answer before it asks for more.
  \<open>serial\<close> is what such a client and a storage plugin that returns the chunks' bytes may do; the other
  transfers of the connection run in between. \<open>seq_inv\<close> is the invariant of one transfer: what was sent
  plus what is in the buffer is what has been moved so far.
\<close>

section \<open>What belongs to one transfer\<close>

fun call_xid :: "call \<Rightarrow> nat" where
  "call_xid (FetchTimer x) = x"
| "call_xid (SpInit b o1 x) = x"
| "call_xid (SpDescs b o1 x) = x"
| "call_xid (XpDescs b o1 hs x) = x"
| "call_xid (SpChunk b x k off d) = x"
| "call_xid (XpChunks x ds hs) = x"
| "call_xid (CpPut b x i data) = x"
| "call_xid (CpCommit b x i) = x"

fun is_chunk :: "call \<Rightarrow> bool" where
  "is_chunk (SpChunk b x k off d) = True"
| "is_chunk c = False"

fun is_timer :: "call \<Rightarrow> bool" where
  "is_timer (FetchTimer x) = True"
| "is_timer c = False"

fun is_fetch :: "call \<Rightarrow> bool" where
  "is_fetch (XpChunks x ds hs) = True"
| "is_fetch c = False"

fun is_open :: "call \<Rightarrow> bool" where
  "is_open (SpInit b o1 x) = True"
| "is_open (SpDescs b o1 x) = True"
| "is_open (XpDescs b o1 hs x) = True"
| "is_open c = False"

definition of_xfer :: "(call \<Rightarrow> bool) \<Rightarrow> nat \<Rightarrow> session \<Rightarrow> call list" where
  "of_xfer P xid s = filter (\<lambda>c. P c \<and> call_xid c = xid) (calls_out s)"

definition pieces :: "nat \<Rightarrow> session \<Rightarrow> get_data_ok list" where
  "pieces xid s = concat (map (\<lambda>(sbp, x, r). if x = xid
     then (case r of GetDataRes (Inr ok) \<Rightarrow> [ok] | _ \<Rightarrow> []) else []) (replies s))"

lemma of_xfer_simps [simp]:
  "of_xfer P xid (reply_to b x r s) = of_xfer P xid s"
  "of_xfer P xid (store x p s) = of_xfer P xid s"
  "of_xfer P xid (forget x s) = of_xfer P xid s"
  "of_xfer P xid (tell ns s) = of_xfer P xid s"
  "of_xfer P xid (s\<lparr>xferCounter := n\<rparr>) = of_xfer P xid s"
  "of_xfer P xid (call_out c s) =
     of_xfer P xid s @ (if P c \<and> call_xid c = xid then [c] else [])"
  "of_xfer P xid (finish_call c s) =
     (if P c \<and> call_xid c = xid then remove1 c (of_xfer P xid s) else of_xfer P xid s)"
  by (simp_all add: of_xfer_def reply_to_def store_def forget_def tell_def call_out_def
      finish_call_def filter_remove1 remove1_idem)

lemma pieces_simps [simp]:
  "pieces xid (store x p s) = pieces xid s"
  "pieces xid (forget x s) = pieces xid s"
  "pieces xid (tell ns s) = pieces xid s"
  "pieces xid (call_out c s) = pieces xid s"
  "pieces xid (finish_call c s) = pieces xid s"
  "pieces xid (s\<lparr>xferCounter := n\<rparr>) = pieces xid s"
  "pieces xid (reply_to b x r s) = pieces xid s @
     (if x = xid then (case r of GetDataRes (Inr ok) \<Rightarrow> [ok] | _ \<Rightarrow> []) else [])"
  by (simp_all add: pieces_def reply_to_def store_def forget_def tell_def call_out_def
      finish_call_def)

lemma table_simps [simp]:
  "xferTable (reply_to b x r s) = xferTable s" "xferTable (tell ns s) = xferTable s"
  "xferTable (call_out c s) = xferTable s" "xferTable (finish_call c s) = xferTable s"
  "xferTable (store x p s) = (xferTable s)(x \<mapsto> p)"
  "xferTable (forget x s) = (xferTable s)(x := None)"
  "xferCounter (reply_to b x r s) = xferCounter s" "xferCounter (tell ns s) = xferCounter s"
  "xferCounter (call_out c s) = xferCounter s" "xferCounter (finish_call c s) = xferCounter s"
  "xferCounter (store x p s) = xferCounter s" "xferCounter (forget x s) = xferCounter s"
  by (simp_all add: reply_to_def store_def forget_def tell_def call_out_def finish_call_def)

lemma replies_simps [simp]:
  "replies (store x p s) = replies s" "replies (forget x s) = replies s"
  "replies (tell ns s) = replies s" "replies (call_out c s) = replies s"
  "replies (finish_call c s) = replies s" "replies (reply_to b x r s) = replies s @ [(b, x, r)]"
  by (simp_all add: reply_to_def store_def forget_def tell_def call_out_def finish_call_def)

section \<open>Handlers leave other transfers alone\<close>

definition untouched :: "nat \<Rightarrow> session \<Rightarrow> session \<Rightarrow> bool" where
  "untouched xid s s' \<longleftrightarrow> xferTable s' xid = xferTable s xid \<and> pieces xid s' = pieces xid s \<and>
     (\<forall>P. of_xfer P xid s' = of_xfer P xid s) \<and> xferCounter s \<le> xferCounter s'"

lemma untouched_refl [simp]: "untouched xid s s"
  by (simp add: untouched_def)

lemma untouched_trans: "untouched xid s s1 \<Longrightarrow> untouched xid s1 s2 \<Longrightarrow> untouched xid s s2"
  by (simp add: untouched_def)

lemma untouched_base:
  "x \<noteq> xid \<Longrightarrow> untouched xid s (store x p s1) = untouched xid s s1"
  "x \<noteq> xid \<Longrightarrow> untouched xid s (forget x s1) = untouched xid s s1"
  "x \<noteq> xid \<Longrightarrow> untouched xid s (reply_to b x r s1) = untouched xid s s1"
  "untouched xid s (tell ns s1) = untouched xid s s1"
  "call_xid c \<noteq> xid \<Longrightarrow> untouched xid s (call_out c s1) = untouched xid s s1"
  "call_xid c \<noteq> xid \<Longrightarrow> untouched xid s (finish_call c s1) = untouched xid s s1"
  by (simp_all add: untouched_def)

lemma actual_untouched:
  "actual_transfer_data n sbp x s1 = Some s' \<Longrightarrow> x \<noteq> xid \<Longrightarrow> untouched xid s s1 \<Longrightarrow> untouched xid s s'"
  by (auto simp: actual_transfer_data_def Let_def bind_eq_Some_conv untouched_base
      split: option.splits if_splits)

lemma transfer_untouched:
  "transfer_data n sbp x s1 = Some s' \<Longrightarrow> x \<noteq> xid \<Longrightarrow> untouched xid s s1 \<Longrightarrow> untouched xid s s'"
  by (auto simp: transfer_data_def bind_eq_Some_conv untouched_base
      split: option.splits if_splits xfer_mode.splits dest: actual_untouched)

lemma resume_untouched:
  "resume_xcb n x pdp sbp s1 = Some s' \<Longrightarrow> x \<noteq> xid \<Longrightarrow> untouched xid s s1 \<Longrightarrow> untouched xid s s'"
  unfolding resume_xcb_def by (erule transfer_untouched) (simp_all add: untouched_base)

lemma get_chunk_cb_cases:
  assumes "get_chunk_cb n sbp x k off r s = Some s'"
  obtains p where "actual_transfer_data n sbp x (store x p s) = Some s'"
  | p k' d where "s' = call_out (SpChunk sbp x k' (- 1) d) (store x p s)"
proof -
  from assms obtain pdp where pdp: "xferTable s x = Some pdp"
    by (auto simp: get_chunk_cb_def bind_eq_Some_conv)
  show thesis
  proof (cases r)
    case (Inl e)
    with assms pdp that(1) show ?thesis by (simp add: get_chunk_cb_def)
  next
    case (Inr data)
    with assms pdp obtain st v0 where st: "descs_status pdp = Some st" "vnth st k = Some v0"
      by (auto simp: get_chunk_cb_def bind_eq_Some_conv)
    let ?p = "pdp\<lparr>buf := buf pdp @ data, descs_status := Some (st[k := DESC_DONE]),
      descs_xfered := descs_xfered pdp + 1,
      buf_offset := (if 0 \<le> off then word_of_int off else buf_offset pdp)\<rparr>"
    from Inr assms pdp st obtain ds where ds: "descs pdp = Some ds"
      by (auto simp: get_chunk_cb_def bind_eq_Some_conv Let_def)
    show ?thesis
    proof (cases "length (buf ?p) < n \<and> descs_xfered ?p \<noteq> length ds")
      case False
      with assms Inr pdp st ds have "actual_transfer_data n sbp x (store x ?p s) = Some s'"
        by (auto simp: get_chunk_cb_def Let_def)
      then show ?thesis by (rule that(1))
    next
      case True
      with assms Inr pdp st ds obtain v where v: "vnth (st[k := DESC_DONE]) (k + 1) = Some v"
        by (auto simp: get_chunk_cb_def Let_def bind_eq_Some_conv)
      show ?thesis
      proof (cases "v = DESC_ON_STORAGE")
        case False
        with True assms Inr pdp st ds v have "actual_transfer_data n sbp x (store x ?p s) = Some s'"
          by (auto simp: get_chunk_cb_def Let_def)
        then show ?thesis by (rule that(1))
      next
        case on: True
        with True assms Inr pdp st ds v obtain p2 d where
          "s' = call_out (SpChunk sbp x (k + 1) (- 1) d) (store x p2 s)"
          by (cases "xmode pdp = XFER_SEQUENTIAL"; cases "descs_count pdp = k + 1")
             (auto simp: get_chunk_cb_def Let_def bind_eq_Some_conv)
        then show ?thesis by (rule that(2))
      qed
    qed
  qed
qed

lemma get_chunk_untouched:
  "get_chunk_cb n sbp x k off r s1 = Some s' \<Longrightarrow> x \<noteq> xid \<Longrightarrow> untouched xid s s1 \<Longrightarrow>
   untouched xid s s'"
  by (erule get_chunk_cb_cases) (auto simp: untouched_base elim!: actual_untouched)

lemma get_data_untouched:
  "gtcd_get_data n sbp x s1 = Some s' \<Longrightarrow> x \<noteq> xid \<Longrightarrow> untouched xid s s1 \<Longrightarrow> untouched xid s s'"
  by (auto simp: gtcd_get_data_def bind_eq_Some_conv untouched_base
      split: option.splits if_splits dest: transfer_untouched)

lemma fetch_resume_untouched:
  "fetch_resume n x s1 = Some s' \<Longrightarrow> x \<noteq> xid \<Longrightarrow> untouched xid s s1 \<Longrightarrow> untouched xid s s'"
  by (auto simp: fetch_resume_def bind_eq_Some_conv split: option.splits if_splits
      dest: resume_untouched)

lemma fetch_untouched:
  "fetch_data n rc x s1 = Some s' \<Longrightarrow> x \<noteq> xid \<Longrightarrow> untouched xid s s1 \<Longrightarrow> untouched xid s s'"
  by (auto simp: fetch_data_def bind_eq_Some_conv untouched_base split: if_splits
      dest!: fetch_resume_untouched)

lemma xp_fetch_untouched:
  "xp_fetch_data_cb n x r s1 = Some s' \<Longrightarrow> x \<noteq> xid \<Longrightarrow> untouched xid s s1 \<Longrightarrow> untouched xid s s'"
  by (auto simp: xp_fetch_data_cb_def Let_def bind_eq_Some_conv untouched_base
      split: option.splits sum.splits if_splits prod.splits elim!: resume_untouched)

lemma get_init_cb_untouched:
  "get_init_cb sbp o1 l x r s1 = Some s' \<Longrightarrow> x \<noteq> xid \<Longrightarrow> untouched xid s s1 \<Longrightarrow> untouched xid s s'"
  by (auto simp: get_init_cb_def Let_def bind_eq_Some_conv untouched_base
      split: sum.splits if_splits prod.splits)

text \<open>The transfer an event is about; opening one is about the next number.\<close>

definition event_xid :: "event \<Rightarrow> session \<Rightarrow> nat" where
  "event_xid e s = (case e of
     Client sbp (GetInit o1 hs m) \<Rightarrow> xferCounter s
   | Client sbp (GetData x) \<Rightarrow> x
   | Client sbp (PutInit i) \<Rightarrow> xferCounter s
   | Client sbp (PutData x data n) \<Rightarrow> x
   | Client sbp (PutCommit x) \<Rightarrow> x
   | Answered c a \<Rightarrow> call_xid c)"

lemma run_callback_untouched:
  assumes "run_callback n c a s = Some s'" and "call_xid c \<noteq> xid"
  shows "untouched xid s s'"
  using assms
  by (cases "(n, c, a, s)" rule: run_callback.cases)
     (auto simp: untouched_base get_init_resumed_def put_data_cb_def put_commit_cb_def
       bind_eq_Some_conv split: if_splits
       elim!: fetch_untouched get_init_cb_untouched get_chunk_untouched xp_fetch_untouched)

lemma event_untouched:
  assumes "handle_event n e s = Some s'" and "event_xid e s \<noteq> xid"
  shows "untouched xid s s'"
proof (cases e)
  case (Client sbp c)
  then show ?thesis
  proof (cases c)
    case (GetInit o1 hs m)
    with Client assms have "s' = get_init sbp o1 hs m s"
      by (simp add: handle_event_def session_dispatch_def)
    with assms(2) Client GetInit show ?thesis
      by (auto simp: get_init_def untouched_def event_xid_def)
  next
    case (GetData x)
    with Client assms show ?thesis
      by (auto simp: handle_event_def session_dispatch_def event_xid_def elim!: get_data_untouched)
  next
    case (PutInit i)
    with Client assms have "s' = put_init sbp i s"
      by (simp add: handle_event_def session_dispatch_def)
    with assms(2) Client PutInit show ?thesis
      by (auto simp: put_init_def untouched_def event_xid_def)
  next
    case (PutData x data m)
    with Client assms show ?thesis
      by (auto simp: handle_event_def session_dispatch_def event_xid_def put_data_def
          untouched_base split: option.splits if_splits)
  next
    case (PutCommit x)
    with Client assms show ?thesis
      by (auto simp: handle_event_def session_dispatch_def event_xid_def put_commit_def
          untouched_base split: option.splits)
  qed
next
  case (Answered c a)
  with assms show ?thesis
    by (auto simp: handle_event_def event_xid_def split: if_splits elim!: run_callback_untouched)
qed

section \<open>The serial client\<close>

definition request_waits :: "nat \<Rightarrow> session \<Rightarrow> bool" where
  "request_waits xid s \<longleftrightarrow> of_xfer is_chunk xid s \<noteq> [] \<or>
     (case xferTable s xid of None \<Rightarrow> False | Some pdp \<Rightarrow> xcb pdp \<noteq> None)"

text \<open>What may happen to the transfer \<open>xid\<close>: no request for data while one waits, no
  \<^verbatim>\<open>put_commit\<close> of a transfer that reads, and the storage answers with the bytes of the chunk. Whatever
  is about other transfers may happen.\<close>

definition serial :: "(dot_descriptor \<Rightarrow> bytes) \<Rightarrow> nat \<Rightarrow> event \<Rightarrow> session \<Rightarrow> bool" where
  "serial content xid e s \<longleftrightarrow> event_xid e s \<noteq> xid \<or> (case e of
     Client sbp (GetData x) \<Rightarrow> \<not> request_waits xid s
   | Client sbp (PutCommit x) \<Rightarrow> False
   | Client sbp (PutData x data n) \<Rightarrow> length data = n
   | Answered (SpChunk b x k off d) (ChunkAnswer (Inr data)) \<Rightarrow> data = content d
   | _ \<Rightarrow> True)"

definition moved :: "(dot_descriptor \<Rightarrow> bytes) \<Rightarrow> dot_descriptor list \<Rightarrow> nat \<Rightarrow> bytes" where
  "moved content ds k = concat (map content (take k ds))"

definition object_of :: "(dot_descriptor \<Rightarrow> bytes) \<Rightarrow> dot_descriptor list \<Rightarrow> bytes" where
  "object_of content ds = concat (map content ds)"

definition sent_bytes :: "nat \<Rightarrow> session \<Rightarrow> bytes" where
  "sent_bytes xid s = concat (map ok_data (pieces xid s))"

text \<open>Each reply starts where the one before ended.\<close>

primrec offsets_from :: "nat \<Rightarrow> get_data_ok list \<Rightarrow> bool" where
  "offsets_from n [] = True"
| "offsets_from n (r # rs) = (ok_offset r = of_nat n \<and> offsets_from (n + length (ok_data r)) rs)"

lemma offsets_from_snoc:
  "offsets_from n (rs @ [r]) \<longleftrightarrow> offsets_from n rs \<and>
     ok_offset r = of_nat (n + length (concat (map ok_data rs)))"
  by (induction rs arbitrary: n) (simp_all add: add.assoc)

definition history :: "(dot_descriptor \<Rightarrow> bytes) \<Rightarrow> dot_descriptor list \<Rightarrow> nat \<Rightarrow> session \<Rightarrow> bool" where
  "history content ds xid s \<longleftrightarrow> offsets_from 0 (pieces xid s) \<and>
     (\<exists>rest. object_of content ds = sent_bytes xid s @ rest) \<and>
     (\<forall>r \<in> set (pieces xid s). ok_end r \<longrightarrow> sent_bytes xid s = object_of content ds)"

definition core :: "(dot_descriptor \<Rightarrow> bytes) \<Rightarrow> dot_descriptor list \<Rightarrow> nat \<Rightarrow> xferData \<Rightarrow> session \<Rightarrow>
    bool" where
  "core content ds xid pdp s \<longleftrightarrow> xmode pdp = XFER_SEQUENTIAL \<and> descs pdp = Some ds \<and>
     (\<exists>st. descs_status pdp = Some st \<and> length st = length ds) \<and> xhints pdp \<noteq> None \<and>
     descs_xfered pdp \<le> length ds \<and>
     sent_bytes xid s @ buf pdp = moved content ds (descs_xfered pdp) \<and>
     buf_offset pdp = of_nat (length (sent_bytes xid s)) \<and>
     offsets_from 0 (pieces xid s) \<and> (\<forall>r \<in> set (pieces xid s). \<not> ok_end r)"

definition seq_inv :: "(dot_descriptor \<Rightarrow> bytes) \<Rightarrow> dot_descriptor list \<Rightarrow> nat \<Rightarrow> session \<Rightarrow> bool" where
  "seq_inv content ds xid s \<longleftrightarrow> of_xfer is_open xid s = [] \<and> xid < xferCounter s \<and>
     (case xferTable s xid of
        None \<Rightarrow> of_xfer is_chunk xid s = [] \<and> of_xfer is_timer xid s = [] \<and> history content ds xid s
      | Some pdp \<Rightarrow> core content ds xid pdp s \<and>
          (\<not> fetching pdp \<longrightarrow> of_xfer is_timer xid s = [] \<and> of_xfer is_fetch xid s = []) \<and>
          (of_xfer is_timer xid s = [] \<or>
           of_xfer is_timer xid s = [FetchTimer xid] \<and> xcb pdp \<noteq> None \<and> of_xfer is_fetch xid s = []) \<and>
          (of_xfer is_chunk xid s = [] \<and> descs_count pdp = descs_xfered pdp \<and>
             (descs_xfered pdp = length ds \<longrightarrow> buf pdp \<noteq> [] \<and> xcb pdp = None) \<or>
           (\<exists>sbp. of_xfer is_chunk xid s = [SpChunk sbp xid (descs_xfered pdp) (- 1) (ds ! descs_xfered pdp)]) \<and>
             descs_xfered pdp < length ds \<and> descs_count pdp = Suc (descs_xfered pdp) \<and> xcb pdp = None))"

lemma moved_all: "moved content ds (length ds) = object_of content ds"
  by (simp add: moved_def object_of_def)

lemma moved_rest: "object_of content ds = moved content ds k @ concat (map content (drop k ds))"
  unfolding object_of_def moved_def by (simp only: append_take_drop_id flip: concat_append map_append)

lemma moved_Suc: "k < length ds \<Longrightarrow> moved content ds (Suc k) = moved content ds k @ content (ds ! k)"
  by (simp add: moved_def take_Suc_conv_app_nth)

lemma sent_bytes_simps [simp]:
  "sent_bytes xid (store x p s) = sent_bytes xid s" "sent_bytes xid (forget x s) = sent_bytes xid s"
  "sent_bytes xid (tell ns s) = sent_bytes xid s" "sent_bytes xid (call_out c s) = sent_bytes xid s"
  "sent_bytes xid (finish_call c s) = sent_bytes xid s"
  "sent_bytes xid (reply_to b x r s) = sent_bytes xid s @
     (if x = xid then (case r of GetDataRes (Inr ok) \<Rightarrow> ok_data ok | _ \<Rightarrow> []) else [])"
  by (simp_all add: sent_bytes_def split: reply.split sum.split)

lemma core_history:
  assumes "core content ds xid pdp s"
  shows "history content ds xid s"
proof -
  from assms have m: "sent_bytes xid s @ buf pdp = moved content ds (descs_xfered pdp)"
    by (simp add: core_def)
  have "object_of content ds = sent_bytes xid s @ (buf pdp @ concat (map content (drop (descs_xfered pdp) ds)))"
    unfolding append_assoc [symmetric] m by (rule moved_rest)
  with assms show ?thesis by (auto simp: core_def history_def)
qed

lemma core_cong:
  assumes "core content ds xid pdp s" and "pieces xid s' = pieces xid s"
    and "xmode p = xmode pdp" "descs p = descs pdp" "descs_status p = descs_status pdp"
      "xhints p = xhints pdp" "descs_xfered p = descs_xfered pdp" "buf p = buf pdp"
      "buf_offset p = buf_offset pdp"
  shows "core content ds xid p s'"
  using assms by (simp add: core_def sent_bytes_def)

text \<open>Sending what is in the buffer, or the error.\<close>

lemma actual_seq:
  assumes "xferTable s xid = Some pdp" and "core content ds xid pdp s"
    and "of_xfer is_open xid s = []" and "xid < xferCounter s"
    and "of_xfer is_chunk xid s = []" and "of_xfer is_timer xid s = []"
    and "\<not> fetching pdp \<longrightarrow> of_xfer is_fetch xid s = []"
    and "err pdp = None \<Longrightarrow> descs_count pdp = descs_xfered pdp" and "xcb pdp = None"
  shows "\<exists>s'. actual_transfer_data n sbp xid s = Some s' \<and> seq_inv content ds xid s'"
proof (cases "err pdp")
  case (Some e)
  from core_history [OF assms(2)] have "history content ds xid
      (forget xid (reply_to sbp xid (GetDataRes (Inl e)) s))"
    by (simp add: history_def)
  with Some assms show ?thesis by (simp add: actual_transfer_data_def seq_inv_def)
next
  case None
  with assms(8) have count: "descs_count pdp = descs_xfered pdp" by simp
  from assms(2) have c: "descs pdp = Some ds" "buf_offset pdp = of_nat (length (sent_bytes xid s))"
    "sent_bytes xid s @ buf pdp = moved content ds (descs_xfered pdp)"
    "offsets_from 0 (pieces xid s)" "\<forall>r \<in> set (pieces xid s). \<not> ok_end r"
    by (auto simp: core_def)
  have len: "length (moved content ds (descs_xfered pdp)) = length (sent_bytes xid s) + length (buf pdp)"
    by (simp flip: c(3))
  let ?rep = "\<lambda>e data. reply_to sbp xid (GetDataRes (Inr
    \<lparr>ok_end = e, ok_offset = buf_offset pdp, ok_data = data\<rparr>)) s"
  have rep: "pieces xid (?rep e data) =
        pieces xid s @ [\<lparr>ok_end = e, ok_offset = buf_offset pdp, ok_data = data\<rparr>]"
    "sent_bytes xid (?rep e data) = sent_bytes xid s @ data" for e data
    by simp_all
  have offs: "offsets_from 0 (pieces xid (?rep e data))" for e data
    using c(2,4) unfolding rep offsets_from_snoc by (simp add: sent_bytes_def)
  show ?thesis
  proof (cases "length (buf pdp) \<le> n")
    case small: True
    show ?thesis
    proof (cases "descs_xfered pdp = length ds")
      case True
      let ?s = "forget xid (tell (map Release ds) (?rep True (buf pdp)))"
      have "sent_bytes xid ?s = object_of content ds"
        using c(3) True by (simp add: rep(2) moved_all)
      then have "history content ds xid ?s" using offs by (simp add: history_def)
      moreover have "actual_transfer_data n sbp xid s = Some ?s"
        using assms(1) None small True c(1) by (simp add: actual_transfer_data_def Let_def)
      ultimately show ?thesis using assms(3-6) by (simp add: seq_inv_def)
    next
      case False
      let ?p = "pdp\<lparr>buf_offset := buf_offset pdp + of_nat (length (buf pdp)), buf := []\<rparr>"
      have "core content ds xid ?p (store xid ?p (?rep False (buf pdp)))"
        using assms(2) offs [of False "buf pdp"] c by (simp add: core_def rep len)
      moreover have "actual_transfer_data n sbp xid s = Some (store xid ?p (?rep False (buf pdp)))"
        using assms(1) None small False c(1) by (simp add: actual_transfer_data_def Let_def)
      ultimately show ?thesis using assms(3-7,9) count False by (simp add: seq_inv_def)
    qed
  next
    case False
    let ?d = "take n (buf pdp)"
    let ?p = "pdp\<lparr>buf_offset := buf_offset pdp + of_nat n, buf := drop n (buf pdp)\<rparr>"
    from False have "length ?d = n" by simp
    with c(3) have "core content ds xid ?p (store xid ?p (?rep False ?d))"
      using assms(2) offs [of False ?d] by (simp add: core_def rep)
    moreover have "actual_transfer_data n sbp xid s = Some (store xid ?p (?rep False ?d))"
      using assms(1) None False by (simp add: actual_transfer_data_def Let_def)
    ultimately show ?thesis using assms(3-7,9) count False by (simp add: seq_inv_def)
  qed
qed

lemma transfer_seq:
  assumes "xferTable s xid = Some pdp" and "core content ds xid pdp s"
    and "of_xfer is_open xid s = []" and "xid < xferCounter s"
    and "of_xfer is_chunk xid s = []" and "of_xfer is_timer xid s = []"
    and "\<not> fetching pdp \<longrightarrow> of_xfer is_fetch xid s = []"
    and "descs_count pdp = descs_xfered pdp" and "xcb pdp = None"
  shows "\<exists>s'. transfer_data n sbp xid s = Some s' \<and> seq_inv content ds xid s'"
proof -
  note act = actual_seq [OF assms(1-7), of n sbp]
  from assms(2) obtain st where c: "descs pdp = Some ds" "descs_status pdp = Some st"
    "length st = length ds" "xmode pdp = XFER_SEQUENTIAL" "descs_xfered pdp \<le> length ds"
    by (auto simp: core_def)
  show ?thesis
  proof (cases "err pdp = None \<and> length (buf pdp) < n \<and> descs_xfered pdp \<noteq> length ds \<and>
      st ! descs_count pdp = DESC_ON_STORAGE")
    case True
    then have k: "descs_xfered pdp < length ds" using c(5) by simp
    let ?p = "pdp\<lparr>descs_count := descs_count pdp + 1\<rparr>"
    let ?s = "call_out (SpChunk sbp xid (descs_count pdp) (- 1) (ds ! descs_count pdp)) (store xid ?p s)"
    have "transfer_data n sbp xid s = Some ?s"
      using True assms(1,8) c k by (simp add: transfer_data_def vnth_def)
    moreover have "core content ds xid ?p ?s" by (rule core_cong [OF assms(2)]) simp_all
    ultimately show ?thesis using assms(3-9) k by (simp add: seq_inv_def)
  next
    case False
    have "transfer_data n sbp xid s = actual_transfer_data n sbp xid s"
    proof (cases "err pdp = None")
      case True
      with False assms(1,8) c show ?thesis by (auto simp: transfer_data_def vnth_def)
    next
      case False
      with assms(1) show ?thesis by (simp add: transfer_data_def)
    qed
    with act assms(8,9) show ?thesis by simp
  qed
qed

lemma resume_seq:
  assumes "core content ds xid pdp s" and "of_xfer is_open xid s = []" and "xid < xferCounter s"
    and "of_xfer is_chunk xid s = []" and "of_xfer is_timer xid s = []"
    and "\<not> fetching pdp \<longrightarrow> of_xfer is_fetch xid s = []"
    and "descs_count pdp = descs_xfered pdp"
  shows "\<exists>s'. resume_xcb n xid pdp sbp s = Some s' \<and> seq_inv content ds xid s'"
proof -
  let ?p = "pdp\<lparr>xcb := None\<rparr>"
  have "core content ds xid ?p (store xid ?p s)" by (rule core_cong [OF assms(1)]) simp_all
  then show ?thesis
    unfolding resume_xcb_def by (rule transfer_seq [rotated]) (use assms in simp_all)
qed

lemma get_chunk_seq:
  assumes "seq_inv content ds xid s" and "SpChunk sbp xid k off d \<in> set (calls_out s)"
    and "res = Inr (content d) \<or> (\<exists>e. res = Inl e)"
  shows "\<exists>s'. get_chunk_cb n sbp xid k off res (finish_call (SpChunk sbp xid k off d) s) = Some s' \<and>
    seq_inv content ds xid s'"
proof -
  let ?c = "SpChunk sbp xid k off d"
  let ?s = "finish_call ?c s"
  have c: "?c \<in> set (of_xfer is_chunk xid s)" using assms(2) by (simp add: of_xfer_def)
  from assms(1) have inv: "of_xfer is_open xid s = []" "xid < xferCounter s"
    by (simp_all add: seq_inv_def)
  from assms(1) c obtain pdp where pdp: "xferTable s xid = Some pdp"
    by (auto simp: seq_inv_def split: option.splits)
  with assms(1) c obtain sbp1 where core: "core content ds xid pdp s"
    and f: "\<not> fetching pdp \<longrightarrow> of_xfer is_timer xid s = [] \<and> of_xfer is_fetch xid s = []"
    and tm: "of_xfer is_timer xid s = [] \<or> xcb pdp \<noteq> None"
    and ch: "of_xfer is_chunk xid s = [SpChunk sbp1 xid (descs_xfered pdp) (- 1) (ds ! descs_xfered pdp)]"
    and k: "descs_xfered pdp < length ds" "descs_count pdp = Suc (descs_xfered pdp)" "xcb pdp = None"
    by (auto simp: seq_inv_def)
  from c ch have eq: "sbp = sbp1" "k = descs_xfered pdp" "off = - 1" "d = ds ! descs_xfered pdp"
    by simp_all
  have left: "of_xfer is_chunk xid ?s = []" "of_xfer is_timer xid ?s = []"
      "of_xfer is_open xid ?s = []" "\<not> fetching pdp \<longrightarrow> of_xfer is_fetch xid ?s = []"
    using ch eq tm k(3) inv f by simp_all
  show ?thesis
  proof (cases res)
    case (Inl e)
    let ?p = "pdp\<lparr>err := Some e\<rparr>"
    have "core content ds xid ?p (store xid ?p ?s)" by (rule core_cong [OF core]) simp_all
    then have "\<exists>s'. actual_transfer_data n sbp xid (store xid ?p ?s) = Some s' \<and> seq_inv content ds xid s'"
      by (rule actual_seq [rotated]) (use left inv k in simp_all)
    with Inl pdp show ?thesis by (simp add: get_chunk_cb_def)
  next
    case (Inr data)
    with assms(3) eq have data: "data = content (ds ! k)" by simp
    from core obtain st where st: "descs pdp = Some ds" "descs_status pdp = Some st"
      "length st = length ds" "xmode pdp = XFER_SEQUENTIAL" by (auto simp: core_def)
    let ?st = "st[k := DESC_DONE]"
    let ?p = "pdp\<lparr>buf := buf pdp @ data, descs_status := Some ?st, descs_xfered := Suc (descs_xfered pdp)\<rparr>"
    have core1: "core content ds xid ?p s"
      using core st k data eq by (simp add: core_def moved_Suc flip: append_assoc)
    show ?thesis
    proof (cases "length (buf ?p) < n \<and> descs_xfered ?p \<noteq> length ds \<and> ?st ! Suc k = DESC_ON_STORAGE")
      case True
      then have k1: "Suc k < length ds" using k(1) eq by simp
      let ?p2 = "?p\<lparr>descs_count := Suc (Suc k)\<rparr>"
      let ?s2 = "call_out (SpChunk sbp xid (Suc k) (- 1) (ds ! Suc k)) (store xid ?p2 ?s)"
      have "get_chunk_cb n sbp xid k off res ?s = Some ?s2"
        using Inr pdp st True k k1 eq by (simp add: get_chunk_cb_def vnth_def Let_def)
      moreover have "core content ds xid ?p2 ?s2" by (rule core_cong [OF core1]) simp_all
      ultimately show ?thesis using left inv k k1 eq by (simp add: seq_inv_def)
    next
      case False
      have "get_chunk_cb n sbp xid k off res ?s = actual_transfer_data n sbp xid (store xid ?p ?s)"
        using Inr pdp st False k eq by (auto simp: get_chunk_cb_def vnth_def Let_def)
      moreover have "core content ds xid ?p (store xid ?p ?s)" by (rule core_cong [OF core1]) simp_all
      then have "\<exists>s'. actual_transfer_data n sbp xid (store xid ?p ?s) = Some s' \<and> seq_inv content ds xid s'"
        by (rule actual_seq [rotated]) (use left inv k in simp_all)
      ultimately show ?thesis by simp
    qed
  qed
qed

lemma get_data_seq:
  assumes "seq_inv content ds xid s" and "\<not> request_waits xid s"
  shows "\<exists>s'. gtcd_get_data n sbp xid s = Some s' \<and> seq_inv content ds xid s'"
proof (cases "xferTable s xid")
  case None
  with assms(1) show ?thesis by (simp add: gtcd_get_data_def seq_inv_def history_def)
next
  case (Some pdp)
  from assms Some have core: "core content ds xid pdp s" and inv: "of_xfer is_open xid s = []"
      "xid < xferCounter s"
    and x: "xcb pdp = None" and ch: "of_xfer is_chunk xid s = []"
    and f: "\<not> fetching pdp \<longrightarrow> of_xfer is_timer xid s = [] \<and> of_xfer is_fetch xid s = []"
    and tm: "of_xfer is_timer xid s = []"
    and k: "descs_count pdp = descs_xfered pdp" "descs_xfered pdp = length ds \<longrightarrow> buf pdp \<noteq> []"
    by (auto simp: seq_inv_def request_waits_def)
  from core obtain st where st: "descs pdp = Some ds" "descs_status pdp = Some st"
    "length st = length ds" "xmode pdp = XFER_SEQUENTIAL" "descs_xfered pdp \<le> length ds"
    by (auto simp: core_def)
  show ?thesis
  proof (cases "0 < length (buf pdp) \<or> st ! descs_count pdp = DESC_ON_STORAGE")
    case True
    have "gtcd_get_data n sbp xid s = transfer_data n sbp xid s"
      using Some st True k by (auto simp: gtcd_get_data_def vnth_def)
    with transfer_seq [OF Some core inv ch tm _ k(1) x] f show ?thesis by simp
  next
    case False
    then have k1: "descs_xfered pdp < length ds" using k st(5) by auto
    let ?p = "pdp\<lparr>fetching := True, xcb := Some sbp\<rparr>"
    have core1: "core content ds xid p (store xid p s)" if "p = ?p \<or> p = pdp\<lparr>xcb := Some sbp\<rparr>" for p
      by (rule core_cong [OF core]) (use that in auto)
    show ?thesis
    proof (cases "fetching pdp")
      case True
      with Some st False k k1 have
        "gtcd_get_data n sbp xid s = Some (store xid (pdp\<lparr>xcb := Some sbp\<rparr>) s)"
        by (simp add: gtcd_get_data_def vnth_def)
      with core1 [of "pdp\<lparr>xcb := Some sbp\<rparr>"] True inv ch tm k k1 show ?thesis
        by (simp add: seq_inv_def)
    next
      case nf: False
      with Some st False k k1 have
        "gtcd_get_data n sbp xid s = Some (call_out (FetchTimer xid) (store xid ?p s))"
        by (simp add: gtcd_get_data_def vnth_def)
      moreover have "core content ds xid ?p (call_out (FetchTimer xid) (store xid ?p s))"
        by (rule core_cong [OF core]) simp_all
      ultimately show ?thesis using nf inv ch tm k k1 f by (simp add: seq_inv_def)
    qed
  qed
qed

lemma fetch_loop_ok:
  "length st = length ds \<Longrightarrow>
   \<exists>st' ns missing. fetch_loop rc st ds = Some (st', ns, missing) \<and> length st' = length ds"
proof (induction st arbitrary: ds)
  case (Cons v st)
  then obtain d ds' where ds: "ds = d # ds'" and l: "length st = length ds'" by (cases ds) auto
  from Cons.IH [OF l] obtain st' ns missing where
    "fetch_loop rc st ds' = Some (st', ns, missing)" "length st' = length ds'" by blast
  with ds show ?case by (cases "0 \<le> rc d") simp_all
qed simp

lemma mark_arrived_ok:
  "length st = length ds \<Longrightarrow> \<exists>m st'. mark_arrived cid st ds = Some (m, st') \<and> length st' = length ds"
proof (induction st arbitrary: ds)
  case (Cons v st)
  then obtain d ds' where ds: "ds = d # ds'" and l: "length st = length ds'" by (cases ds) auto
  from Cons.IH [OF l] obtain m st' where
    "mark_arrived cid st ds' = Some (m, st')" "length st' = length ds'" by blast
  with ds l show ?case by (cases "desc_id d = cid"; cases "v = DESC_ON_STORAGE") auto
qed auto

lemma seq_inv_fetch:
  "seq_inv content ds xid s \<Longrightarrow> of_xfer is_timer xid s = [] \<Longrightarrow>
   (\<And>pdp. xferTable s xid = Some pdp \<Longrightarrow> fetching pdp) \<Longrightarrow>
   seq_inv content ds xid (call_out (XpChunks xid l h) s)"
  by (auto simp: seq_inv_def core_def history_def split: option.splits)

end
