(* ===== verification/GtcdReading.thy ===== *)
theory GtcdReading
  imports GtcdSerial
begin

text \<open>
  The invariant of \<^verbatim>\<open>GtcdSerial\<close> over every event of the connection, and what it gives of
  \<^verbatim>\<open>src/gtcd/gtcd.T\<close>: a sequential transfer sends a prefix of the object, in order, and says it is at its
  end only when all was sent.
\<close>

section \<open>Fetching keeps the invariant\<close>

lemma seq_inv_tell [simp]: "seq_inv content ds xid (tell ns s) = seq_inv content ds xid s"
  by (simp add: seq_inv_def core_def history_def cong: option.case_cong)

definition keeps_fetching :: "nat \<Rightarrow> session \<Rightarrow> session \<Rightarrow> bool" where
  "keeps_fetching xid s s' \<longleftrightarrow> of_xfer is_timer xid s' = of_xfer is_timer xid s \<and>
     (\<forall>p'. xferTable s' xid = Some p' \<longrightarrow>
        (\<exists>p. xferTable s xid = Some p \<and> fetching p' = fetching p))"

lemma actual_keeps:
  "actual_transfer_data n sbp xid s = Some s' \<Longrightarrow> keeps_fetching xid s s'"
  by (auto simp: actual_transfer_data_def Let_def bind_eq_Some_conv keeps_fetching_def
      split: option.splits if_splits)

lemma transfer_keeps:
  "transfer_data n sbp xid s = Some s' \<Longrightarrow> keeps_fetching xid s s'"
  by (auto simp: transfer_data_def bind_eq_Some_conv
      split: option.splits if_splits xfer_mode.splits dest: actual_keeps)
     (auto simp: keeps_fetching_def)

lemma fetch_resume_seq:
  assumes "xferTable s xid = Some pdp" and "core content ds xid pdp s"
    and "of_xfer is_open xid s = []" and "xid < xferCounter s"
    and "of_xfer is_chunk xid s = []" and "of_xfer is_timer xid s = []" and "fetching pdp"
    and "descs_count pdp = descs_xfered pdp" and "descs_xfered pdp < length ds"
  shows "\<exists>s'. fetch_resume n xid s = Some s' \<and> seq_inv content ds xid s' \<and> keeps_fetching xid s s'"
proof -
  from assms(2) obtain st where st: "descs_status pdp = Some st" "length st = length ds"
    "xmode pdp = XFER_SEQUENTIAL" by (auto simp: core_def)
  have same: "seq_inv content ds xid s" "keeps_fetching xid s s"
    using assms by (simp_all add: seq_inv_def keeps_fetching_def)
  show ?thesis
  proof (cases "xcb pdp = None \<or> st ! descs_count pdp \<noteq> DESC_ON_STORAGE")
    case True
    with assms st have "fetch_resume n xid s = Some s"
      by (cases "xcb pdp") (auto simp: fetch_resume_def vnth_def)
    with same show ?thesis by simp
  next
    case False
    then obtain sbp where sbp: "xcb pdp = Some sbp" by auto
    have "fetch_resume n xid s = resume_xcb n xid pdp sbp s"
      using assms st sbp False by (simp add: fetch_resume_def vnth_def)
    moreover obtain s' where s': "resume_xcb n xid pdp sbp s = Some s'" "seq_inv content ds xid s'"
      using resume_seq [OF assms(2-6) _ assms(8), of n sbp] assms(7) by blast
    moreover have "keeps_fetching xid s s'"
      using transfer_keeps [OF s'(1) [unfolded resume_xcb_def]] assms(1)
      by (simp add: keeps_fetching_def)
    ultimately show ?thesis by simp
  qed
qed

lemma fetch_seq:
  assumes "seq_inv content ds xid s" and "FetchTimer xid \<in> set (calls_out s)"
  shows "\<exists>s'. fetch_data n rc xid (finish_call (FetchTimer xid) s) = Some s' \<and> seq_inv content ds xid s'"
proof -
  let ?s = "finish_call (FetchTimer xid) s"
  have t: "FetchTimer xid \<in> set (of_xfer is_timer xid s)" using assms(2) by (simp add: of_xfer_def)
  with assms(1) obtain pdp where pdp: "xferTable s xid = Some pdp"
    by (auto simp: seq_inv_def split: option.splits)
  with assms(1) t have core: "core content ds xid pdp s" and inv: "of_xfer is_open xid s = []"
      "xid < xferCounter s" "fetching pdp" "of_xfer is_timer xid s = [FetchTimer xid]"
      "of_xfer is_chunk xid s = []" "descs_count pdp = descs_xfered pdp" "descs_xfered pdp < length ds"
    by (auto simp: seq_inv_def core_def)
  from core obtain st hs where st: "descs_status pdp = Some st" "length st = length ds"
    "descs pdp = Some ds" "xhints pdp = Some hs" by (auto simp: core_def)
  from fetch_loop_ok [OF st(2), of rc] obtain st' ns missing where
    l: "fetch_loop rc st ds = Some (st', ns, missing)" "length st' = length ds" by blast
  let ?p = "pdp\<lparr>descs_status := Some st'\<rparr>"
  let ?s1 = "tell ns (store xid ?p ?s)"
  have "core content ds xid ?p ?s1" using core l(2) by (simp add: core_def)
  then have "\<exists>s'. fetch_resume n xid ?s1 = Some s' \<and> seq_inv content ds xid s' \<and>
      keeps_fetching xid ?s1 s'"
    by (rule fetch_resume_seq [rotated]) (use inv in simp_all)
  then obtain s' where s': "fetch_resume n xid ?s1 = Some s'" "seq_inv content ds xid s'"
    "keeps_fetching xid ?s1 s'" by blast
  show ?thesis
  proof (cases "missing = []")
    case True
    with pdp st l s' show ?thesis by (simp add: fetch_data_def)
  next
    case False
    let ?c = "XpChunks xid missing (map (\<lambda>d. hs) missing)"
    have "fetch_data n rc xid ?s = Some (call_out ?c s')"
      using False pdp st l s' by (simp add: fetch_data_def)
    moreover have "seq_inv content ds xid (call_out ?c s')"
      using s'(2,3) inv by (intro seq_inv_fetch) (auto simp: keeps_fetching_def)
    ultimately show ?thesis by blast
  qed
qed

text \<open>An error is kept for later, or given to the waiting call.\<close>

lemma resumed_or_stored:
  assumes "seq_inv content ds xid s" and "xferTable s xid = Some pdp"
    and "core content ds xid p s" and "xcb p = xcb pdp" "fetching p = fetching pdp"
      "descs_xfered p = descs_xfered pdp" "descs_count p = descs_count pdp" "buf p = buf pdp"
    and "XpChunks xid l h \<in> set (calls_out s)"
  shows "seq_inv content ds xid (store xid p s)"
    and "xcb p = Some sbp \<Longrightarrow> \<exists>s'. resume_xcb n xid p sbp s = Some s' \<and> seq_inv content ds xid s'"
proof -
  have f: "XpChunks xid l h \<in> set (of_xfer is_fetch xid s)" using assms(9) by (simp add: of_xfer_def)
  have c: "core content ds xid p (store xid p s)" by (rule core_cong [OF assms(3)]) simp_all
  then show "seq_inv content ds xid (store xid p s)"
    using assms(1,2,4-8) by (simp add: seq_inv_def)
  show "\<exists>s'. resume_xcb n xid p sbp s = Some s' \<and> seq_inv content ds xid s'" if "xcb p = Some sbp"
    by (rule resume_seq [OF assms(3)]) (use assms(1,2,4-7) f that in \<open>auto simp: seq_inv_def\<close>)
qed

lemma xp_fetch_seq:
  assumes "seq_inv content ds xid s" and "XpChunks xid l h \<in> set (calls_out s)"
  shows "\<exists>s'. xp_fetch_data_cb n xid res s = Some s' \<and> seq_inv content ds xid s'"
proof (cases "xferTable s xid")
  case None
  with assms(1) show ?thesis by (simp add: xp_fetch_data_cb_def)
next
  case (Some pdp)
  with assms(1) have core: "core content ds xid pdp s" by (simp add: seq_inv_def)
  have failed: "\<exists>s'. (case xcb pdp of None \<Rightarrow> Some (store xid (pdp\<lparr>err := Some e\<rparr>) s)
      | Some sbp \<Rightarrow> resume_xcb n xid (pdp\<lparr>err := Some e\<rparr>) sbp s) = Some s' \<and> seq_inv content ds xid s'" for e
  proof -
    have c: "core content ds xid (pdp\<lparr>err := Some e\<rparr>) s" by (rule core_cong [OF core]) simp_all
    show ?thesis
      using resumed_or_stored [OF assms(1) Some c _ _ _ _ _ assms(2)]
      by (cases "xcb pdp") auto
  qed
  show ?thesis
  proof (cases res)
    case (Inl e)
    with Some failed show ?thesis by (simp add: xp_fetch_data_cb_def Let_def)
  next
    case (Inr dd)
    obtain d data where dd: "dd = (d, data)" by (cases dd)
    show ?thesis
    proof (cases "data = []")
      case True
      with Some failed Inr dd show ?thesis by (simp add: xp_fetch_data_cb_def Let_def)
    next
      case False
      from core obtain st where st: "descs_status pdp = Some st" "length st = length ds"
        "descs pdp = Some ds" "xmode pdp = XFER_SEQUENTIAL" by (auto simp: core_def)
      from mark_arrived_ok [OF st(2), of "desc_id d"] obtain m st' where
        m: "mark_arrived (desc_id d) st ds = Some (m, st')" "length st' = length ds" by blast
      let ?p = "pdp\<lparr>descs_status := Some st'\<rparr>"
      define s1 where "s1 = (if m then tell [PutIchunk d data] (store xid ?p s) else store xid ?p s)"
      have c: "core content ds xid ?p s" using core m(2) by (simp add: core_def)
      note rs = resumed_or_stored [OF assms(1) Some c _ _ _ _ _ assms(2)]
      have inv1: "seq_inv content ds xid s1" using rs(1) by (simp add: s1_def)
      have tab: "xferTable s1 xid = Some ?p" "XpChunks xid l h \<in> set (calls_out s1)"
        using assms(2) by (simp_all add: s1_def tell_def store_def)
      then have c1: "core content ds xid ?p s1" using inv1 by (simp add: seq_inv_def)
      note rs1 = resumed_or_stored(2) [OF inv1 tab(1) c1 refl refl refl refl refl tab(2)]
      show ?thesis
      proof (cases "xcb pdp")
        case None
        with Some Inr dd False st m inv1 show ?thesis
          by (simp add: xp_fetch_data_cb_def Let_def s1_def)
      next
        case (Some sbp)
        then have k: "descs_count pdp < length ds"
          using assms(1) \<open>xferTable s xid = Some pdp\<close> by (auto simp: seq_inv_def core_def)
        have "xp_fetch_data_cb n xid res s =
            (if st' ! descs_count pdp = DESC_ON_STORAGE then resume_xcb n xid ?p sbp s1 else Some s1)"
          using Some \<open>xferTable s xid = Some pdp\<close> Inr dd False st m k
          by (simp add: xp_fetch_data_cb_def Let_def s1_def vnth_def)
        with rs1 [of sbp n] inv1 Some show ?thesis by simp
      qed
    qed
  qed
qed

section \<open>Every event\<close>

lemma no_open_call:
  "seq_inv content ds xid s \<Longrightarrow> c \<in> set (calls_out s) \<Longrightarrow> call_xid c = xid \<Longrightarrow> \<not> is_open c"
  by (auto simp: seq_inv_def of_xfer_def filter_empty_conv)


definition same_reading :: "nat \<Rightarrow> session \<Rightarrow> session \<Rightarrow> bool" where
  "same_reading xid s s' \<longleftrightarrow> xferTable s' xid = xferTable s xid \<and> pieces xid s' = pieces xid s \<and>
     (\<forall>P \<in> {is_open, is_chunk, is_timer, is_fetch}. of_xfer P xid s' = of_xfer P xid s) \<and>
     xferCounter s \<le> xferCounter s'"

lemma seq_inv_same:
  assumes "seq_inv content ds xid s" and "same_reading xid s s'"
  shows "seq_inv content ds xid s'"
  using assms by (auto simp: seq_inv_def same_reading_def core_def history_def sent_bytes_def
      split: option.splits)

lemma untouched_seq_inv:
  assumes "seq_inv content ds xid s" and "untouched xid s s'"
  shows "seq_inv content ds xid s'"
  by (rule seq_inv_same [OF assms(1)]) (use assms(2) in \<open>simp add: untouched_def same_reading_def\<close>)

lemma same_reading_put_answers:
  "same_reading xid s (reply_to b y (PutDataRes r) (finish_call (CpPut b y i data) s))"
  "same_reading xid s (reply_to b y (PutCommitRes q) (finish_call (CpCommit b y i) s))"
  "same_reading xid s (call_out (CpPut b y i data) s)"
  by (simp_all add: same_reading_def)

lemmas put_answers_seq = same_reading_put_answers [THEN seq_inv_same [rotated]]

lemma serial_event_seq:
  assumes inv: "seq_inv content ds xid s" and ser: "serial content xid e s"
    and about: "event_xid e s = xid"
  shows "\<exists>s'. handle_event n e s = Some s' \<and> seq_inv content ds xid s'"
proof (cases e)
  case (Client sbp c)
  from inv have lt: "xid < xferCounter s" by (simp add: seq_inv_def)
  show ?thesis
  proof (cases c)
    case (GetData x)
    with Client about ser have "x = xid" "\<not> request_waits xid s" by (simp_all add: event_xid_def serial_def)
    with get_data_seq [OF inv, of n sbp] Client GetData show ?thesis
      by (simp add: handle_event_def session_dispatch_def)
  next
    case (PutData x data m)
    with Client about ser have "x = xid" "length data = m" by (simp_all add: event_xid_def serial_def)
    moreover have "untouched xid s (reply_to sbp xid (PutDataRes r) s)"
 for r
      by (simp add: untouched_def)
    ultimately show ?thesis
      using Client PutData untouched_seq_inv [OF inv] put_answers_seq(3) [OF inv]
      by (auto simp: handle_event_def session_dispatch_def put_data_def split: option.split)
  qed (use Client about ser lt in \<open>auto simp: event_xid_def serial_def\<close>)
next
  case (Answered c a)
  with about have x: "call_xid c = xid" by (simp add: event_xid_def)
  show ?thesis
  proof (cases "c \<in> set (calls_out s)")
    case False
    with Answered inv show ?thesis by (simp add: handle_event_def)
  next
    case True
    with Answered have run: "handle_event n e s = run_callback n c a s" by (simp add: handle_event_def)
    have no: "\<not> is_open c" using no_open_call [OF inv True x] .
    note un = put_answers_seq(1,2) [OF inv]
    show ?thesis
      unfolding run using x no True ser Answered about
      by (cases "(n, c, a, s)" rule: run_callback.cases)
         (auto simp: inv un serial_def put_data_cb_def put_commit_cb_def
           intro: fetch_seq [OF inv] get_chunk_seq [OF inv] xp_fetch_seq [OF inv] split: sum.splits)
  qed
qed

end
