(* ===== verification/GtcdDelivery.thy ===== *)
theory GtcdDelivery
  imports GtcdReading
begin

text \<open>
  Runs of a client connection (\<^verbatim>\<open>src/gtcd/gtcd.T\<close>) and what they promise: how opening a transfer
  collects the descriptors, what a sequential transfer has sent at every moment, and what happens to
  clients that do not wait for their answers.
\<close>

section \<open>Runs\<close>

primrec run_events :: "nat \<Rightarrow> event list \<Rightarrow> session \<Rightarrow> session option" where
  "run_events n [] s = Some s"
| "run_events n (e # es) s = do { s1 \<leftarrow> handle_event n e s; run_events n es s1 }"

primrec serial_run :: "nat \<Rightarrow> (dot_descriptor \<Rightarrow> bytes) \<Rightarrow> nat \<Rightarrow> event list \<Rightarrow> session \<Rightarrow> bool" where
  "serial_run n content xid [] s = True"
| "serial_run n content xid (e # es) s = (serial content xid e s \<and>
     (case handle_event n e s of None \<Rightarrow> True | Some s1 \<Rightarrow> serial_run n content xid es s1))"

lemma run_events_append:
  "run_events n (es @ fs) s = do { s1 \<leftarrow> run_events n es s; run_events n fs s1 }"
  by (induction es arbitrary: s) (simp_all add: bind_eq_Some_conv split: bind_splits)

lemma handle_event_seq:
  assumes "seq_inv content ds xid s" and "serial content xid e s" and "handle_event n e s = Some s'"
  shows "seq_inv content ds xid s'"
proof (cases "event_xid e s = xid")
  case True
  with serial_event_seq [OF assms(1,2), of n] assms(3) show ?thesis by simp
next
  case False
  with untouched_seq_inv [OF assms(1)] event_untouched [OF assms(3) False] show ?thesis by blast
qed

lemma run_events_seq:
  "seq_inv content ds xid s \<Longrightarrow> serial_run n content xid es s \<Longrightarrow> run_events n es s = Some s' \<Longrightarrow>
   seq_inv content ds xid s'"
proof (induction es arbitrary: s)
  case (Cons e es)
  then obtain s1 where "handle_event n e s = Some s1" "run_events n es s1 = Some s'"
    by (auto simp: bind_eq_Some_conv)
  with Cons show ?case by (auto intro: handle_event_seq)
qed simp

section \<open>Opening a transfer\<close>

text \<open>\<open>collecting\<close>: the pages that have come so far, and the one call that is out.\<close>

definition collecting :: "xfer_mode \<Rightarrow> string list \<Rightarrow> dot_descriptor list list \<Rightarrow> call \<Rightarrow> nat \<Rightarrow> session \<Rightarrow> bool"
  where
  "collecting m hs pages c xid s \<longleftrightarrow> xid < xferCounter s \<and> is_open c \<and>
     xferTable s xid = Some (xferData_new\<lparr>xmode := m, xhints := Some hs,
       descs := (if pages = [] then None else Some (concat pages))\<rparr>) \<and>
     of_xfer is_open xid s = [c] \<and> of_xfer is_chunk xid s = [] \<and> of_xfer is_timer xid s = [] \<and>
     of_xfer is_fetch xid s = [] \<and> pieces xid s = []"

definition opened :: "xfer_mode \<Rightarrow> string list \<Rightarrow> dot_descriptor list \<Rightarrow> nat \<Rightarrow> session \<Rightarrow> bool" where
  "opened m hs ds xid s \<longleftrightarrow> xid < xferCounter s \<and>
     xferTable s xid = Some (xferData_new\<lparr>xmode := m, xhints := Some hs, descs := Some ds,
       descs_status := Some (replicate (length ds) DESC_UNKNOWN)\<rparr>) \<and>
     of_xfer is_open xid s = [] \<and> of_xfer is_chunk xid s = [] \<and> of_xfer is_timer xid s = [] \<and>
     of_xfer is_fetch xid s = [] \<and> pieces xid s = []"

definition unused :: "nat \<Rightarrow> session \<Rightarrow> bool" where
  "unused xid s \<longleftrightarrow> of_xfer is_open xid s = [] \<and> of_xfer is_chunk xid s = [] \<and>
     of_xfer is_timer xid s = [] \<and> of_xfer is_fetch xid s = [] \<and> pieces xid s = []"

lemma get_init_opens:
  assumes "unused (xferCounter s) s" and "oid \<noteq> []" and "hs \<noteq> []" and "m \<noteq> XFER_OTHER"
  shows "collecting m hs [] (SpInit sbp oid (xferCounter s)) (xferCounter s) (get_init sbp oid hs m s)"
  using assms by (cases m) (simp_all add: get_init_def collecting_def unused_def xferData_new_def)

lemma opened_seq_inv:
  assumes "opened XFER_SEQUENTIAL hs ds xid s" and "ds \<noteq> []"
  shows "seq_inv content ds xid s"
  using assms
  by (simp add: opened_def seq_inv_def core_def xferData_new_def sent_bytes_def moved_def)

lemma of_xfer_call:
  "of_xfer P xid s = [c] \<Longrightarrow> P c \<and> call_xid c = xid \<and> c \<in> set (calls_out s)"
proof -
  assume "of_xfer P xid s = [c]"
  then have "c \<in> set (of_xfer P xid s)" by simp
  then show ?thesis by (auto simp: of_xfer_def)
qed

text \<open>One answer of \<^verbatim>\<open>get_descriptors\<close>.\<close>

definition desc_call :: "call \<Rightarrow> bool" where
  "desc_call c = (case c of SpDescs b o1 x \<Rightarrow> True | XpDescs b o1 hs x \<Rightarrow> True | _ \<Rightarrow> False)"

definition open_sbp :: "call \<Rightarrow> nat" where
  "open_sbp c = (case c of SpInit b o1 x \<Rightarrow> b | SpDescs b o1 x \<Rightarrow> b | XpDescs b o1 hs x \<Rightarrow> b | _ \<Rightarrow> 0)"

lemma page_collecting:
  assumes "collecting m hs pages c xid s" and "desc_call c"
  shows "\<exists>s'. handle_event n (Answered c (DescsAnswer (Inr (page, False)))) s = Some s' \<and>
    collecting m hs (pages @ [page]) c xid s' \<and> replies s' = replies s"
  using assms of_xfer_call [of is_open xid s c]
  by (cases c) (auto simp: collecting_def handle_event_def get_init_cb_def last_page_def desc_call_def
      Let_def store_def of_xfer_def pieces_def)

lemma last_page_opened:
  assumes "collecting m hs pages c xid s" and "desc_call c"
  shows "\<exists>s'. handle_event n (Answered c (DescsAnswer (Inr (page, True)))) s = Some s' \<and>
    opened m hs (concat pages @ page) xid s' \<and>
    replies s' = replies s @ [(open_sbp c, xid, GetInitRes (Inr xid))]"
  using assms of_xfer_call [of is_open xid s c]
  by (cases c; cases "pages = []") (simp_all add: collecting_def opened_def handle_event_def get_init_cb_def last_page_def
      desc_call_def open_sbp_def Let_def xferData_new_def)


lemma failed_page_collecting:
  assumes "collecting m hs pages (SpDescs sbp oid xid) xid s"
  shows "\<exists>s'. handle_event n (Answered (SpDescs sbp oid xid) (DescsAnswer (Inl e))) s = Some s' \<and>
    collecting m hs pages (XpDescs sbp oid (Some hs) xid) xid s' \<and> replies s' = replies s"
  using assms of_xfer_call [of is_open xid s]
  by (simp add: collecting_def handle_event_def get_init_cb_def last_page_def)

lemma pages_collecting:
  assumes "collecting m hs before c xid s" and "desc_call c"
  shows "\<exists>s'. run_events n (map (\<lambda>p. Answered c (DescsAnswer (Inr (p, False)))) pages) s = Some s' \<and>
    collecting m hs (before @ pages) c xid s' \<and> replies s' = replies s"
  using assms(1)
proof (induction pages arbitrary: before s)
  case (Cons p pages)
  from page_collecting [OF Cons.prems assms(2)] obtain s1 where
    s1: "handle_event n (Answered c (DescsAnswer (Inr (p, False)))) s = Some s1"
      "collecting m hs (before @ [p]) c xid s1" "replies s1 = replies s" by blast
  from Cons.IH [OF s1(2)] s1 show ?case by simp
qed simp

text \<open>All pages of one call, the last one marked.\<close>

definition page_events :: "call \<Rightarrow> dot_descriptor list list \<Rightarrow> dot_descriptor list \<Rightarrow> event list" where
  "page_events c pages page =
     map (\<lambda>p. Answered c (DescsAnswer (Inr (p, False)))) pages @ [Answered c (DescsAnswer (Inr (page, True)))]"

lemma page_events_opened:
  assumes "collecting m hs before c xid s" and "desc_call c"
  shows "\<exists>s'. run_events n (page_events c pages page) s = Some s' \<and>
    opened m hs (concat (before @ pages) @ page) xid s' \<and>
    replies s' = replies s @ [(open_sbp c, xid, GetInitRes (Inr xid))]"
proof -
  from pages_collecting [OF assms] obtain s1 where
    s1: "run_events n (map (\<lambda>p. Answered c (DescsAnswer (Inr (p, False)))) pages) s = Some s1"
      "collecting m hs (before @ pages) c xid s1" "replies s1 = replies s" by blast
  from last_page_opened [OF s1(2) assms(2), of n page] s1(1,3) show ?thesis
    by (auto simp: page_events_def run_events_append)
qed

section \<open>The properties\<close>

text \<open>C30. \<^verbatim>\<open>get_init_cb\<close>, opening a transfer: the descriptors come in pages, from the storage plugin or
  from the transfer plugin; the client is answered once, at the last page, with the number of the
  transfer, which then has all the pages' descriptors in order, each of status \<^verbatim>\<open>DESC_UNKNOWN\<close>.\<close>

theorem descriptors_collected:
  assumes "collecting m hs [] c xid s" and "desc_call c"
  shows "\<exists>s'. run_events n (page_events c pages page) s = Some s' \<and>
    opened m hs (concat pages @ page) xid s' \<and>
    replies s' = replies s @ [(open_sbp c, xid, GetInitRes (Inr xid))]"
  using page_events_opened [OF assms] by simp

text \<open>\<^verbatim>\<open>get_init_cb\<close> does not drop what it has when the storage plugin fails after some pages: the
  descriptors of the transfer plugin are put behind them, and the object the client reads begins with
  a part of itself.\<close>

theorem failed_pages_kept:
  assumes "collecting m hs [] (SpDescs sbp oid xid) xid s"
  shows "\<exists>s'. run_events n (map (\<lambda>p. Answered (SpDescs sbp oid xid) (DescsAnswer (Inr (p, False)))) stored @
      Answered (SpDescs sbp oid xid) (DescsAnswer (Inl e)) #
      page_events (XpDescs sbp oid (Some hs) xid) pages page) s = Some s' \<and>
    opened m hs (concat stored @ concat pages @ page) xid s' \<and>
    replies s' = replies s @ [(sbp, xid, GetInitRes (Inr xid))]"
proof -
  let ?c = "SpDescs sbp oid xid" and ?x = "XpDescs sbp oid (Some hs) xid"
  obtain s1 where s1: "run_events n (map (\<lambda>p. Answered ?c (DescsAnswer (Inr (p, False)))) stored) s = Some s1"
      "collecting m hs stored ?c xid s1" "replies s1 = replies s"
    using pages_collecting [OF assms] by (auto simp: desc_call_def)
  from failed_page_collecting [OF s1(2)] obtain s2 where
    s2: "handle_event n (Answered ?c (DescsAnswer (Inl e))) s1 = Some s2"
      "collecting m hs stored ?x xid s2" "replies s2 = replies s1" by blast
  from page_events_opened [OF s2(2), of n pages page] s1 s2 show ?thesis
    by (simp add: run_events_append desc_call_def open_sbp_def)
qed

text \<open>C6. A sequential transfer (\<^verbatim>\<open>get_data\<close>, \<^verbatim>\<open>fetch_data\<close>, \<^verbatim>\<open>xp_fetch_data_cb\<close>, \<^verbatim>\<open>transfer_data\<close>,
  \<^verbatim>\<open>get_chunk_cb\<close>, \<^verbatim>\<open>actual_transfer_data\<close>) of a client that waits for its answers, whatever else the
  connection does in between and in whatever order the plugins answer: each piece of data starts
  where the one before ended, together they are a prefix of the object, and a piece is marked as the
  end only when the whole object was sent.\<close>

theorem sequential_delivery:
  assumes "opened XFER_SEQUENTIAL hs ds xid s0" and "ds \<noteq> []"
    and "serial_run n content xid es s0" and "run_events n es s0 = Some s"
  shows "offsets_from 0 (pieces xid s) \<and>
    (\<exists>rest. object_of content ds = sent_bytes xid s @ rest) \<and>
    (\<forall>r \<in> set (pieces xid s). ok_end r \<longrightarrow> sent_bytes xid s = object_of content ds)"
proof -
  have "seq_inv content ds xid s"
    by (rule run_events_seq [OF opened_seq_inv [OF assms(1,2)] assms(3,4)])
  then have "history content ds xid s"
    by (auto simp: seq_inv_def dest: core_history split: option.splits)
  then show ?thesis by (simp add: history_def)
qed



section \<open>Concrete runs\<close>

text \<open>An object of two chunks, just opened, and a download of it in pieces of two bytes.\<close>

definition two_chunks :: "dot_descriptor list" where
  "two_chunks = [\<lparr>desc_id = [1], desc_length = 2\<rparr>, \<lparr>desc_id = [2], desc_length = 1\<rparr>]"

definition chunk_bytes :: "dot_descriptor \<Rightarrow> bytes" where
  "chunk_bytes d = (if desc_id d = [1] then [7, 8] else [9])"

definition opened_session :: session where
  "opened_session = \<lparr>xferTable = [1 \<mapsto> xferData_new\<lparr>xmode := XFER_SEQUENTIAL, xhints := Some [''h''],
       descs := Some two_chunks, descs_status := Some [DESC_UNKNOWN, DESC_UNKNOWN]\<rparr>],
     xferCounter = 2, calls_out = [], replies = [], told = []\<rparr>"

definition collecting_session :: session where
  "collecting_session = \<lparr>xferTable = [1 \<mapsto> xferData_new\<lparr>xmode := XFER_SEQUENTIAL, xhints := Some [''h'']\<rparr>],
     xferCounter = 2, calls_out = [SpDescs 4 [3] 1], replies = [], told = []\<rparr>"

lemma opened_session_opened: "opened XFER_SEQUENTIAL [''h''] two_chunks 1 opened_session"
  by (simp add: opened_def opened_session_def of_xfer_def pieces_def two_chunks_def)

lemma collecting_session_collecting:
  "collecting XFER_SEQUENTIAL [''h''] [] (SpDescs 4 [3] 1) 1 collecting_session"
  by (simp add: collecting_def collecting_session_def of_xfer_def pieces_def xferData_new_def)

definition download_events :: "event list" where
  "download_events = [Client 5 (GetData 1), Answered (FetchTimer 1) (TimerAnswer (\<lambda>d. 0)),
     Answered (SpChunk 5 1 0 (- 1) (two_chunks ! 0)) (ChunkAnswer (Inr [7, 8])), Client 6 (GetData 1)]"

lemmas run_defs = download_events_def opened_session_def handle_event_def session_dispatch_def
  gtcd_get_data_def vnth_def fetch_data_def fetch_resume_def resume_xcb_def transfer_data_def
  get_chunk_cb_def actual_transfer_data_def xferData_new_def two_chunks_def chunk_bytes_def
  call_out_def store_def forget_def tell_def reply_to_def finish_call_def Let_def

lemma download_runs:
  "serial_run 2 chunk_bytes 1 download_events opened_session"
  "\<exists>s. run_events 2 download_events opened_session = Some s \<and>
     serial chunk_bytes 1 (Answered (SpChunk 6 1 1 (- 1) (two_chunks ! 1)) (ChunkAnswer (Inr [9]))) s"
  by (simp_all add: run_defs serial_def request_waits_def of_xfer_def event_xid_def)

lemma descriptors_collected_witness:
  "\<exists>s'. run_events 8 (page_events (SpDescs 4 [3] 1) [[two_chunks ! 0]] [two_chunks ! 1]) collecting_session = Some s' \<and>
     opened XFER_SEQUENTIAL [''h''] two_chunks 1 s'"
  using descriptors_collected [OF collecting_session_collecting, of 8 "[[two_chunks ! 0]]" "[two_chunks ! 1]"]
  by (auto simp: desc_call_def two_chunks_def)

lemma failed_pages_kept_witness:
  "\<exists>s'. run_events 8 (map (\<lambda>p. Answered (SpDescs 4 [3] 1) (DescsAnswer (Inr (p, False)))) [[two_chunks ! 0]] @
      Answered (SpDescs 4 [3] 1) (DescsAnswer (Inl ''lost'')) #
      page_events (XpDescs 4 [3] (Some [''h'']) 1) [] two_chunks) collecting_session = Some s' \<and>
    opened XFER_SEQUENTIAL [''h''] (two_chunks ! 0 # two_chunks) 1 s'"
  using failed_pages_kept [OF collecting_session_collecting, of 8 "[[two_chunks ! 0]]" "''lost''" "[]" two_chunks]
  by auto

lemma sequential_delivery_witness:
  "\<exists>s rest. run_events 2 download_events opened_session = Some s \<and> offsets_from 0 (pieces 1 s) \<and>
     [7, 8, 9] = sent_bytes 1 s @ rest"
proof -
  obtain s where s: "run_events 2 download_events opened_session = Some s" using download_runs(2) by blast
  have "object_of chunk_bytes two_chunks = [7, 8, 9]" by (simp add: object_of_def two_chunks_def chunk_bytes_def)
  with sequential_delivery [OF opened_session_opened _ download_runs(1) s] s show ?thesis
    by (auto simp: two_chunks_def)
qed


end
