(* ===== verification/GtcdDownload.thy ===== *)
theory GtcdDownload
  imports GtcdDelivery
begin

text \<open>
  A client of \<^verbatim>\<open>src/gtcd/gtcd.T\<close> that asks for the object's data until it has it all, when the storage
  has every chunk and answers: the number of steps is bounded.
\<close>

section \<open>The client's loop\<close>

text \<open>The answer to what the daemon waits for, or else the next request.\<close>

definition next_event :: "(dot_descriptor \<Rightarrow> bytes) \<Rightarrow> nat \<Rightarrow> nat \<Rightarrow> session \<Rightarrow> event" where
  "next_event content sbp xid s = (case of_xfer is_timer xid s of
     c # cs \<Rightarrow> Answered c (TimerAnswer (\<lambda>d. 0))
   | [] \<Rightarrow> (case of_xfer is_chunk xid s of
        SpChunk b x k off d # cs \<Rightarrow> Answered (SpChunk b x k off d) (ChunkAnswer (Inr (content d)))
      | _ \<Rightarrow> Client sbp (GetData xid)))"

primrec download :: "nat \<Rightarrow> (dot_descriptor \<Rightarrow> bytes) \<Rightarrow> nat \<Rightarrow> nat \<Rightarrow> nat \<Rightarrow> session \<Rightarrow> session option" where
  "download n content sbp xid 0 s = Some s"
| "download n content sbp xid (Suc k) s =
     (if xferTable s xid = None then Some s
      else do { s1 \<leftarrow> handle_event n (next_event content sbp xid s) s; download n content sbp xid k s1 })"

definition ready :: "dot_descriptor list \<Rightarrow> nat \<Rightarrow> session \<Rightarrow> bool" where
  "ready ds xid s \<longleftrightarrow> of_xfer is_timer xid s = [] \<and> (case xferTable s xid of
     None \<Rightarrow> \<exists>r \<in> set (pieces xid s). ok_end r
   | Some p \<Rightarrow> err p = None \<and> xcb p = None \<and> (\<exists>st. descs_status p = Some st \<and>
       (\<forall>i. descs_count p \<le> i \<and> i < length ds \<longrightarrow> st ! i = DESC_ON_STORAGE)))"

definition left_over :: "(dot_descriptor \<Rightarrow> bytes) \<Rightarrow> dot_descriptor list \<Rightarrow> xferData \<Rightarrow> nat" where
  "left_over content ds p = length (buf p) + length (concat (map content (drop (descs_xfered p) ds))) +
     2 * (length ds - descs_xfered p)"

definition work :: "(dot_descriptor \<Rightarrow> bytes) \<Rightarrow> dot_descriptor list \<Rightarrow> nat \<Rightarrow> session \<Rightarrow> nat" where
  "work content ds xid s = (case xferTable s xid of
     None \<Rightarrow> 0
   | Some p \<Rightarrow> left_over content ds p + (if descs_count p = descs_xfered p then 2 else 1))"

section \<open>Each step gets closer\<close>

lemma actual_ready:
  assumes "xferTable s xid = Some p" and "core content ds xid p s"
    and "err p = None" "xcb p = None" "descs_status p = Some st"
    and "\<forall>i. descs_count p \<le> i \<and> i < length ds \<longrightarrow> st ! i = DESC_ON_STORAGE"
    and "descs_count p = descs_xfered p" and "0 < n"
    and "n \<le> length (buf p) \<or> descs_xfered p = length ds" and "of_xfer is_timer xid s = []"
    and "actual_transfer_data n sbp xid s = Some s'"
  shows "ready ds xid s' \<and> work content ds xid s' < left_over content ds p + 2"
proof -
  from assms(2) have ds: "descs p = Some ds" by (simp add: core_def)
  show ?thesis
  proof (cases "descs_xfered p = length ds \<and> length (buf p) \<le> n")
    case True
    with assms ds show ?thesis
      by (auto simp: actual_transfer_data_def Let_def ready_def work_def)
  next
    case False
    with assms ds show ?thesis
      by (auto simp: actual_transfer_data_def Let_def ready_def work_def left_over_def split: if_splits)
  qed
qed

lemma request_ready:
  assumes "seq_inv content ds xid s" and "ready ds xid s" and "xferTable s xid = Some p"
    and "of_xfer is_chunk xid s = []" and "0 < n"
    and "gtcd_get_data n sbp xid s = Some s'"
  shows "ready ds xid s' \<and> work content ds xid s' < work content ds xid s"
proof -
  from assms(1,3,4) have core: "core content ds xid p s" and k: "descs_count p = descs_xfered p"
      "descs_xfered p = length ds \<longrightarrow> buf p \<noteq> []"
    by (auto simp: seq_inv_def)
  from core obtain st where c: "descs p = Some ds" "descs_status p = Some st"
    "length st = length ds" "xmode p = XFER_SEQUENTIAL" "descs_xfered p \<le> length ds"
    by (auto simp: core_def)
  from assms(2,3) c have r: "of_xfer is_timer xid s = []" "err p = None" "xcb p = None"
    "\<forall>i. descs_count p \<le> i \<and> i < length ds \<longrightarrow> st ! i = DESC_ON_STORAGE"
    by (auto simp: ready_def)
  have tr: "transfer_data n sbp xid s = Some s'"
    using assms(3,6) c k r by (auto simp: gtcd_get_data_def vnth_def split: if_splits)
  show ?thesis
  proof (cases "length (buf p) < n \<and> descs_xfered p \<noteq> length ds")
    case True
    with tr assms(3) c k r show ?thesis
      by (auto simp: transfer_data_def vnth_def ready_def work_def left_over_def)
  next
    case False
    with tr assms(3) c k r have "actual_transfer_data n sbp xid s = Some s'"
      by (auto simp: transfer_data_def)
    with actual_ready [OF assms(3) core r(2,3) c(2) r(4) k(1) assms(5) _ r(1)] False show ?thesis
      using assms(3) k(1) by (auto simp: work_def)
  qed
qed

lemma chunk_ready:
  assumes "seq_inv content ds xid s" and "ready ds xid s" and "xferTable s xid = Some p"
    and "of_xfer is_chunk xid s = SpChunk b x k off d # cs" and "0 < n"
    and "get_chunk_cb n b xid k off (Inr (content d)) (finish_call (SpChunk b x k off d) s) = Some s'"
  shows "ready ds xid s' \<and> work content ds xid s' < work content ds xid s"
proof -
  let ?s = "finish_call (SpChunk b x k off d) s"
  from assms(1,3,4) have core: "core content ds xid p s"
    and e: "x = xid" "k = descs_xfered p" "off = - 1" "d = ds ! descs_xfered p" "cs = []"
    and k: "descs_count p = Suc k" "k < length ds"
    by (auto simp: seq_inv_def)
  from core obtain st where c: "descs p = Some ds" "descs_status p = Some st"
    "length st = length ds" "xmode p = XFER_SEQUENTIAL" by (auto simp: core_def)
  from assms(2,3) c have r: "of_xfer is_timer xid s = []" "err p = None" "xcb p = None"
    "\<forall>i. descs_count p \<le> i \<and> i < length ds \<longrightarrow> st ! i = DESC_ON_STORAGE"
    by (auto simp: ready_def)
  let ?st = "st[k := DESC_DONE]"
  let ?p = "p\<lparr>buf := buf p @ content d, descs_status := Some ?st, descs_xfered := Suc k\<rparr>"
  have st: "\<forall>i. Suc k \<le> i \<and> i < length ds \<longrightarrow> ?st ! i = DESC_ON_STORAGE" using r(4) k by simp
  have "drop k ds = d # drop (Suc k) ds" using e k by (simp add: Cons_nth_drop_Suc)
  then have lo: "left_over content ds p = left_over content ds ?p + 2"
    using e k by (simp add: left_over_def)
  then have w: "work content ds xid s = left_over content ds ?p + 3"
    using assms(3) k e by (simp add: work_def)
  show ?thesis
  proof (cases "length (buf ?p) < n \<and> descs_xfered ?p \<noteq> length ds")
    case True
    with assms(3,6) c k e r st w lo show ?thesis
      by (auto simp: get_chunk_cb_def vnth_def Let_def ready_def work_def left_over_def)
  next
    case False
    have a: "actual_transfer_data n b xid (store xid ?p ?s) = Some s'"
      using assms(3,6) c k e False by (auto simp: get_chunk_cb_def vnth_def Let_def)
    have "core content ds xid ?p (store xid ?p ?s)"
      using core c k e by (simp add: core_def moved_Suc flip: append_assoc)
    from actual_ready [OF _ this _ _ _ _ _ assms(5) _ _ a] False c k r st e w show ?thesis by auto
  qed
qed


lemma of_xfer_head:
  assumes "of_xfer P xid s = c # cs"
  shows "P c \<and> call_xid c = xid \<and> c \<in> set (calls_out s)"
proof -
  from assms have "c \<in> set (of_xfer P xid s)" by simp
  then show ?thesis by (auto simp: of_xfer_def)
qed

lemma next_event_serial:
  assumes "seq_inv content ds xid s" and "ready ds xid s"
  shows "serial content xid (next_event content sbp xid s) s"
    and "event_xid (next_event content sbp xid s) s = xid"
proof -
  from assms(2) have t: "of_xfer is_timer xid s = []" by (simp add: ready_def)
  have "serial content xid (next_event content sbp xid s) s \<and> event_xid (next_event content sbp xid s) s = xid"
  proof (cases "of_xfer is_chunk xid s")
    case Nil
    with assms(2) t show ?thesis
      by (auto simp: next_event_def serial_def event_xid_def request_waits_def ready_def split: option.splits)
  next
    case (Cons c cs)
    with of_xfer_head [OF Cons] t show ?thesis
      by (cases c) (auto simp: next_event_def serial_def event_xid_def)
  qed
  then show "serial content xid (next_event content sbp xid s) s"
    "event_xid (next_event content sbp xid s) s = xid" by simp_all
qed

lemma step_ready:
  assumes "seq_inv content ds xid s" and "ready ds xid s" and "xferTable s xid \<noteq> None" and "0 < n"
  shows "\<exists>s'. handle_event n (next_event content sbp xid s) s = Some s' \<and> seq_inv content ds xid s' \<and>
    ready ds xid s' \<and> work content ds xid s' < work content ds xid s"
proof -
  note ser = next_event_serial [OF assms(1,2)]
  obtain s' where s': "handle_event n (next_event content sbp xid s) s = Some s'" "seq_inv content ds xid s'"
    using serial_event_seq [OF assms(1) ser] by blast
  from assms(3) obtain p where p: "xferTable s xid = Some p" by blast
  from assms(2) have t: "of_xfer is_timer xid s = []" by (simp add: ready_def)
  have "ready ds xid s' \<and> work content ds xid s' < work content ds xid s"
  proof (cases "of_xfer is_chunk xid s")
    case Nil
    with t s'(1) have "gtcd_get_data n sbp xid s = Some s'"
      by (simp add: next_event_def handle_event_def session_dispatch_def)
    with request_ready [OF assms(1,2) p Nil assms(4)] show ?thesis by simp
  next
    case (Cons c cs)
    with of_xfer_head [OF Cons] obtain b x k off d where c: "c = SpChunk b x k off d" "x = xid"
      "c \<in> set (calls_out s)" by (cases c) auto
    with Cons t s'(1) have
      "get_chunk_cb n b xid k off (Inr (content d)) (finish_call (SpChunk b x k off d) s) = Some s'"
      by (simp add: next_event_def handle_event_def)
    with chunk_ready [OF assms(1,2) p Cons [unfolded c(1)] assms(4)] show ?thesis by simp
  qed
  with s' show ?thesis by blast
qed

lemma download_ready:
  assumes "0 < n"
  shows "seq_inv content ds xid s \<Longrightarrow> ready ds xid s \<Longrightarrow> work content ds xid s \<le> k \<Longrightarrow>
    \<exists>s'. download n content sbp xid k s = Some s' \<and> seq_inv content ds xid s' \<and> ready ds xid s' \<and>
      xferTable s' xid = None"
proof (induction k arbitrary: s)
  case 0
  then show ?case by (auto simp: work_def split: option.splits if_splits)
next
  case (Suc k)
  show ?case
  proof (cases "xferTable s xid = None")
    case False
    from step_ready [OF Suc.prems(1,2) False assms] obtain s1 where
      "handle_event n (next_event content sbp xid s) s = Some s1" "seq_inv content ds xid s1"
      "ready ds xid s1" "work content ds xid s1 < work content ds xid s" by blast
    with Suc.IH [of s1] Suc.prems(3) False show ?thesis by auto
  qed (use Suc in simp)
qed

section \<open>The first two steps\<close>

lemma fetch_loop_stored:
  "length st = length ds \<Longrightarrow>
   fetch_loop (\<lambda>d. 0) st ds = Some (replicate (length ds) DESC_ON_STORAGE, map IncRef ds, [])"
proof (induction st arbitrary: ds)
  case (Cons v st)
  then show ?case by (cases ds) auto
qed simp

lemma first_steps:
  assumes "opened XFER_SEQUENTIAL hs ds xid s" and "ds \<noteq> []" and "0 < n"
  shows "\<exists>s2. download n content sbp xid (Suc (Suc k)) s = download n content sbp xid k s2 \<and>
    seq_inv content ds xid s2 \<and> ready ds xid s2 \<and>
    work content ds xid s2 = length (object_of content ds) + 2 * length ds + 1"
proof -
  from assms(1) have o1: "xferTable s xid = Some (xferData_new\<lparr>xmode := XFER_SEQUENTIAL, xhints := Some hs,
      descs := Some ds, descs_status := Some (replicate (length ds) DESC_UNKNOWN)\<rparr>)"
    "of_xfer is_chunk xid s = []" "of_xfer is_timer xid s = []" by (simp_all add: opened_def)
  note inv = opened_seq_inv [OF assms(1,2), of content]
  let ?t = "FetchTimer xid" and ?st = "replicate (length ds) DESC_ON_STORAGE"
  let ?p = "xferData_new\<lparr>xmode := XFER_SEQUENTIAL, xhints := Some hs, descs := Some ds,
    descs_status := Some (replicate (length ds) DESC_UNKNOWN), fetching := True, xcb := Some sbp\<rparr>"
  let ?s1 = "call_out ?t (store xid ?p s)"
  have e1: "handle_event n (next_event content sbp xid s) s = Some ?s1"
    using o1 assms(2) by (simp add: next_event_def handle_event_def session_dispatch_def gtcd_get_data_def
        vnth_def xferData_new_def)
  have "serial content xid (next_event content sbp xid s) s"
    using o1 by (simp add: next_event_def serial_def request_waits_def xferData_new_def)
  from handle_event_seq [OF inv this e1] have inv1: "seq_inv content ds xid ?s1" .
  let ?p2 = "?p\<lparr>descs_status := Some ?st\<rparr>"
  let ?s2 = "call_out (SpChunk sbp xid 0 (- 1) (ds ! 0)) (store xid (?p2\<lparr>xcb := None, descs_count := 1\<rparr>)
    (store xid (?p2\<lparr>xcb := None\<rparr>) (tell (map IncRef ds) (store xid ?p2 (finish_call ?t ?s1)))))"
  have ne: "next_event content sbp xid ?s1 = Answered ?t (TimerAnswer (\<lambda>d. 0))"
    using o1 by (simp add: next_event_def)
  have out: "?t \<in> set (calls_out ?s1)" by (simp add: call_out_def)
  have e2: "handle_event n (next_event content sbp xid ?s1) ?s1 = Some ?s2"
    using o1 assms(2,3) ne out
    by (simp add: handle_event_def fetch_data_def fetch_loop_stored fetch_resume_def
        resume_xcb_def transfer_data_def vnth_def xferData_new_def)
  have "serial content xid (next_event content sbp xid ?s1) ?s1"
    using o1 by (simp add: next_event_def serial_def)
  from handle_event_seq [OF inv1 this e2] have inv2: "seq_inv content ds xid ?s2" .
  have "ready ds xid ?s2" using o1 by (simp add: ready_def xferData_new_def)
  moreover have "work content ds xid ?s2 = length (object_of content ds) + 2 * length ds + 1"
    by (simp add: work_def left_over_def xferData_new_def object_of_def)
  moreover have "download n content sbp xid (Suc (Suc k)) s = download n content sbp xid k ?s2"
    using o1(1) e1 e2 by simp
  ultimately show ?thesis using inv2 by blast
qed




end
