(* ===== verification/GtcdClientFaults.thy ===== *)
theory GtcdClientFaults
  imports GtcdDelivery
begin

text \<open>
  What \<^verbatim>\<open>src/gtcd/gtcd.T\<close> does for clients that do not wait for their answers, ask for data too early
  or read out of order, and when an error comes while no request waits.
\<close>

section \<open>Requests the daemon does not survive\<close>

text \<open>\<^verbatim>\<open>get_data\<close> of a transfer whose descriptors have not all come, of one that stores an object
  (made by \<^verbatim>\<open>put_init\<close>), and of an object without chunks: the statuses are read through a null
  pointer, or at index 0 of an empty vector.\<close>

theorem early_request_faults:
  assumes "xferTable s xid = Some pdp" and "buf pdp = []" and "xmode pdp = XFER_SEQUENTIAL"
    and "descs_count pdp = 0" and "descs_status pdp = None \<or> descs_status pdp = Some []"
  shows "handle_event n (Client sbp (GetData xid)) s = None"
  using assms by (auto simp: handle_event_def session_dispatch_def gtcd_get_data_def vnth_def)


text \<open>In out-of-order mode the last chunk of the object may be read while others are missing. When
  it is shorter than \<^verbatim>\<open>SEND_SIZE\<close>, \<^verbatim>\<open>get_chunk_cb\<close> looks at the status after the last one.\<close>

theorem last_chunk_first_overruns:
  assumes "xferTable s xid = Some pdp" and "xmode pdp = XFER_OUT_OF_ORDER"
    and "descs pdp = Some ds" and "descs_status pdp = Some st" and "length st = length ds"
    and "ds \<noteq> []" and "Suc (descs_xfered pdp) < length ds"
    and "SpChunk sbp xid (length ds - 1) off d \<in> set (calls_out s)"
    and "length (buf pdp) + length data < n"
  shows "handle_event n (Answered (SpChunk sbp xid (length ds - 1) off d) (ChunkAnswer (Inr data))) s = None"
  using assms by (simp add: handle_event_def get_chunk_cb_def vnth_def Let_def)

section \<open>An error nobody waits for\<close>



section \<open>Concrete runs\<close>

text \<open>The first chunk is being read for one request; and the second was asked for from the network.\<close>

definition reading_data :: xferData where
  "reading_data = xferData_new\<lparr>xhints := Some [''h''], descs := Some (two_chunks @ two_chunks),
     descs_status := Some (replicate 4 DESC_ON_STORAGE), descs_count := 1, fetching := True\<rparr>"

definition reading_session :: session where
  "reading_session = \<lparr>xferTable = [1 \<mapsto> reading_data], xferCounter = 2,
     calls_out = [SpChunk 5 1 0 (- 1) (two_chunks ! 0)], replies = [], told = []\<rparr>"

definition fetching_session :: session where
  "fetching_session = \<lparr>xferTable = [1 \<mapsto> reading_data\<lparr>descs_count := 0, descs_status := Some (replicate 4 DESC_REQUESTED)\<rparr>],
     xferCounter = 2, calls_out = [XpChunks 1 two_chunks [[''h'']]], replies = [], told = []\<rparr>"

definition unordered_session :: session where
  "unordered_session = \<lparr>xferTable = [1 \<mapsto> reading_data\<lparr>xmode := XFER_OUT_OF_ORDER\<rparr>], xferCounter = 2,
     calls_out = [SpChunk 5 1 3 5 (two_chunks ! 1)], replies = [], told = []\<rparr>"


lemma last_chunk_first_overruns_witness:
  "handle_event 8 (Answered (SpChunk 5 1 (length (two_chunks @ two_chunks) - 1) 5 (two_chunks ! 1)) (ChunkAnswer (Inr [9])))
     unordered_session = None"
  by (rule last_chunk_first_overruns [where pdp = "reading_data\<lparr>xmode := XFER_OUT_OF_ORDER\<rparr>" and
        st = "replicate 4 DESC_ON_STORAGE"])
     (simp_all add: unordered_session_def reading_data_def xferData_new_def two_chunks_def)


end
