(* ===== verification/GtcdWellFormed.thy ===== *)
theory GtcdWellFormed
  imports GtcdSerial
begin

text \<open>
  The well-formedness of a client connection of \<^verbatim>\<open>src/gtcd/gtcd.T\<close>: what the fields of \<^verbatim>\<open>xferData\<close> and the
  calls that are out have to do with each other, for every client and every order of answers.
\<close>

section \<open>Well-formed transfers\<close>

text \<open>The number of a transfer is below the counter; the statuses exist only when all descriptors are
  there, one for each, and only then may data be buffered or fetched and chunks be asked for; a chunk
  that is asked for is one of the object's, with its own number.\<close>

definition chunks_typed :: "nat \<Rightarrow> dot_descriptor list \<Rightarrow> session \<Rightarrow> bool" where
  "chunks_typed xid ds s \<longleftrightarrow> (\<forall>c \<in> set (of_xfer is_chunk xid s).
     \<exists>b k off. c = SpChunk b xid k off (ds ! k) \<and> k < length ds)"

definition data_typed :: "nat \<Rightarrow> xferData \<Rightarrow> session \<Rightarrow> bool" where
  "data_typed xid p s \<longleftrightarrow> xmode p \<noteq> XFER_OTHER \<and> (case descs_status p of
     None \<Rightarrow> buf p = [] \<and> \<not> fetching p \<and> xcb p = None \<and> of_xfer is_chunk xid s = [] \<and>
       of_xfer is_timer xid s = [] \<and>
       (of_xfer is_open xid s \<noteq> [] \<longrightarrow> xhints p \<noteq> None)
   | Some st \<Rightarrow> of_xfer is_open xid s = [] \<and> xhints p \<noteq> None \<and>
       (\<exists>ds. descs p = Some ds \<and> length st = length ds \<and> chunks_typed xid ds s))"

definition xfer_typed :: "nat \<Rightarrow> session \<Rightarrow> bool" where
  "xfer_typed xid s \<longleftrightarrow> length (of_xfer is_open xid s) \<le> 1 \<and>
     (xferCounter s \<le> xid \<longrightarrow> xferTable s xid = None \<and> of_xfer (\<lambda>c. True) xid s = []) \<and>
     (\<forall>p. xferTable s xid = Some p \<longrightarrow> data_typed xid p s)"

definition session_typed :: "session \<Rightarrow> bool" where
  "session_typed s \<longleftrightarrow> (\<forall>xid. xfer_typed xid s)"

lemma untouched_typed:
  assumes "untouched xid s s'" and "xfer_typed xid s"
  shows "xfer_typed xid s'"
proof -
  from assms(1) have "data_typed xid p s' = data_typed xid p s" for p
    by (simp add: untouched_def data_typed_def chunks_typed_def cong: option.case_cong)
  with assms show ?thesis by (auto simp: untouched_def xfer_typed_def)
qed

lemma no_calls_typed: "of_xfer (\<lambda>c. True) xid s = [] \<Longrightarrow> of_xfer P xid s = []"
  by (auto simp: of_xfer_def filter_empty_conv)

text \<open>Steps of the handlers.\<close>

definition live :: "nat \<Rightarrow> session \<Rightarrow> bool" where
  "live xid s \<longleftrightarrow> xid < xferCounter s \<and> length (of_xfer is_open xid s) \<le> 1"

lemma typed_live: "xferTable s xid = Some p \<Longrightarrow> xfer_typed xid s = (live xid s \<and> data_typed xid p s)"
  by (auto simp: xfer_typed_def live_def)

lemma live_simps [simp]:
  "live xid (store x p s) = live xid s" "live xid (forget x s) = live xid s"
  "live xid (tell ns s) = live xid s" "live xid (reply_to b x r s) = live xid s"
  "\<not> is_open c \<Longrightarrow> live xid (call_out c s) = live xid s"
  "\<not> is_open c \<Longrightarrow> live xid (finish_call c s) = live xid s"
  by (auto simp: live_def)

lemma forget_typed: "live xid s \<Longrightarrow> xfer_typed xid (forget xid s)"
  by (auto simp: xfer_typed_def live_def)

lemma store_typed: "live xid s \<Longrightarrow> data_typed xid p s \<Longrightarrow> xfer_typed xid (store xid p s)"
  by (auto simp: xfer_typed_def live_def data_typed_def chunks_typed_def split: option.splits)

lemma data_typed_simps [simp]:
  "data_typed xid p (store x q s) = data_typed xid p s"
  "data_typed xid p (forget x s) = data_typed xid p s"
  "data_typed xid p (tell ns s) = data_typed xid p s"
  "data_typed xid p (reply_to b x r s) = data_typed xid p s"
  by (simp_all add: data_typed_def chunks_typed_def cong: option.case_cong)

lemma data_typed_call [simp]:
  "\<not> is_open c \<Longrightarrow> \<not> is_chunk c \<Longrightarrow> \<not> is_timer c \<Longrightarrow>
   data_typed xid p (call_out c s) = data_typed xid p s"
  by (simp add: data_typed_def chunks_typed_def cong: option.case_cong)

lemma xfer_typed_tell [simp]: "xfer_typed xid (tell ns s) = xfer_typed xid s"
  by (simp add: xfer_typed_def)

lemma actual_typed:
  assumes "actual_transfer_data n b xid s = Some s'" and "xferTable s xid = Some p"
    and "live xid s" and "data_typed xid p s"
  shows "xfer_typed xid s'"
  using assms
  by (auto simp: actual_transfer_data_def Let_def bind_eq_Some_conv intro!: forget_typed store_typed
      split: option.splits if_splits) (auto simp: data_typed_def split: option.splits)

lemma first_on_storage_range:
  "first_on_storage ds st i off = Some (Some (k, off', d)) \<Longrightarrow>
   i \<le> k \<and> k < i + length ds \<and> d = ds ! (k - i)"
proof (induction ds st i off rule: first_on_storage.induct)
  case (3 d ds v st i offset)
  then show ?case by (cases "v = DESC_ON_STORAGE") (auto simp: nth_Cons' Suc_diff_Suc)
qed simp_all

lemma chunk_out_typed:
  assumes "live xid s" and "data_typed xid p s" and "descs_status p = Some st" and "descs p = Some ds"
    and "k < length ds"
  shows "xfer_typed xid (call_out (SpChunk b xid k off (ds ! k)) (store xid p s))"
  using assms by (auto simp: xfer_typed_def live_def data_typed_def chunks_typed_def)


lemma transfer_typed:
  assumes "transfer_data n b xid s = Some s'" and "xferTable s xid = Some p"
    and "live xid s" and "data_typed xid p s"
  shows "xfer_typed xid s'"
proof (cases "actual_transfer_data n b xid s = Some s'")
  case True
  then show ?thesis using assms(2-4) by (rule actual_typed)
next
  case False
  have m: "xmode p \<noteq> XFER_OTHER" using assms(4) by (simp add: data_typed_def)
  show ?thesis
  proof (cases "xmode p")
    case XFER_SEQUENTIAL
    with False assms(1,2) obtain st ds where d: "descs_status p = Some st" "descs p = Some ds"
        "descs_count p < length ds" and s': "s' = call_out (SpChunk b xid (descs_count p) (- 1) (ds ! descs_count p))
          (store xid (p\<lparr>descs_count := descs_count p + 1\<rparr>) s)"
      by (auto simp: transfer_data_def bind_eq_Some_conv vnth_def split: if_splits)
    have "data_typed xid (p\<lparr>descs_count := descs_count p + 1\<rparr>) s"
      using assms(4) by (simp add: data_typed_def cong: option.case_cong)
    then show ?thesis unfolding s' by (rule chunk_out_typed [OF assms(3)]) (use d in simp_all)
  next
    case XFER_OUT_OF_ORDER
    with False assms(1,2) obtain ds st r where d: "descs p = Some ds"
        "(case ds of [] \<Rightarrow> Some [] | _ \<Rightarrow> descs_status p) = Some st"
        "first_on_storage ds st 0 0 = Some r"
        "s' = (case r of None \<Rightarrow> s | Some (i, off, d) \<Rightarrow> call_out (SpChunk b xid i off d) s)"
      by (auto simp: transfer_data_def bind_eq_Some_conv split: if_splits option.splits)
    show ?thesis
    proof (cases r)
      case None
      with d(4) assms(2-4) show ?thesis by (simp add: typed_live)
    next
      case (Some t)
      obtain i off d1 where t: "t = (i, off, d1)" by (cases t)
      with d(3) Some have i: "i < length ds" "d1 = ds ! i" using first_on_storage_range [of ds st 0 0] by auto
      then have "descs_status p = Some st" using d(2) by (auto split: list.splits)
      from chunk_out_typed [OF assms(3,4) this d(1) i(1), of b off] have
        "xfer_typed xid (call_out (SpChunk b xid i off (ds ! i)) (store xid p s))" .
      moreover have "store xid p s = s" using assms(2) by (simp add: store_def fun_upd_idem)
      ultimately show ?thesis using d(4) Some t i(2) by simp
    qed
  qed (use m in simp)
qed

lemma resume_typed:
  assumes "resume_xcb n xid p b s = Some s'" and "live xid s" and "data_typed xid p s"
  shows "xfer_typed xid s'"
proof -
  have "data_typed xid (p\<lparr>xcb := None\<rparr>) s"
    using assms(3) by (auto simp: data_typed_def split: option.splits)
  with transfer_typed [OF assms(1) [unfolded resume_xcb_def]] assms(2) show ?thesis by simp
qed

lemma request_typed:
  assumes "gtcd_get_data n b xid s = Some s'" and "xferTable s xid = Some p"
    and "live xid s" and "data_typed xid p s"
  shows "xfer_typed xid s'"
proof (cases "transfer_data n b xid s = Some s'")
  case True
  then show ?thesis using assms(2-4) by (rule transfer_typed)
next
  case False
  have m: "xmode p \<noteq> XFER_OTHER" using assms(4) by (simp add: data_typed_def)
  show ?thesis
  proof (cases "descs_status p")
    case None
    with False assms m show ?thesis
      by (cases "xmode p") (auto simp: gtcd_get_data_def bind_eq_Some_conv intro!: forget_typed split: if_splits)
  next
    case (Some st)
    then have t: "data_typed xid (p\<lparr>xcb := Some b, fetching := f\<rparr>) s"
        "data_typed xid (p\<lparr>xcb := Some b\<rparr>) s" "data_typed xid (p\<lparr>fetching := True, xcb := Some b\<rparr>) s" for f
      using assms(4) by (auto simp: data_typed_def)
    have out: "xfer_typed xid (call_out (FetchTimer xid) (store xid q s))"
      if "data_typed xid q s" "descs_status q = Some st" for q
      using that assms(3) by (auto simp: xfer_typed_def live_def data_typed_def chunks_typed_def)
    from False assms m Some t out show ?thesis
      by (cases "xmode p") (auto simp: gtcd_get_data_def bind_eq_Some_conv intro!: forget_typed store_typed split: if_splits)
  qed
qed


lemma fetch_loop_length:
  "fetch_loop rc st ds = Some (st', ns, missing) \<Longrightarrow> length st' = length st"
  by (induction rc st ds arbitrary: st' ns missing rule: fetch_loop.induct)
     (auto simp: bind_eq_Some_conv split: if_splits)

lemma mark_arrived_length:
  "mark_arrived cid st ds = Some (m, st') \<Longrightarrow> length st' = length st"
  by (induction cid st ds arbitrary: m st' rule: mark_arrived.induct)
     (auto simp: bind_eq_Some_conv split: if_splits)

text \<open>What a handler's change of a transfer's fields may be, once its descriptors are there.\<close>

lemma status_typed:
  assumes "data_typed xid p s" and "descs_status p = Some st" and "length st' = length st"
    and "xmode q = xmode p" "descs q = descs p" "xhints q = xhints p" "descs_status q = Some st'"
  shows "data_typed xid q s"
  using assms by (auto simp: data_typed_def)

lemma fetch_resume_typed:
  assumes "fetch_resume n xid s = Some s'" and "xfer_typed xid s" and "xferTable s xid = Some p"
  shows "xfer_typed xid s'"
  using assms
  by (auto simp: fetch_resume_def bind_eq_Some_conv typed_live split: option.splits if_splits
      dest!: resume_typed)

lemma actual_counter: "actual_transfer_data n b xid s = Some s' \<Longrightarrow> xferCounter s' = xferCounter s"
  by (auto simp: actual_transfer_data_def Let_def bind_eq_Some_conv split: option.splits if_splits)

lemma transfer_counter: "transfer_data n b xid s = Some s' \<Longrightarrow> xferCounter s' = xferCounter s"
  by (auto simp: transfer_data_def bind_eq_Some_conv
      split: option.splits if_splits xfer_mode.splits dest: actual_counter)

lemma fetch_resume_counter: "fetch_resume n xid s = Some s' \<Longrightarrow> xferCounter s' = xferCounter s"
  by (auto simp: fetch_resume_def resume_xcb_def bind_eq_Some_conv
      split: option.splits if_splits dest!: transfer_counter)

lemma finished_typed:
  assumes "xfer_typed xid s" and "xferTable s xid = Some p"
  shows "live xid (finish_call c s)" and "\<not> is_open c \<Longrightarrow> data_typed xid p (finish_call c s)"
  using assms
  by (auto simp: typed_live live_def data_typed_def chunks_typed_def length_remove1
      split: option.splits dest!: subsetD [OF set_remove1_subset])

lemma fetch_typed:
  assumes "fetch_data n rc xid s = Some s'" and "xferTable s xid = Some p"
    and "live xid s" and "data_typed xid p s"
  shows "xfer_typed xid s'"
proof -
  from assms(1,2) obtain st ds st' ns missing s1 where f: "descs_status p = Some st" "descs p = Some ds"
      "fetch_loop rc st ds = Some (st', ns, missing)"
      "fetch_resume n xid (tell ns (store xid (p\<lparr>descs_status := Some st'\<rparr>) s)) = Some s1"
    and s': "s' = s1 \<or> (\<exists>hs. s' = call_out (XpChunks xid missing hs) s1)"
    by (auto simp: fetch_data_def bind_eq_Some_conv split: if_splits) blast
  have "data_typed xid (p\<lparr>descs_status := Some st'\<rparr>) s"
    by (rule status_typed [OF assms(4) f(1) fetch_loop_length [OF f(3)]]) simp_all
  then have t: "xfer_typed xid (tell ns (store xid (p\<lparr>descs_status := Some st'\<rparr>) s))"
    using assms(3) by (subst typed_live) simp_all
  have "xfer_typed xid s1" by (rule fetch_resume_typed [OF f(4) t]) simp
  moreover have "xid < xferCounter s1"
    using fetch_resume_counter [OF f(4)] assms(3) by (simp add: live_def)
  ultimately have "xfer_typed xid (call_out (XpChunks xid missing hs) s1)" for hs
    by (auto simp: xfer_typed_def)
  with \<open>xfer_typed xid s1\<close> s' show ?thesis by auto
qed

lemma arrived_typed:
  assumes "xp_fetch_data_cb n xid r s = Some s'" and "xferTable s xid = Some p"
    and "live xid s" and "data_typed xid p s"
  shows "xfer_typed xid s'"
proof -
  have e: "data_typed xid (p\<lparr>err := Some e\<rparr>) s" for e
    using assms(4) by (auto simp: data_typed_def split: option.splits)
  have a: "data_typed xid (p\<lparr>descs_status := Some st'\<rparr>) s"
    if "descs_status p = Some st" "mark_arrived cid st ds = Some (m, st')" for st st' cid ds m
    by (rule status_typed [OF assms(4) that(1) mark_arrived_length [OF that(2)]]) simp_all
  from assms(1,2) show ?thesis
    by (auto simp: xp_fetch_data_cb_def Let_def bind_eq_Some_conv assms(3) e a
        split: option.splits sum.splits if_splits prod.splits intro!: store_typed
        elim!: resume_typed)
qed

lemma chunk_typed:
  assumes "get_chunk_cb n b xid k off r s = Some s'" and "xferTable s xid = Some p"
    and "live xid s" and "data_typed xid p s"
  shows "xfer_typed xid s'"
proof (cases r)
  case (Inl e)
  have "data_typed xid (p\<lparr>err := Some e\<rparr>) s"
    using assms(4) by (auto simp: data_typed_def split: option.splits)
  with Inl assms(1-3) show ?thesis
    by (auto simp: get_chunk_cb_def elim!: actual_typed)
next
  case (Inr data)
  with assms(1,2) obtain st ds where st: "descs_status p = Some st" "descs p = Some ds"
    by (auto simp: get_chunk_cb_def bind_eq_Some_conv Let_def)
  have q: "data_typed xid q s" if "xmode q = xmode p" "descs q = descs p" "xhints q = xhints p"
      "descs_status q = Some (st[k := DESC_DONE])" for q
    by (rule status_typed [OF assms(4) st(1) _ that]) simp
  have out: "xfer_typed xid (call_out (SpChunk b xid i (- 1) (ds ! i)) (store xid q s))"
    if "i < length ds" "xmode q = xmode p" "descs q = descs p" "xhints q = xhints p"
      "descs_status q = Some (st[k := DESC_DONE])" for q i
    by (rule chunk_out_typed [OF assms(3) q [OF that(2-5)] that(5) _ that(1)]) (simp add: that st)
  from Inr assms(1-3) st show ?thesis
    by (auto simp: get_chunk_cb_def bind_eq_Some_conv Let_def vnth_def q out
        split: if_splits elim!: actual_typed)
qed

lemma page_typed:
  assumes "get_init_cb b oid l xid r s = Some s'" and "xferTable s xid = Some p"
    and "live xid s" and "data_typed xid p s" and "descs_status p = None" and "xhints p \<noteq> None"
    and "\<And>ds. r = Inr (ds, True) \<Longrightarrow> of_xfer is_open xid s = []"
    and "\<And>e. r = Inl e \<Longrightarrow> of_xfer is_open xid s = []"
  shows "xfer_typed xid s'"
proof (cases r)
  case (Inl e)
  with assms(8) have o: "of_xfer is_open xid s = []" by simp
  then have "data_typed xid p (call_out (XpDescs b oid (xhints p) xid) s)"
    using assms(4-6) by (simp add: data_typed_def)
  with Inl o assms(1-3) show ?thesis
    by (cases l) (auto simp: get_init_cb_def xfer_typed_def live_def)
next
  case (Inr pe)
  obtain page end1 where pe: "pe = (page, end1)" by (cases pe)
  define ds where "ds = (case descs p of None \<Rightarrow> page | Some ds0 \<Rightarrow> ds0 @ page)"
  have page: "data_typed xid (p\<lparr>descs := Some ds\<rparr>) s"
    using assms(4,5) by (simp add: data_typed_def)
  have last: "data_typed xid (p\<lparr>descs := Some ds, descs_status := Some (replicate (length ds) DESC_UNKNOWN)\<rparr>) s"
    if end1
    using that assms(4-7) Inr pe by (simp add: data_typed_def chunks_typed_def)
  have reply: "xfer_typed xid (reply_to b xid rr (tell ns s1)) = xfer_typed xid s1" for rr ns s1
    by (simp add: xfer_typed_def)
  show ?thesis
    using assms(1,2) Inr pe store_typed [OF assms(3) page] store_typed [OF assms(3) last]
    by (cases end1) (auto simp: get_init_cb_def Let_def ds_def [symmetric] reply)
qed

section \<open>Every event keeps it\<close>

lemma opened_by_typed:
  assumes "xfer_typed xid s" and "c \<in> set (calls_out s)" and "is_open c" and "call_xid c = xid"
  shows "xid < xferCounter s" and "of_xfer is_open xid s = [c]"
    and "xferTable s xid = Some p \<Longrightarrow> descs_status p = None \<and> xhints p \<noteq> None"
proof -
  have c: "c \<in> set (of_xfer is_open xid s)" "c \<in> set (of_xfer (\<lambda>c. True) xid s)"
    using assms(2-4) by (simp_all add: of_xfer_def)
  with assms(1) show "xid < xferCounter s" by (auto simp: xfer_typed_def not_le [symmetric])
  from assms(1) c(1) show "of_xfer is_open xid s = [c]"
    by (cases "of_xfer is_open xid s") (auto simp: xfer_typed_def)
  from assms(1) c(1) show "xferTable s xid = Some p \<Longrightarrow> descs_status p = None \<and> xhints p \<noteq> None"
    by (auto simp: xfer_typed_def data_typed_def split: option.splits)
qed


lemma finished_open:
  assumes "xfer_typed xid s" and "c \<in> set (calls_out s)" and "is_open c" and "call_xid c = xid"
  shows "of_xfer is_open xid (finish_call c s) = []" and "live xid (finish_call c s)" and "live xid s"
    and "xferTable s xid = Some p \<Longrightarrow> data_typed xid p (finish_call c s)"
  using opened_by_typed [OF assms] assms
  by (auto simp: live_def xfer_typed_def data_typed_def)

lemma descs_answer_typed:
  assumes "xfer_typed xid s" and "c \<in> set (calls_out s)" and "is_open c" and "call_xid c = xid"
    and "get_init_cb b oid l xid r (if last_page r then finish_call c s else s) = Some s'"
  shows "xfer_typed xid s'"
proof -
  note o1 = opened_by_typed [OF assms(1-4)] and f = finished_open [OF assms(1-4)]
  let ?s = "if last_page r then finish_call c s else s"
  show ?thesis
  proof (cases "xferTable s xid")
    case None
    with assms(5) f(1,2) show ?thesis
      by (auto simp: get_init_cb_def last_page_def bind_eq_Some_conv xfer_typed_def live_def
          split: sum.splits prod.splits if_splits)
  next
    case (Some p)
    have "data_typed xid p s" using assms(1) Some by (simp add: xfer_typed_def)
    then have "live xid ?s" "data_typed xid p ?s" "xferTable ?s xid = Some p"
      using f Some by auto
    moreover have "of_xfer is_open xid ?s = []" if "r = Inr (ds, True) \<or> r = Inl e" for ds e
      using that f(1) by (auto simp: last_page_def)
    ultimately show ?thesis using page_typed [OF assms(5)] o1(3) [OF Some] by blast
  qed
qed

lemma init_answer_typed:
  assumes "xfer_typed xid s" and "c \<in> set (calls_out s)" and "is_open c" and "call_xid c = xid"
    and "get_init_resumed b xid e r (finish_call c s) = Some s'"
  shows "xfer_typed xid s'"
proof -
  note o1 = opened_by_typed [OF assms(1-4)] and f = finished_open [OF assms(1-4)]
  from assms(5) obtain oid where s': "s' = call_out (SpDescs b oid xid) (finish_call c s)"
    by (auto simp: get_init_resumed_def bind_eq_Some_conv)
  show ?thesis
  proof (cases "xferTable s xid")
    case None
    with f(1,2) show ?thesis by (simp add: s' xfer_typed_def live_def)
  next
    case (Some p)
    with f o1(3) [OF Some] show ?thesis
      by (auto simp: s' xfer_typed_def live_def data_typed_def)
  qed
qed

text \<open>The other calls_out of a transfer.\<close>

lemma gone_typed:
  assumes "xfer_typed xid s" and "xferTable s xid = None" and "xid < xferCounter s"
  shows "xfer_typed xid (finish_call c s)"
  using assms by (auto simp: xfer_typed_def length_remove1)

lemma reply_typed: "xfer_typed xid (reply_to b x r s) = xfer_typed xid s"
  by (simp add: xfer_typed_def)

lemma put_call_typed:
  assumes "xfer_typed xid s" and "xid < xferCounter s" and "\<not> is_open c"
  shows "xfer_typed xid (finish_call c s)"
proof (cases "xferTable s xid")
  case None
  then show ?thesis by (rule gone_typed [OF assms(1) _ assms(2)])
next
  case (Some p)
  with finished_typed [OF assms(1) Some, of c] assms(3) show ?thesis by (simp add: typed_live)
qed

lemma handlers_typed:
  assumes "xfer_typed xid s"
  shows "fetch_data n rc xid s = Some s' \<Longrightarrow> xfer_typed xid s'"
    and "get_chunk_cb n b xid k off r s = Some s' \<Longrightarrow> xfer_typed xid s'"
    and "xp_fetch_data_cb n xid r1 s = Some s' \<Longrightarrow> xfer_typed xid s'"
    and "gtcd_get_data n b xid s = Some s' \<Longrightarrow> xfer_typed xid s'"
proof -
  have "fetch_data n rc xid s = None" "get_chunk_cb n b xid k off r s = None"
    "xp_fetch_data_cb n xid r1 s = Some s" if "xferTable s xid = None"
    using that by (simp_all add: fetch_data_def get_chunk_cb_def xp_fetch_data_cb_def)
  moreover have "gtcd_get_data n b xid s = Some s' \<Longrightarrow> xfer_typed xid s'" if "xferTable s xid = None"
    using that assms by (auto simp: gtcd_get_data_def reply_typed)
  moreover have "live xid s \<and> data_typed xid p s" if "xferTable s xid = Some p" for p
    using assms typed_live [OF that] by simp
  ultimately show "fetch_data n rc xid s = Some s' \<Longrightarrow> xfer_typed xid s'"
    "get_chunk_cb n b xid k off r s = Some s' \<Longrightarrow> xfer_typed xid s'"
    "xp_fetch_data_cb n xid r1 s = Some s' \<Longrightarrow> xfer_typed xid s'"
    "gtcd_get_data n b xid s = Some s' \<Longrightarrow> xfer_typed xid s'"
    using assms by (cases "xferTable s xid"; auto intro: fetch_typed chunk_typed arrived_typed request_typed)+
qed

lemma callback_typed:
  assumes "run_callback n c a s = Some s'" and "c \<in> set (calls_out s)" and "xfer_typed (call_xid c) s"
  shows "xfer_typed (call_xid c) s'"
proof -
  have lt: "call_xid c < xferCounter s" using assms(2,3)
    by (auto simp: xfer_typed_def of_xfer_def filter_empty_conv not_le [symmetric])
  note ft = put_call_typed [OF assms(3) lt]
  show ?thesis
    using assms ft
    by (cases "(n, c, a, s)" rule: run_callback.cases)
       (auto simp: put_data_cb_def put_commit_cb_def reply_typed
         intro: init_answer_typed descs_answer_typed elim: handlers_typed(1-3) [rotated])
qed

lemma fresh_typed:
  assumes "xfer_typed (xferCounter s) s"
  shows "xfer_typed (xferCounter s) (get_init b oid hs m s)"
    and "xfer_typed (xferCounter s) (put_init b sid1 s)"
proof -
  let ?x = "xferCounter s"
  have calls_out: "of_xfer P ?x s = []" for P
    by (rule no_calls_typed) (use assms in \<open>simp add: xfer_typed_def\<close>)
  have d: "data_typed ?x (xferData_new\<lparr>sid := sid1\<rparr>) s"
    "data_typed ?x (xferData_new\<lparr>xmode := m, xhints := Some hs\<rparr>) s'" if "m \<noteq> XFER_OTHER"
      "s' = call_out (SpInit b oid ?x) s" for m s'
    using that by (simp_all add: data_typed_def xferData_new_def calls_out)
  have n: "(xfer_typed ?x ((store ?x p s)\<lparr>xferCounter := Suc ?x\<rparr>)) = data_typed ?x p s"
    "(xfer_typed ?x (call_out (SpInit b oid ?x) ((store ?x p s)\<lparr>xferCounter := Suc ?x\<rparr>))) =
       data_typed ?x p (call_out (SpInit b oid ?x) s)" for p
    by (simp_all add: xfer_typed_def data_typed_def chunks_typed_def calls_out cong: option.case_cong)
  show "xfer_typed ?x (get_init b oid hs m s)"
    using assms d(2) by (cases m) (auto simp: get_init_def reply_typed n)
  show "xfer_typed ?x (put_init b sid1 s)"
    using d(1) [of XFER_SEQUENTIAL] by (simp add: put_init_def reply_typed n)
qed

lemma event_typed:
  assumes "session_typed s" and "handle_event n e s = Some s'"
  shows "session_typed s'"
proof -
  have all: "xfer_typed x s" for x using assms(1) by (simp add: session_typed_def)
  have own: "xfer_typed (event_xid e s) s'"
  proof (cases e)
    case (Client b c)
    then show ?thesis
    proof (cases c)
      case (GetData x)
      with Client assms(2) handlers_typed(4) [OF all] show ?thesis
        by (simp add: handle_event_def session_dispatch_def event_xid_def)
    next
      case (PutData x data m)
      have "xfer_typed x (call_out (CpPut b x i data) s)" if "xferTable s x = Some p" for i p
        using that all [of x] by (auto simp: xfer_typed_def)
      with PutData Client assms(2) all show ?thesis
        by (auto simp: handle_event_def session_dispatch_def event_xid_def put_data_def reply_typed
            split: option.splits if_splits)
    next
      case (PutCommit x)
      have "xfer_typed x (call_out (CpCommit b x i) (forget x s))" if "xferTable s x = Some p" for i p
        using that all [of x] by (auto simp: xfer_typed_def)
      with PutCommit Client assms(2) all show ?thesis
        by (auto simp: handle_event_def session_dispatch_def event_xid_def put_commit_def reply_typed
            split: option.splits)
    qed (use Client assms(2) fresh_typed [OF all] in
          \<open>auto simp: handle_event_def session_dispatch_def event_xid_def\<close>)
  next
    case (Answered c a)
    with assms(2) all callback_typed [of n c a s s'] show ?thesis
      by (auto simp: handle_event_def event_xid_def split: if_splits)
  qed
  have "xfer_typed x s'" for x
  proof (cases "x = event_xid e s")
    case False
    with event_untouched [OF assms(2), of x] untouched_typed all show ?thesis by metis
  qed (use own in simp)
  then show ?thesis by (simp add: session_typed_def)
qed

inductive reachable_session :: "nat \<Rightarrow> session \<Rightarrow> bool" for n where
  new: "reachable_session n session_new"
| event: "reachable_session n s \<Longrightarrow> handle_event n e s = Some s' \<Longrightarrow> reachable_session n s'"

lemma session_new_typed: "session_typed session_new"
  by (simp add: session_typed_def xfer_typed_def session_new_def of_xfer_def)

text \<open>C21. The well-formedness of a connection: in every state that clients and plugins can bring it to,
  in any order, a transfer's number is below the counter and it is being opened by at most one call;
  it has statuses only when all its descriptors are there, one for each of them, and before that no
  data, no request that waits and no chunk that is asked for; and a chunk asked for is a chunk of the
  object at that index.\<close>

theorem reachable_session_typed:
  assumes "reachable_session n s"
  shows "session_typed s"
  using assms by induction (auto intro: session_new_typed event_typed)


lemma reachable_session_typed_witness:
  "session_typed (get_init 4 [3] [''h''] XFER_SEQUENTIAL session_new)"
proof (rule reachable_session_typed)
  show "reachable_session 2 (get_init 4 [3] [''h''] XFER_SEQUENTIAL session_new)"
    by (rule event [OF new, of _ "Client 4 (GetInit [3] [''h''] XFER_SEQUENTIAL)"])
       (simp add: handle_event_def session_dispatch_def)
qed

end
