(* ===== verification/GtcdPutFd.thy ===== *)
theory GtcdPutFd
  imports GtcdBase
begin

text \<open>
  \<^verbatim>\<open>src/gtcd/gtcd.T\<close>: storing an object by a file descriptor (\<^verbatim>\<open>put_fd\<close>, \<^verbatim>\<open>put_fd_main\<close>,
  \<^verbatim>\<open>put_fd_read\<close>, \<^verbatim>\<open>put_fd_read_cb\<close>, \<^verbatim>\<open>put_fd_commit_cb\<close>). The daemon reads the descriptor whenever it is
  readable, hands what it read to the chunker and commits the object when the descriptor is at its
  end and the chunker has taken everything.

  The event loop is the list of events: the descriptor is readable (only when a callback is set for
  it), the chunker answers one of the calls that are out, the commit is answered.
\<close>

section \<open>State\<close>

text \<open>\<open>fd_valid\<close> is \<^verbatim>\<open>st->fd != -1\<close>; \<open>reading\<close> is the \<^verbatim>\<open>fdcb\<close> for reading; \<open>puts\<close> are the buffers handed to
  \<^verbatim>\<open>put_object\<close>, in order, \<open>unanswered\<close> how many of them have no answer yet; \<open>commits\<close> counts the calls
  of \<^verbatim>\<open>commit_object\<close>. \<open>fd_replies\<close> is what the client was answered: the object's id or an error.\<close>

record putfd_state =
  fd_valid :: bool
  pf_pending :: int
  reading :: bool
  puts :: "bytes list"
  unanswered :: nat
  commits :: nat
  commit_out :: nat
  fd_replies :: "(string + bytes) list"

datatype read_result = ReadFailed | ReadEnd | ReadBytes bytes

datatype fd_event =
    Readable read_result
  | PutAnswered "string option"
  | CommitAnswered "string + bytes"

definition fd_reply :: "string + bytes \<Rightarrow> putfd_state \<Rightarrow> putfd_state" where
  "fd_reply r st = st\<lparr>fd_replies := fd_replies st @ [r]\<rparr>"

definition put_fd_main :: "putfd_state \<Rightarrow> putfd_state" where
  "put_fd_main st =
     (let st1 = (if fd_valid st then st\<lparr>reading := True\<rparr> else st);
          more = fd_valid st
      in if \<not> more \<and> pf_pending st1 \<le> 0
         then st1\<lparr>commits := commits st1 + 1, commit_out := commit_out st1 + 1\<rparr> else st1)"

definition put_fd_read :: "read_result \<Rightarrow> putfd_state \<Rightarrow> putfd_state" where
  "put_fd_read rc st = (case rc of
     ReadFailed \<Rightarrow> fd_reply (Inl (''Could not read from input file descriptor'' @ [CHR 0x0A])) st
   | ReadEnd \<Rightarrow> put_fd_main (st\<lparr>reading := False, fd_valid := False\<rparr>)
   | ReadBytes inbuf \<Rightarrow> st\<lparr>pf_pending := pf_pending st + 1, puts := puts st @ [inbuf],
       unanswered := unanswered st + 1\<rparr>)"

definition put_fd_read_cb :: "string option \<Rightarrow> putfd_state \<Rightarrow> putfd_state" where
  "put_fd_read_cb s st = (case s of
     Some e \<Rightarrow> fd_reply (Inl e) st
   | None \<Rightarrow> put_fd_main (st\<lparr>pf_pending := pf_pending st - 1\<rparr>))"

definition put_fd_commit_cb :: "string + bytes \<Rightarrow> putfd_state \<Rightarrow> putfd_state" where
  "put_fd_commit_cb r st = fd_reply r st"

text \<open>\<^verbatim>\<open>put_fd\<close>, with what \<^verbatim>\<open>recvfd\<close> returned.\<close>

definition put_fd :: "int \<Rightarrow> putfd_state" where
  "put_fd fd =
     (let st0 = \<lparr>fd_valid = False, pf_pending = 0, reading = False, puts = [], unanswered = 0,
        commits = 0, commit_out = 0, fd_replies = []\<rparr>
      in if fd < 0 then fd_reply (Inl (''Could not receive FD from client'' @ [CHR 0x0A])) st0
         else put_fd_main (st0\<lparr>fd_valid := True\<rparr>))"

definition fd_step :: "fd_event \<Rightarrow> putfd_state \<Rightarrow> putfd_state" where
  "fd_step e st = (case e of
     Readable rc \<Rightarrow> if reading st then put_fd_read rc st else st
   | PutAnswered s \<Rightarrow> if 0 < unanswered st
       then put_fd_read_cb s (st\<lparr>unanswered := unanswered st - 1\<rparr>) else st
   | CommitAnswered r \<Rightarrow> if 0 < commit_out st
       then put_fd_commit_cb r (st\<lparr>commit_out := commit_out st - 1\<rparr>) else st)"

primrec run_fd :: "fd_event list \<Rightarrow> putfd_state \<Rightarrow> putfd_state" where
  "run_fd [] st = st"
| "run_fd (e # es) st = run_fd es (fd_step e st)"

section \<open>What was read and what was answered\<close>

text \<open>The buffers read before the end of the descriptor, and how many calls the chunker has accepted.\<close>

fun read_until_end :: "fd_event list \<Rightarrow> bytes list" where
  "read_until_end [] = []"
| "read_until_end (Readable ReadEnd # es) = []"
| "read_until_end (Readable (ReadBytes b) # es) = b # read_until_end es"
| "read_until_end (e # es) = read_until_end es"

primrec accepted :: "fd_event list \<Rightarrow> putfd_state \<Rightarrow> nat" where
  "accepted [] st = 0"
| "accepted (e # es) st =
     (if e = PutAnswered None \<and> 0 < unanswered st then 1 else 0) + accepted es (fd_step e st)"

definition fd_inv :: "putfd_state \<Rightarrow> bool" where
  "fd_inv st \<longleftrightarrow> int (unanswered st) \<le> pf_pending st \<and> reading st = fd_valid st \<and>
     commits st = (if \<not> reading st \<and> pf_pending st = 0 then 1 else 0)"

lemma put_fd_main_simps:
  "fd_valid st \<Longrightarrow> put_fd_main st = st\<lparr>reading := True\<rparr>"
  "\<not> fd_valid st \<Longrightarrow> put_fd_main st = (if pf_pending st \<le> 0
     then st\<lparr>commits := commits st + 1, commit_out := commit_out st + 1\<rparr> else st)"
  by (simp_all add: put_fd_main_def Let_def)

lemma fd_step_inv:
  assumes "fd_inv st"
  shows "fd_inv (fd_step e st)"
    and "pf_pending (fd_step e st) + (if e = PutAnswered None \<and> 0 < unanswered st then 1 else 0) -
      int (length (puts (fd_step e st))) = pf_pending st - int (length (puts st))"
    and "reading (fd_step e st) = (reading st \<and> e \<noteq> Readable ReadEnd)"
    and "puts (fd_step e st) = puts st @ (if reading st then read_until_end [e] else [])"
proof -
  have "fd_inv (fd_step e st) \<and>
    pf_pending (fd_step e st) + (if e = PutAnswered None \<and> 0 < unanswered st then 1 else 0) -
      int (length (puts (fd_step e st))) = pf_pending st - int (length (puts st)) \<and>
    reading (fd_step e st) = (reading st \<and> e \<noteq> Readable ReadEnd) \<and>
    puts (fd_step e st) = puts st @ (if reading st then read_until_end [e] else [])"
  proof (cases e)
    case (Readable rc)
    with assms show ?thesis
      by (cases rc; cases "reading st") (auto simp: fd_step_def put_fd_read_def fd_reply_def put_fd_main_simps fd_inv_def)
  next
    case (PutAnswered r)
    with assms show ?thesis
      by (cases r; cases "reading st") (auto simp: fd_step_def put_fd_read_cb_def fd_reply_def put_fd_main_simps fd_inv_def)
  next
    case (CommitAnswered r)
    with assms show ?thesis
      by (auto simp: fd_step_def put_fd_commit_cb_def fd_reply_def fd_inv_def)
  qed
  then show "fd_inv (fd_step e st)"
    "pf_pending (fd_step e st) + (if e = PutAnswered None \<and> 0 < unanswered st then 1 else 0) -
      int (length (puts (fd_step e st))) = pf_pending st - int (length (puts st))"
    "reading (fd_step e st) = (reading st \<and> e \<noteq> Readable ReadEnd)"
    "puts (fd_step e st) = puts st @ (if reading st then read_until_end [e] else [])"
    by blast+
qed

lemma read_until_end_Cons:
  "read_until_end (e # es) = read_until_end [e] @ (if e = Readable ReadEnd then [] else read_until_end es)"
  by (cases "e # es" rule: read_until_end.cases) auto

lemma run_fd_inv:
  assumes "fd_inv st"
  shows "fd_inv (run_fd es st) \<and>
    pf_pending (run_fd es st) + int (accepted es st) - int (length (puts (run_fd es st))) =
      pf_pending st - int (length (puts st)) \<and>
    reading (run_fd es st) = (reading st \<and> Readable ReadEnd \<notin> set es) \<and>
    puts (run_fd es st) = puts st @ (if reading st then read_until_end es else [])"
  using assms
proof (induction es arbitrary: st)
  case (Cons e es)
  note step = fd_step_inv [OF Cons.prems, of e]
  from Cons.IH [OF step(1)] step(2-4) show ?case
    unfolding run_fd.simps accepted.simps read_until_end_Cons [of e es]
    by (auto split: if_splits)
qed simp

text \<open>C22. \<^verbatim>\<open>put_fd\<close> and its callbacks: whatever the order in which the descriptor is readable and the
  chunker answers, the chunker is handed exactly what was read up to the end of the descriptor, in
  order, and the object is committed exactly once, when the end was read and the chunker has accepted
  every buffer.\<close>

theorem put_fd_commits_once:
  assumes "0 \<le> fd"
  shows "puts (run_fd es (put_fd fd)) = read_until_end es \<and>
    commits (run_fd es (put_fd fd)) =
      (if Readable ReadEnd \<in> set es \<and> accepted es (put_fd fd) = length (read_until_end es) then 1 else 0)"
proof -
  have "fd_inv (put_fd fd)" and "reading (put_fd fd)" "puts (put_fd fd) = []" "pf_pending (put_fd fd) = 0"
    using assms by (simp_all add: put_fd_def fd_inv_def put_fd_main_simps Let_def)
  with run_fd_inv [of "put_fd fd" es] show ?thesis by (auto simp: fd_inv_def)
qed

text \<open>After a failed read the client is answered with an error, but the descriptor stays valid and
  its callback set: each further failure answers the same call again, and when the descriptor is then
  at its end the object is committed after all.\<close>

theorem put_fd_error_answered_again:
  assumes "0 \<le> fd"
  shows "length (fd_replies (run_fd (replicate k (Readable ReadFailed)) (put_fd fd))) = k \<and>
    commits (run_fd (replicate k (Readable ReadFailed) @ [Readable ReadEnd]) (put_fd fd)) = 1"
proof -
  have failed: "run_fd (replicate k (Readable ReadFailed)) st =
      st\<lparr>fd_replies := fd_replies st @ replicate k (Inl (''Could not read from input file descriptor'' @ [CHR 0x0A]))\<rparr>"
    if "reading st" for st
    using that by (induction k arbitrary: st) (simp_all add: fd_step_def put_fd_read_def fd_reply_def)
  have app: "run_fd (es @ fs) st = run_fd fs (run_fd es st)" for es fs st
    by (induction es arbitrary: st) simp_all
  show ?thesis using assms
    by (simp add: app failed put_fd_def put_fd_main_simps Let_def fd_step_def put_fd_read_def)
qed

lemma put_fd_commits_once_witness:
  "commits (run_fd [Readable (ReadBytes [1, 2]), Readable (ReadBytes [3]), PutAnswered None,
     Readable ReadEnd, PutAnswered None] (put_fd 7)) = 1"
  using put_fd_commits_once [of 7 "[Readable (ReadBytes [1, 2]), Readable (ReadBytes [3]), PutAnswered None,
     Readable ReadEnd, PutAnswered None]"]
  by (simp add: put_fd_def put_fd_main_simps Let_def fd_step_def put_fd_read_def put_fd_read_cb_def)

lemma put_fd_error_answered_again_witness:
  "length (fd_replies (run_fd (replicate 2 (Readable ReadFailed)) (put_fd 7))) = 2 \<and>
   commits (run_fd (replicate 2 (Readable ReadFailed) @ [Readable ReadEnd]) (put_fd 7)) = 1"
  using put_fd_error_answered_again [of 7 2] by simp

end
