(* ===== verification/MeshFloat.thy ===== *)
theory MeshFloat
  imports Complex_Main "HOL-Library.Log_Nat"
begin

text \<open>
  The \<^verbatim>\<open>double\<close>s of \<^verbatim>\<open>scripts/map_command_and_control/setup/code\<close>: a double is its value, a rational number,
  and an operation is the exact result rounded to 53 binary digits, to the nearest one and to the even
  one of two (IEEE 754). The range of the exponent is not bounded, and there are no NaNs: the programs
  add link costs.
\<close>

section \<open>Rounding\<close>

type_synonym double = rat

definition two_to :: "int \<Rightarrow> rat" where
  "two_to k = 2 powi k"

text \<open>The exponent of the leading binary digit.\<close>

definition binade :: "rat \<Rightarrow> int" where
  "binade x = (let (a, b) = quotient_of x; k = bitlen a - bitlen b
     in if x < two_to k then k - 1 else k)"

definition round_even :: "rat \<Rightarrow> int" where
  "round_even q = (let f = \<lfloor>q\<rfloor>; r = q - of_int f
     in if r < 1 / 2 then f else if 1 / 2 < r then f + 1 else if even f then f else f + 1)"

text \<open>Rounding to \<open>p\<close> binary digits behind the leading one.\<close>

definition rnd :: "nat \<Rightarrow> rat \<Rightarrow> rat" where
  "rnd p x = (if x = 0 then 0 else
     let k = binade \<bar>x\<bar> - int p
     in sgn x * of_int (round_even (\<bar>x\<bar> * two_to (- k))) * two_to k)"

definition dbl :: "rat \<Rightarrow> double" where
  "dbl x = rnd 52 x"

definition dadd :: "double \<Rightarrow> double \<Rightarrow> double" where
  "dadd x y = dbl (x + y)"

section \<open>Powers of two\<close>

lemma two_to_pos [simp]: "0 < two_to k"
  by (simp add: two_to_def)

lemma two_to_nonneg [simp]: "0 \<le> two_to k"
  by (simp add: less_imp_le)

lemma two_to_add: "two_to (a + b) = two_to a * two_to b"
  by (simp add: two_to_def power_int_add)

lemma two_to_minus_mult [simp]: "two_to (- k) * two_to k = 1" "two_to k * two_to (- k) = 1"
  by (simp_all flip: two_to_add) (simp_all add: two_to_def)

lemma two_to_mono: "a \<le> b \<Longrightarrow> two_to a \<le> two_to b"
  by (simp add: two_to_def power_int_increasing)

lemma two_to_nat: "0 \<le> k \<Longrightarrow> two_to k = 2 ^ nat k"
  by (simp add: two_to_def power_int_nonneg_exp)

lemma bitlen_rat:
  assumes "0 < a"
  shows "two_to (bitlen a - 1) \<le> of_int a" and "of_int a < two_to (bitlen a)"
proof -
  from bitlen_bounds [OF assms] have b: "2 ^ nat (bitlen a - 1) \<le> a" "a < 2 ^ nat (bitlen a)" by auto
  from assms have "0 < bitlen a" using bitlen_bounds [OF assms] bitlen_nonneg [of a]
    by (cases "bitlen a = 0") auto
  then have t: "two_to (bitlen a - 1) = of_int (2 ^ nat (bitlen a - 1))"
    "two_to (bitlen a) = of_int (2 ^ nat (bitlen a))" by (simp_all add: two_to_nat)
  show "two_to (bitlen a - 1) \<le> of_int a" unfolding t using b(1) by (simp only: of_int_le_iff)
  show "of_int a < two_to (bitlen a)" unfolding t using b(2) by (simp only: of_int_less_iff)
qed

lemma binade_bounds:
  assumes "0 < x"
  shows "two_to (binade x) \<le> x" and "x < two_to (binade x + 1)"
proof -
  obtain a b where ab: "quotient_of x = (a, b)" by (cases "quotient_of x")
  then have b: "0 < b" and x: "x = of_int a / of_int b"
    using quotient_of_denom_pos quotient_of_div by auto
  with assms have a: "0 < a" by (simp add: zero_less_divide_iff)
  let ?k = "bitlen a - bitlen b"
  have "two_to (?k - 1) * of_int b \<le> two_to (?k - 1) * two_to (bitlen b)"
    using bitlen_rat(2) [OF b] by (intro mult_left_mono) simp_all
  also have "\<dots> = two_to (bitlen a - 1)" by (simp flip: two_to_add)
  also have "\<dots> \<le> of_int a" by (rule bitlen_rat(1) [OF a])
  finally have lo: "two_to (?k - 1) \<le> x" using b by (simp add: x le_divide_eq)
  have "of_int a < two_to (bitlen a)" by (rule bitlen_rat(2) [OF a])
  also have "\<dots> = two_to (?k + 1) * two_to (bitlen b - 1)" by (simp flip: two_to_add)
  also have "\<dots> \<le> two_to (?k + 1) * of_int b"
    using bitlen_rat(1) [OF b] by (intro mult_left_mono) simp_all
  finally have hi: "x < two_to (?k + 1)" using b by (simp add: x divide_less_eq)
  show "two_to (binade x) \<le> x" "x < two_to (binade x + 1)"
    using lo hi by (auto simp: binade_def ab Let_def)
qed

lemma binade_unique:
  assumes "two_to k \<le> x" and "x < two_to (k + 1)"
  shows "binade x = k"
proof -
  have "0 < x" using assms(1) two_to_pos [of k] by linarith
  note b = binade_bounds [OF this]
  have "\<not> k + 1 \<le> binade x" using b(1) assms(2) two_to_mono [of "k + 1" "binade x"] by auto
  moreover have "\<not> binade x + 1 \<le> k" using b(2) assms(1) two_to_mono [of "binade x + 1" k] by auto
  ultimately show ?thesis by linarith
qed

lemma binade_mono: "0 < x \<Longrightarrow> x \<le> y \<Longrightarrow> binade x \<le> binade y"
proof (rule ccontr)
  assume "0 < x" "x \<le> y" "\<not> binade x \<le> binade y"
  then have "two_to (binade y + 1) \<le> two_to (binade x)" by (intro two_to_mono) simp
  with binade_bounds(1) [OF \<open>0 < x\<close>] binade_bounds(2) [of y] \<open>x \<le> y\<close> \<open>0 < x\<close> show False by auto
qed

section \<open>Rounding is monotone and idempotent\<close>

lemma round_even_int [simp]: "round_even (of_int m) = m"
  by (simp add: round_even_def)

lemma round_even_bounds: "\<lfloor>q\<rfloor> \<le> round_even q" "round_even q \<le> \<lfloor>q\<rfloor> + 1"
  by (simp_all add: round_even_def Let_def)

lemma round_even_mono:
  assumes "p \<le> q"
  shows "round_even p \<le> round_even q"
proof (cases "\<lfloor>p\<rfloor> = \<lfloor>q\<rfloor>")
  case True
  with assms show ?thesis by (auto simp: round_even_def Let_def)
next
  case False
  with floor_mono [OF assms] have "\<lfloor>p\<rfloor> + 1 \<le> \<lfloor>q\<rfloor>" by simp
  with round_even_bounds(2) [of p] round_even_bounds(1) [of q] show ?thesis by linarith
qed

lemma two_to_int: "two_to (int p) = 2 ^ p" "two_to (int p + 1) = 2 ^ Suc p"
  by (simp_all add: two_to_def power_int_add)

lemma rnd_pos: "0 < x \<Longrightarrow>
  rnd p x = of_int (round_even (x * two_to (int p - binade x))) * two_to (binade x - int p)"
  by (simp add: rnd_def Let_def)

lemma rnd_range:
  assumes "0 < x"
  shows "two_to (binade x) \<le> rnd p x" and "rnd p x \<le> two_to (binade x + 1)"
proof -
  let ?m = "round_even (x * two_to (int p - binade x))"
  have t: "two_to (binade x) = of_int (2 ^ p) * two_to (binade x - int p)"
    "two_to (binade x + 1) = of_int (2 ^ Suc p) * two_to (binade x - int p)"
    unfolding of_int_power of_int_numeral two_to_int [symmetric] two_to_add [symmetric] by (simp_all add: add.commute)
  have "of_int (2 ^ p) = two_to (binade x) * two_to (int p - binade x)"
    "of_int (2 ^ Suc p) = two_to (binade x + 1) * two_to (int p - binade x)"
    by (simp_all add: two_to_nat nat_add_distrib flip: two_to_add)
  moreover have "two_to (binade x) * two_to (int p - binade x) \<le> x * two_to (int p - binade x)"
    "x * two_to (int p - binade x) \<le> two_to (binade x + 1) * two_to (int p - binade x)"
    using binade_bounds [OF assms] by (intro mult_right_mono; simp)+
  ultimately have "of_int (2 ^ p) \<le> x * two_to (int p - binade x)" "x * two_to (int p - binade x) \<le> of_int (2 ^ Suc p)"
    by (simp_all only:)
  from this [THEN round_even_mono] have m: "2 ^ p \<le> ?m" "?m \<le> 2 ^ Suc p"
    by (simp_all only: round_even_int)
  show "two_to (binade x) \<le> rnd p x" "rnd p x \<le> two_to (binade x + 1)"
    unfolding rnd_pos [OF assms] t using m by (simp_all only: mult_le_cancel_right_pos two_to_pos of_int_le_iff)
qed

lemma rnd_nonneg:
  assumes "0 \<le> x"
  shows "0 \<le> rnd p x"
proof (cases "x = 0")
  case False
  with assms have "two_to (binade x) \<le> rnd p x" by (intro rnd_range(1)) simp
  with two_to_nonneg show ?thesis by (rule order_trans)
qed (simp add: rnd_def)

lemma rnd_mono:
  assumes "0 \<le> x" and "x \<le> y"
  shows "rnd p x \<le> rnd p y"
proof (cases "x = 0")
  case True
  with rnd_nonneg [of y] assms show ?thesis by (simp add: rnd_def)
next
  case False
  with assms have x: "0 < x" "0 < y" by auto
  show ?thesis
  proof (cases "binade x = binade y")
    case True
    have "x * two_to (int p - binade y) \<le> y * two_to (int p - binade y)" using assms by simp
    then have "round_even (x * two_to (int p - binade y)) \<le> round_even (y * two_to (int p - binade y))"
      by (rule round_even_mono)
    with True x show ?thesis by (simp add: rnd_pos)
  next
    case False
    with binade_mono [OF x(1) assms(2)] have "two_to (binade x + 1) \<le> two_to (binade y)"
      by (intro two_to_mono) simp
    with rnd_range(2) [OF x(1), of p] rnd_range(1) [OF x(2), of p] show ?thesis by linarith
  qed
qed

lemma rnd_idem:
  assumes "0 \<le> x"
  shows "rnd p (rnd p x) = rnd p x"
proof (cases "x = 0")
  case False
  with assms have x: "0 < x" by simp
  let ?k = "binade x" and ?y = "rnd p x"
  from rnd_range(1) [OF x, of p] two_to_pos [of ?k] have y: "0 < ?y" by linarith
  show ?thesis
  proof (cases "?y < two_to (?k + 1)")
    case True
    with rnd_range(1) [OF x, of p] have b: "binade ?y = ?k" by (intro binade_unique)
    have "?y * two_to (int p - ?k) = of_int (round_even (x * two_to (int p - ?k)))"
      by (simp add: rnd_pos [OF x] mult.assoc flip: two_to_add) (simp add: two_to_def)
    then have "rnd p ?y = of_int (round_even (x * two_to (int p - ?k))) * two_to (?k - int p)"
      unfolding rnd_pos [OF y] b by (simp only: round_even_int)
    then show ?thesis by (simp only: rnd_pos [OF x])
  next
    case False
    with rnd_range(2) [OF x, of p] have e: "?y = two_to (?k + 1)" by simp
    have "two_to (?k + 1) < two_to (?k + 1 + 1)" by (simp add: two_to_def power_int_add)
    then have b: "binade ?y = ?k + 1" unfolding e by (intro binade_unique) simp_all
    have "?y * two_to (int p - binade ?y) = of_int (2 ^ p)"
      unfolding b by (simp add: e two_to_nat flip: two_to_add)
    then have "rnd p ?y = of_int (2 ^ p) * two_to (binade ?y - int p)"
      unfolding rnd_pos [OF y] by (simp only: round_even_int)
    also have "\<dots> = two_to (?k + 1)"
      unfolding b by (simp flip: two_to_int two_to_add)
    finally show ?thesis by (simp add: e)
  qed
qed (simp add: rnd_def)


lemma dbl_nonneg: "0 \<le> x \<Longrightarrow> 0 \<le> dbl x"
  and dbl_mono: "0 \<le> x \<Longrightarrow> x \<le> y \<Longrightarrow> dbl x \<le> dbl y"
  and dbl_idem: "0 \<le> x \<Longrightarrow> dbl (dbl x) = dbl x"
  by (simp_all add: dbl_def rnd_nonneg rnd_mono rnd_idem)

lemma dbl_zero [simp]: "dbl 0 = 0"
  by (simp add: dbl_def rnd_def)

section \<open>Sums of costs\<close>

text \<open>What the route computation needs of the addition: adding a cost does not make a sum smaller, and
  keeps the order of two sums.\<close>

locale cost_sum =
  fixes add :: "double \<Rightarrow> double \<Rightarrow> double" and fine :: "double \<Rightarrow> bool"
  assumes fine_add: "fine a \<Longrightarrow> 0 \<le> w \<Longrightarrow> fine (add a w)"
    and add_grows: "fine a \<Longrightarrow> 0 \<le> w \<Longrightarrow> a \<le> add a w"
    and add_mono: "fine a \<Longrightarrow> a \<le> b \<Longrightarrow> 0 \<le> w \<Longrightarrow> add a w \<le> add b w"
begin

lemma sum_fine: "fine a \<Longrightarrow> (\<And>w. w \<in> set ws \<Longrightarrow> 0 \<le> w) \<Longrightarrow> fine (foldl add a ws)"
  by (induction ws arbitrary: a) (simp_all add: fine_add)

lemma sum_grows: "fine a \<Longrightarrow> (\<And>w. w \<in> set ws \<Longrightarrow> 0 \<le> w) \<Longrightarrow> a \<le> foldl add a ws"
proof (induction ws arbitrary: a)
  case (Cons w ws)
  then have "add a w \<le> foldl add (add a w) ws" by (simp add: fine_add)
  with Cons.prems add_grows [of a w] show ?case by simp
qed simp

lemma prefix_smaller:
  assumes "fine a" and "\<And>w. w \<in> set (ws @ vs) \<Longrightarrow> 0 \<le> w"
  shows "foldl add a ws \<le> foldl add a (ws @ vs)"
  using assms by (simp add: sum_grows sum_fine)

end

definition is_sum :: "double \<Rightarrow> bool" where
  "is_sum a \<longleftrightarrow> 0 \<le> a \<and> dbl a = a"

interpretation dsum: cost_sum dadd is_sum
proof
  fix a b w :: double
  assume a: "is_sum a" and w: "0 \<le> w"
  then show "is_sum (dadd a w)" by (simp add: is_sum_def dadd_def dbl_nonneg dbl_idem)
  show "a \<le> dadd a w" using dbl_mono [of a "a + w"] a w by (simp add: is_sum_def dadd_def)
  assume "a \<le> b"
  with a w show "dadd a w \<le> dadd b w" by (simp add: is_sum_def dadd_def dbl_mono)
qed

lemma is_sum_zero [simp]: "is_sum 0"
  by (simp add: is_sum_def)

end
