(* ===== verification/MeshGraph.thy ===== *)
theory MeshGraph
  imports MeshFloat "HOL-Library.Monad_Syntax"
begin

text \<open>
  \<^verbatim>\<open>scripts/map_command_and_control/setup/code/rpp.c\<close>, the program that computes the routes of the
  testbed from measured link costs: its graph (\<^verbatim>\<open>Graph\<close> and \<^verbatim>\<open>Link\<close> of \<^verbatim>\<open>rpp.h\<close>) with the operations on links and
  nodes, and Dijkstra's algorithm.

  An array of \<^verbatim>\<open>MAX_NODES\<close> is a function; an index outside it is checked where the code uses one that
  comes from its input, and the result is then \<open>None\<close>, as for a failed assertion. The array \<^verbatim>\<open>T\<close> is shorter. What \<^verbatim>\<open>malloc\<close> leaves in an
  array is whatever the record holds. The time stamps of links (\<^verbatim>\<open>get_time\<close> is constant), the fields
  \<^verbatim>\<open>tree\<close> and \<^verbatim>\<open>tcost\<close>, which nothing uses, and the debug output are left out. \<^verbatim>\<open>NUM_NODES\<close> is an argument.
\<close>

section \<open>Data\<close>

definition MAX_NODES :: int where "MAX_NODES = 100"

text \<open>The array \<^verbatim>\<open>T\<close> of doubles is allocated with the size of as many \<^verbatim>\<open>unsigned int\<close>s.\<close>

definition T_NODES :: int where "T_NODES = MAX_NODES * 4 div 8"

lemma T_NODES_eq: "T_NODES = 50"
  by (simp add: T_NODES_def MAX_NODES_def)

lemma T_NODES_le: "sz \<le> T_NODES \<Longrightarrow> sz \<le> MAX_NODES" "sz < T_NODES \<Longrightarrow> sz < MAX_NODES"
  by (auto simp: T_NODES_def MAX_NODES_def)

definition NIL :: int where "NIL = 10000"

definition INFLEN :: double where "INFLEN = 0x7fffffff"

definition CURRENT_TIME :: int where "CURRENT_TIME = 1"

record Link =
  ln_cost :: double
  ln_dst :: int
  outif :: int
  inif :: int
  ln_channel :: int
  ln_flow :: int

record Graph =
  lh :: "int \<Rightarrow> Link list"
  gw_flag :: "int \<Rightarrow> bool"
  lvalid :: "int \<Rightarrow> bool"
  dirty :: int
  dcost :: "int \<Rightarrow> double"
  nchild :: "int \<Rightarrow> int"
  Lsum :: "int \<Rightarrow> int"
  Tsum :: "int \<Rightarrow> double"
  parent :: "int \<Rightarrow> int"
  pi_outif :: "int \<Rightarrow> int"
  pi_inif :: "int \<Rightarrow> int"
  perm :: "int \<Rightarrow> bool"

definition in_range :: "int \<Rightarrow> bool" where
  "in_range i \<longleftrightarrow> 0 \<le> i \<and> i < MAX_NODES"

text \<open>The loop \<^verbatim>\<open>for(v = a; v <= b; v++)\<close> over array elements.\<close>

definition nodes_loop :: "int \<Rightarrow> int \<Rightarrow> (int \<Rightarrow> Graph \<Rightarrow> Graph) \<Rightarrow> Graph \<Rightarrow> Graph option" where
  "nodes_loop a b f g = (if a \<le> b \<longrightarrow> in_range a \<and> in_range b then Some (fold f [a..b] g) else None)"

definition init_graph :: "Graph \<Rightarrow> Graph" where
  "init_graph g = (fold (\<lambda>i g. g\<lparr>lh := (lh g)(i := []), gw_flag := (gw_flag g)(i := False),
     lvalid := (lvalid g)(i := False)\<rparr>) [0..MAX_NODES - 1] g)\<lparr>dirty := - 1\<rparr>"

section \<open>Links\<close>

definition init_link :: "int \<Rightarrow> double \<Rightarrow> int \<Rightarrow> int \<Rightarrow> int \<Rightarrow> Link" where
  "init_link dest cost fromif toif chan =
     \<lparr>ln_cost = cost, ln_dst = dest, outif = fromif, inif = toif, ln_channel = chan, ln_flow = 0\<rparr>"

definition is_link :: "int \<Rightarrow> int \<Rightarrow> int \<Rightarrow> Link \<Rightarrow> bool" where
  "is_link tom fromif toif l \<longleftrightarrow> ln_dst l = tom \<and> outif l = fromif \<and> inif l = toif"

text \<open>\<^verbatim>\<open>from > MAX_NODES\<close> lets \<^verbatim>\<open>MAX_NODES\<close> itself through.\<close>

definition find_link :: "int \<Rightarrow> int \<Rightarrow> int \<Rightarrow> int \<Rightarrow> Graph \<Rightarrow> Link option option" where
  "find_link src tom fromif toif g =
     (if src > MAX_NODES \<or> src < 0 then Some None
      else if \<not> in_range src then None
      else Some (List.find (is_link tom fromif toif) (lh g src)))"

text \<open>Changing the link \<open>find_link\<close> returned.\<close>

fun update_first :: "(Link \<Rightarrow> bool) \<Rightarrow> (Link \<Rightarrow> Link) \<Rightarrow> Link list \<Rightarrow> Link list" where
  "update_first P f [] = []"
| "update_first P f (l # ls) = (if P l then f l # ls else l # update_first P f ls)"

fun remove_first :: "(Link \<Rightarrow> bool) \<Rightarrow> Link list \<Rightarrow> Link list" where
  "remove_first P [] = []"
| "remove_first P (l # ls) = (if P l then ls else l # remove_first P ls)"

definition add_link :: "int \<Rightarrow> int \<Rightarrow> double \<Rightarrow> Graph \<Rightarrow> int \<Rightarrow> int \<Rightarrow> int \<Rightarrow> (int \<times> Graph) option" where
  "add_link src to cost g fromif toif chan =
     (if in_range src \<and> in_range to then do {
        let g1 = g\<lparr>lvalid := (lvalid g)(src := True, to := True)\<rparr>;
        found \<leftarrow> find_link src to fromif toif g1;
        (case found of
           None \<Rightarrow> Some (1, g1\<lparr>lh := (lh g1)(src := init_link to cost fromif toif chan # lh g1 src),
             dirty := CURRENT_TIME\<rparr>)
         | Some l \<Rightarrow> Some (0, g1\<lparr>lh := (lh g1)(src := update_first (is_link to fromif toif)
             (\<lambda>l. l\<lparr>ln_cost := cost, ln_channel := chan\<rparr>) (lh g1 src)), dirty := CURRENT_TIME\<rparr>))
      }
      else None)"

definition del_link :: "int \<Rightarrow> int \<Rightarrow> int \<Rightarrow> int \<Rightarrow> Graph \<Rightarrow> (int \<times> Graph) option" where
  "del_link src tom fromif toif g = do {
     found \<leftarrow> find_link src tom fromif toif g;
     (case found of
        None \<Rightarrow> Some (0, g)
      | Some l \<Rightarrow> Some (1, g\<lparr>lh := (lh g)(src := remove_first (is_link tom fromif toif) (lh g src)),
          dirty := CURRENT_TIME\<rparr>))
   }"

section \<open>Nodes\<close>

definition del_vertex :: "int \<Rightarrow> int \<Rightarrow> Graph \<Rightarrow> Graph option" where
  "del_vertex num_nodes vertex g = nodes_loop 1 num_nodes (\<lambda>v g.
     if v = vertex then g\<lparr>lvalid := (lvalid g)(v := False), lh := (lh g)(v := [])\<rparr>
     else g\<lparr>lh := (lh g)(v := filter (\<lambda>l. ln_dst l \<noteq> vertex) (lh g v))\<rparr>) g"

text \<open>The second loop ends before \<^verbatim>\<open>NUM_NODES\<close>.\<close>

definition reset_graph :: "int \<Rightarrow> Graph \<Rightarrow> Graph option" where
  "reset_graph num_nodes g = do {
     g1 \<leftarrow> nodes_loop 1 num_nodes (\<lambda>v g. g\<lparr>lh := (lh g)(v := [])\<rparr>) g;
     if T_NODES < num_nodes then None
     else nodes_loop 1 (num_nodes - 1) (\<lambda>v g. g\<lparr>dcost := (dcost g)(v := INFLEN), parent := (parent g)(v := NIL),
       nchild := (nchild g)(v := 0), Lsum := (Lsum g)(v := 0), Tsum := (Tsum g)(v := 0),
       pi_outif := (pi_outif g)(v := NIL), pi_inif := (pi_inif g)(v := NIL),
       perm := (perm g)(v := False), gw_flag := (gw_flag g)(v := False),
       lvalid := (lvalid g)(v := False)\<rparr>) g1
   }"

fun copy_links :: "int \<Rightarrow> Link list \<Rightarrow> Graph \<Rightarrow> Graph option" where
  "copy_links v [] dst = Some dst"
| "copy_links v (l # ls) dst = do {
     (rc, dst1) \<leftarrow> add_link v (ln_dst l) (ln_cost l) dst 0 0 0;
     copy_links v ls dst1
   }"

text \<open>The loop over the nodes; the links are those of the source graph.\<close>

fun copy_nodes :: "Graph \<Rightarrow> int list \<Rightarrow> Graph \<Rightarrow> Graph option" where
  "copy_nodes src [] dst = Some dst"
| "copy_nodes src (v # vs) dst = do {
     dst1 \<leftarrow> copy_links v (lh src v) dst;
     copy_nodes src vs (dst1\<lparr>dcost := (dcost dst1)(v := dcost src v), parent := (parent dst1)(v := parent src v),
       nchild := (nchild dst1)(v := nchild src v), Lsum := (Lsum dst1)(v := Lsum src v),
       Tsum := (Tsum dst1)(v := Tsum src v), pi_outif := (pi_outif dst1)(v := pi_outif src v),
       pi_inif := (pi_inif dst1)(v := pi_inif src v), perm := (perm dst1)(v := perm src v),
       gw_flag := (gw_flag dst1)(v := gw_flag src v), lvalid := (lvalid dst1)(v := lvalid src v)\<rparr>)
   }"

definition copy_graph :: "int \<Rightarrow> Graph \<Rightarrow> Graph \<Rightarrow> Graph option" where
  "copy_graph num_nodes src dst =
     (if num_nodes < T_NODES then copy_nodes src [1..num_nodes] dst else None)"

section \<open>Shortest paths\<close>

definition init_single_source :: "int \<Rightarrow> Graph \<Rightarrow> int \<Rightarrow> Graph option" where
  "init_single_source s g sz = (if T_NODES < sz then None else do {
     g1 \<leftarrow> nodes_loop 0 (sz - 1) (\<lambda>v g. g\<lparr>dcost := (dcost g)(v := INFLEN), parent := (parent g)(v := NIL),
       nchild := (nchild g)(v := 0), Lsum := (Lsum g)(v := 0), Tsum := (Tsum g)(v := 0),
       pi_outif := (pi_outif g)(v := NIL), pi_inif := (pi_inif g)(v := NIL),
       perm := (perm g)(v := False)\<rparr>) g;
     g2 \<leftarrow> nodes_loop 0 (sz - 1) (\<lambda>v g. g\<lparr>lh := (lh g)(v := map (\<lambda>l. l\<lparr>ln_flow := 0\<rparr>) (lh g v))\<rparr>) g1;
     if in_range s then Some (g2\<lparr>dcost := (dcost g2)(s := 0)\<rparr>) else None
   })"

definition relax :: "int \<Rightarrow> int \<Rightarrow> double \<Rightarrow> int \<Rightarrow> int \<Rightarrow> Graph \<Rightarrow> Graph option" where
  "relax u v w oif iif g =
     (if dcost g u < INFLEN then
        Some (if dcost g v > dadd (dcost g u) w
          then g\<lparr>dcost := (dcost g)(v := dadd (dcost g u) w), parent := (parent g)(v := u),
            pi_outif := (pi_outif g)(v := oif), pi_inif := (pi_inif g)(v := iif)\<rparr>
          else g)
      else None)"

definition extract_min_q :: "Graph \<Rightarrow> int \<Rightarrow> int" where
  "extract_min_q g sz = fold (\<lambda>u min_u.
     if \<not> perm g u \<and> dcost g u < INFLEN \<and> (min_u = NIL \<or> dcost g u < dcost g min_u) then u else min_u)
     [0..sz - 1] NIL"

fun relax_links :: "int \<Rightarrow> Link list \<Rightarrow> Graph \<Rightarrow> Graph option" where
  "relax_links u [] g = Some g"
| "relax_links u (l # ls) g =
     (if \<not> in_range (ln_dst l) then None
      else if \<not> perm g (ln_dst l) then do {
        g1 \<leftarrow> relax u (ln_dst l) (ln_cost l) (outif l) (inif l) g;
        relax_links u ls g1
      }
      else relax_links u ls g)"

definition unsettled :: "Graph \<Rightarrow> int \<Rightarrow> nat" where
  "unsettled g sz = card ({0..<sz} - Collect (perm g))"

lemma relax_perm: "relax u v w i j g = Some g' \<Longrightarrow> perm g' = perm g"
  by (auto simp: relax_def split: if_splits)

lemma relax_links_perm: "relax_links u ls g = Some g' \<Longrightarrow> perm g' = perm g"
  by (induction ls arbitrary: g)
     (auto simp: bind_eq_Some_conv relax_perm split: if_splits)

lemma extract_fold:
  assumes "\<And>x. x \<in> set xs \<Longrightarrow> x \<noteq> NIL"
  shows "(let r = fold (\<lambda>u min_u. if P u \<and> (min_u = NIL \<or> f u < (f min_u :: double)) then u else min_u) xs a
    in (r = NIL \<longleftrightarrow> a = NIL \<and> (\<forall>x \<in> set xs. \<not> P x)) \<and>
       (r \<noteq> NIL \<longrightarrow> (r = a \<or> r \<in> set xs \<and> P r) \<and> (a \<noteq> NIL \<longrightarrow> f r \<le> f a) \<and> (\<forall>x \<in> set xs. P x \<longrightarrow> f r \<le> f x)))"
  using assms
proof (induction xs arbitrary: a)
  case (Cons x xs)
  let ?b = "if P x \<and> (a = NIL \<or> f x < f a) then x else a"
  note IH = Cons.IH [of ?b, OF Cons.prems]
  have "x \<noteq> NIL" by (simp add: Cons.prems)
  with IH show ?case by (cases "P x"; cases "a = NIL"; cases "f x < f a") (fastforce simp: Let_def)+
qed (auto simp: Let_def)

lemma extract_min:
  assumes "sz \<le> MAX_NODES"
  shows "extract_min_q g sz = NIL \<longleftrightarrow> (\<forall>u \<in> {0..<sz}. \<not> perm g u \<longrightarrow> INFLEN \<le> dcost g u)"
    and "extract_min_q g sz = u \<Longrightarrow> u \<noteq> NIL \<Longrightarrow> u \<in> {0..<sz} \<and> \<not> perm g u \<and> dcost g u < INFLEN \<and>
      (\<forall>v \<in> {0..<sz}. \<not> perm g v \<longrightarrow> dcost g u \<le> dcost g v)"
proof -
  have n: "x \<in> set [0..sz - 1] \<Longrightarrow> x \<noteq> NIL" for x using assms by (auto simp: NIL_def MAX_NODES_def)
  have e: "extract_min_q g sz = fold (\<lambda>u min_u.
      if (\<not> perm g u \<and> dcost g u < INFLEN) \<and> (min_u = NIL \<or> dcost g u < dcost g min_u) then u else min_u) [0..sz - 1] NIL"
    by (simp add: extract_min_q_def conj_assoc)
  have s: "set [0..sz - 1] = {0..<sz}" by auto
  note f = extract_fold [of "[0..sz - 1]" "\<lambda>u. \<not> perm g u \<and> dcost g u < INFLEN" "dcost g" NIL, OF n,
      folded e, unfolded s Let_def]
  from f show "extract_min_q g sz = NIL \<longleftrightarrow> (\<forall>u \<in> {0..<sz}. \<not> perm g u \<longrightarrow> INFLEN \<le> dcost g u)"
    by (auto simp: not_less)
  from f show "extract_min_q g sz = u \<Longrightarrow> u \<noteq> NIL \<Longrightarrow> u \<in> {0..<sz} \<and> \<not> perm g u \<and> dcost g u < INFLEN \<and>
      (\<forall>v \<in> {0..<sz}. \<not> perm g v \<longrightarrow> dcost g u \<le> dcost g v)"
    by (force simp: not_less)
qed

lemma round_settles:
  assumes "\<not> MAX_NODES < sz" and "extract_min_q g sz \<noteq> NIL" and "u = extract_min_q g sz"
    and "relax_links u (lh g u) (g\<lparr>perm := (perm g)(u := True)\<rparr>) = Some g1"
  shows "unsettled g1 sz < unsettled g sz"
proof -
  from extract_min(2) [of sz g u] assms(1-3) have "u \<in> {0..<sz}" "\<not> perm g u" by auto
  moreover from relax_links_perm [OF assms(4)] have "perm g1 = (perm g)(u := True)" by simp
  ultimately have "{0..<sz} - Collect (perm g1) \<subseteq> {0..<sz} - Collect (perm g)"
    "u \<in> {0..<sz} - Collect (perm g)" "u \<notin> {0..<sz} - Collect (perm g1)"
    by (auto split: if_splits)
  then have "{0..<sz} - Collect (perm g1) \<subset> {0..<sz} - Collect (perm g)" by blast
  then show ?thesis by (simp add: unsettled_def psubset_card_mono)
qed

text \<open>The loop of \<^verbatim>\<open>dijkstra\<close>: every round makes one more node permanent.\<close>

function dijkstra_loop :: "int \<Rightarrow> Graph \<Rightarrow> Graph option" where
  "dijkstra_loop sz g =
     (if MAX_NODES < sz then None
      else if extract_min_q g sz = NIL then Some g
      else do {
        let u = extract_min_q g sz;
        g1 \<leftarrow> relax_links u (lh g u) (g\<lparr>perm := (perm g)(u := True)\<rparr>);
        dijkstra_loop sz g1
      })"
  by pat_completeness auto
termination
  by (relation "measure (\<lambda>(sz, g). unsettled g sz)") (auto intro: round_settles)

declare dijkstra_loop.simps [simp del]

definition dijkstra :: "int \<Rightarrow> Graph \<Rightarrow> int \<Rightarrow> Graph option" where
  "dijkstra source g sz = do {
     g1 \<leftarrow> init_single_source source g sz;
     dijkstra_loop sz g1
   }"

end
