(* ===== verification/MeshDijkstra.thy ===== *)
theory MeshDijkstra
  imports MeshGraph
begin

text \<open>
  \<^verbatim>\<open>dijkstra\<close> of \<^verbatim>\<open>rpp.c\<close> is correct: the labels it leaves are the costs of best walks, where a walk's cost
  is the sum of doubles as the program adds them up, and the parents lead back to the source.
\<close>

section \<open>Walks\<close>

definition links_fine :: "int \<Rightarrow> Graph \<Rightarrow> bool" where
  "links_fine sz g \<longleftrightarrow> (\<forall>u \<in> {0..<sz}. \<forall>l \<in> set (lh g u). in_range (ln_dst l) \<and> 0 \<le> ln_cost l)"

inductive walk :: "Graph \<Rightarrow> int \<Rightarrow> int \<Rightarrow> int \<Rightarrow> double \<Rightarrow> bool" for g sz s where
  start: "walk g sz s s 0"
| link: "walk g sz s u c \<Longrightarrow> u \<in> {0..<sz} \<Longrightarrow> l \<in> set (lh g u) \<Longrightarrow>
    walk g sz s (ln_dst l) (dadd c (ln_cost l))"

text \<open>Following the parents of permanent nodes leads to the source.\<close>

inductive traced :: "Graph \<Rightarrow> int \<Rightarrow> int \<Rightarrow> int \<Rightarrow> bool" for g sz s where
  here: "traced g sz s s"
| up: "v \<in> {0..<sz} \<Longrightarrow> perm g v \<Longrightarrow> v \<noteq> s \<Longrightarrow> traced g sz s (parent g v) \<Longrightarrow> traced g sz s v"

lemma traced_cong:
  assumes "traced g sz s v"
    and "\<And>v. v \<in> {0..<sz} \<Longrightarrow> perm g v \<Longrightarrow> perm g' v \<and> parent g' v = parent g v"
  shows "traced g' sz s v"
  using assms(1) by induction (use assms(2) in \<open>auto intro: traced.intros\<close>)

lemma walk_fine: "links_fine sz g \<Longrightarrow> walk g sz s v c \<Longrightarrow> is_sum c"
  by (rotate_tac, induction rule: walk.induct) (auto simp: links_fine_def intro: dsum.fine_add)

section \<open>The invariant of the loop\<close>

definition by_link :: "int \<Rightarrow> Graph \<Rightarrow> int \<Rightarrow> bool" where
  "by_link sz g v \<longleftrightarrow> parent g v \<in> {0..<sz} \<and> perm g (parent g v) \<and>
     (\<exists>l \<in> set (lh g (parent g v)). is_link v (pi_outif g v) (pi_inif g v) l \<and>
        dcost g v = dadd (dcost g (parent g v)) (ln_cost l))"

text \<open>\<open>x\<close> is the node whose links are being relaxed, or no node.\<close>

definition dinv :: "int \<Rightarrow> int \<Rightarrow> int \<Rightarrow> Graph \<Rightarrow> bool" where
  "dinv sz s x g \<longleftrightarrow> links_fine sz g \<and> s \<in> {0..<sz} \<and> dcost g s = 0 \<and> parent g s = NIL \<and>
     (\<forall>v \<in> {0..<sz}. dcost g v < INFLEN \<longrightarrow> is_sum (dcost g v) \<and> (v \<noteq> s \<longrightarrow> by_link sz g v)) \<and>
     (\<forall>v \<in> {0..<sz}. dcost g v \<le> INFLEN) \<and>
     (\<forall>u \<in> {0..<sz}. perm g u \<longrightarrow> traced g sz s u \<and> dcost g u < INFLEN \<and>
        (\<forall>v \<in> {0..<sz}. \<not> perm g v \<longrightarrow> dcost g u \<le> dcost g v)) \<and>
     (\<forall>u \<in> {0..<sz}. perm g u \<longrightarrow> u \<noteq> x \<longrightarrow>
        (\<forall>l \<in> set (lh g u). ln_dst l \<in> {0..<sz} \<longrightarrow> dcost g (ln_dst l) \<le> dadd (dcost g u) (ln_cost l)))"

lemma dinv_start: "dinv sz s x g \<Longrightarrow> \<not> dcost g s < 0"
  by (simp add: dinv_def)

text \<open>One relaxation, of a link of the permanent node \<open>x\<close> to a node that is not permanent.\<close>

lemma relax_dinv:
  assumes inv: "dinv sz s x g" and x: "x \<in> {0..<sz}" "perm g x"
    and mx: "\<forall>u \<in> {0..<sz}. perm g u \<longrightarrow> dcost g u \<le> dcost g x"
    and l: "l \<in> set (lh g x)" and v: "\<not> perm g (ln_dst l)"
  shows "\<exists>g'. relax x (ln_dst l) (ln_cost l) (outif l) (inif l) g = Some g' \<and> dinv sz s x g' \<and>
    lh g' = lh g \<and> perm g' = perm g \<and> (\<forall>w. dcost g' w \<le> dcost g w) \<and>
    (\<forall>w. perm g w \<longrightarrow> dcost g' w = dcost g w) \<and> dcost g' (ln_dst l) \<le> dadd (dcost g x) (ln_cost l)"
proof -
  let ?v = "ln_dst l" and ?c = "dadd (dcost g x) (ln_cost l)"
  from inv x have dx: "dcost g x < INFLEN" "is_sum (dcost g x)" by (auto simp: dinv_def)
  from inv x l have w: "0 \<le> ln_cost l" by (auto simp: dinv_def links_fine_def)
  have grow: "dcost g x \<le> ?c" and fine: "is_sum ?c" using dsum.add_grows dsum.fine_add dx w by auto
  show ?thesis
  proof (cases "dcost g ?v > ?c")
    case False
    with inv dx show ?thesis by (auto simp: relax_def)
  next
    case True
    let ?g = "g\<lparr>dcost := (dcost g)(?v := ?c), parent := (parent g)(?v := x),
      pi_outif := (pi_outif g)(?v := outif l), pi_inif := (pi_inif g)(?v := inif l)\<rparr>"
    have r: "relax x ?v (ln_cost l) (outif l) (inif l) g = Some ?g"
      using True dx by (simp add: relax_def)
    have nx: "x \<noteq> ?v" using x v by auto
    have ns: "s \<noteq> ?v"
      using True inv grow dx by (auto simp: dinv_def is_sum_def)
    have tr: "traced ?g sz s u" if "traced g sz s u" for u
      by (rule traced_cong [OF that]) (use v in auto)
    have bl: "by_link sz ?g u" if "u \<noteq> ?v \<and> by_link sz g u \<or> u = ?v" for u
      using that x l v nx by (auto simp: by_link_def is_link_def)
    have "dinv sz s x ?g"
      unfolding dinv_def
    proof (intro conjI ballI impI)
      show "links_fine sz ?g" "s \<in> {0..<sz}" "dcost ?g s = 0" "parent ?g s = NIL"
        using inv ns by (auto simp: dinv_def links_fine_def)
      fix u assume u: "u \<in> {0..<sz}"
      show "dcost ?g u \<le> INFLEN"
      proof (cases "u = ?v")
        case t: True
        with inv u have "dcost g ?v \<le> INFLEN" by (simp add: dinv_def)
        with True t show ?thesis by simp
      qed (use inv u in \<open>simp add: dinv_def\<close>)
      show "is_sum (dcost ?g u)" if "dcost ?g u < INFLEN" using that inv u fine by (auto simp: dinv_def)
      show "by_link sz ?g u" if "dcost ?g u < INFLEN" "u \<noteq> s"
        using that inv u by (intro bl) (auto simp: dinv_def)
      assume p: "perm ?g u"
      then show "traced ?g sz s u" "dcost ?g u < INFLEN" using inv u v tr by (auto simp: dinv_def)
      show "dcost ?g u \<le> dcost ?g w" if "w \<in> {0..<sz}" "\<not> perm ?g w" for w
      proof (cases "w = ?v")
        case True
        have "dcost g u \<le> dcost g x" using mx u p by simp
        with True p v grow show ?thesis by auto
      next
        case False
        with inv u p v that show ?thesis by (auto simp: dinv_def)
      qed
      show "dcost ?g (ln_dst k) \<le> dadd (dcost ?g u) (ln_cost k)"
        if "u \<noteq> x" "k \<in> set (lh ?g u)" "ln_dst k \<in> {0..<sz}" for k
      proof -
        from inv u p that have "dcost g (ln_dst k) \<le> dadd (dcost g u) (ln_cost k)" by (auto simp: dinv_def)
        with True p v show ?thesis by auto
      qed
    qed
    with r True v show ?thesis by auto
  qed
qed


lemma relax_links_dinv:
  assumes "dinv sz s x g" and "x \<in> {0..<sz}" "perm g x"
    and "\<forall>u \<in> {0..<sz}. perm g u \<longrightarrow> dcost g u \<le> dcost g x" and "set ls \<subseteq> set (lh g x)"
  shows "\<exists>g'. relax_links x ls g = Some g' \<and> dinv sz s x g' \<and> lh g' = lh g \<and> perm g' = perm g \<and>
    (\<forall>w. dcost g' w \<le> dcost g w) \<and> (\<forall>w. perm g w \<longrightarrow> dcost g' w = dcost g w) \<and>
    (\<forall>l \<in> set ls. ln_dst l \<in> {0..<sz} \<longrightarrow> dcost g' (ln_dst l) \<le> dadd (dcost g x) (ln_cost l))"
  using assms
proof (induction ls arbitrary: g)
  case (Cons l ls)
  then have l: "l \<in> set (lh g x)" by simp
  with Cons.prems have r: "in_range (ln_dst l)" and w: "0 \<le> ln_cost l"
    by (auto simp: dinv_def links_fine_def)
  show ?case
  proof (cases "perm g (ln_dst l)")
    case True
    from Cons.IH [OF Cons.prems(1-4)] Cons.prems(5) obtain g' where
      g': "relax_links x ls g = Some g'" "dinv sz s x g'" "lh g' = lh g" "perm g' = perm g"
      "\<forall>w. dcost g' w \<le> dcost g w" "\<forall>w. perm g w \<longrightarrow> dcost g' w = dcost g w"
      "\<forall>l \<in> set ls. ln_dst l \<in> {0..<sz} \<longrightarrow> dcost g' (ln_dst l) \<le> dadd (dcost g x) (ln_cost l)" by auto
    have "dcost g' (ln_dst l) \<le> dadd (dcost g x) (ln_cost l)" if "ln_dst l \<in> {0..<sz}"
    proof -
      have "is_sum (dcost g x)" using Cons.prems(1-3) by (auto simp: dinv_def)
      then have "dcost g x \<le> dadd (dcost g x) (ln_cost l)" using w by (rule dsum.add_grows)
      moreover have "dcost g (ln_dst l) \<le> dcost g x" using Cons.prems(4) that True by blast
      ultimately show ?thesis using g'(6) True by auto
    qed
    with g' r True show ?thesis by auto
  next
    case False
    from relax_dinv [OF Cons.prems(1-4) l False] obtain g1 where
      g1: "relax x (ln_dst l) (ln_cost l) (outif l) (inif l) g = Some g1" "dinv sz s x g1"
      "lh g1 = lh g" "perm g1 = perm g" "\<forall>w. dcost g1 w \<le> dcost g w"
      "\<forall>w. perm g w \<longrightarrow> dcost g1 w = dcost g w" "dcost g1 (ln_dst l) \<le> dadd (dcost g x) (ln_cost l)" by auto
    have "\<exists>g'. relax_links x ls g1 = Some g' \<and> dinv sz s x g' \<and> lh g' = lh g1 \<and> perm g' = perm g1 \<and>
      (\<forall>w. dcost g' w \<le> dcost g1 w) \<and> (\<forall>w. perm g1 w \<longrightarrow> dcost g' w = dcost g1 w) \<and>
      (\<forall>l \<in> set ls. ln_dst l \<in> {0..<sz} \<longrightarrow> dcost g' (ln_dst l) \<le> dadd (dcost g1 x) (ln_cost l))"
      by (rule Cons.IH) (use g1 Cons.prems in auto)
    then obtain g' where
      g': "relax_links x ls g1 = Some g'" "dinv sz s x g'" "lh g' = lh g1" "perm g' = perm g1"
      "\<forall>w. dcost g' w \<le> dcost g1 w" "\<forall>w. perm g1 w \<longrightarrow> dcost g' w = dcost g1 w"
      "\<forall>l \<in> set ls. ln_dst l \<in> {0..<sz} \<longrightarrow> dcost g' (ln_dst l) \<le> dadd (dcost g1 x) (ln_cost l)" by auto
    have "dcost g' w \<le> dcost g w" for w using g'(5) g1(5) order_trans by blast
    moreover have "dcost g' (ln_dst l) \<le> dadd (dcost g x) (ln_cost l)" using g'(5) g1(7) order_trans by blast
    ultimately show ?thesis using g' g1 r False Cons.prems(3) by auto
  qed
qed auto

lemma dinv_done:
  assumes "dinv sz s u g"
    and "\<forall>l \<in> set (lh g u). ln_dst l \<in> {0..<sz} \<longrightarrow> dcost g (ln_dst l) \<le> dadd (dcost g u) (ln_cost l)"
  shows "dinv sz s x g"
proof -
  have "\<forall>w \<in> {0..<sz}. perm g w \<longrightarrow> w \<noteq> x \<longrightarrow> (\<forall>l \<in> set (lh g w). ln_dst l \<in> {0..<sz} \<longrightarrow>
      dcost g (ln_dst l) \<le> dadd (dcost g w) (ln_cost l))"
  proof (intro ballI impI)
    fix w l assume "w \<in> {0..<sz}" "perm g w" "l \<in> set (lh g w)" "ln_dst l \<in> {0..<sz}"
    with assms show "dcost g (ln_dst l) \<le> dadd (dcost g w) (ln_cost l)"
      unfolding dinv_def by (cases "w = u") blast+
  qed
  with assms(1) show ?thesis unfolding dinv_def by blast
qed

text \<open>A round of the loop.\<close>

lemma round_dinv:
  assumes inv: "dinv sz s (- 1) g" and sz: "sz \<le> MAX_NODES"
    and u: "extract_min_q g sz = u" "u \<noteq> NIL"
  shows "\<exists>g'. relax_links u (lh g u) (g\<lparr>perm := (perm g)(u := True)\<rparr>) = Some g' \<and> dinv sz s (- 1) g' \<and> lh g' = lh g"
proof -
  let ?g = "g\<lparr>perm := (perm g)(u := True)\<rparr>"
  from extract_min(2) [OF sz u] have m: "u \<in> {0..<sz}" "\<not> perm g u" "dcost g u < INFLEN"
    "\<forall>v \<in> {0..<sz}. \<not> perm g v \<longrightarrow> dcost g u \<le> dcost g v" by auto
  have tr: "traced ?g sz s v" if "traced g sz s v" for v
    by (rule traced_cong [OF that]) simp
  have tu: "traced ?g sz s u"
  proof (cases "u = s")
    case False
    with inv m have "by_link sz g u" by (auto simp: dinv_def)
    with inv have "traced g sz s (parent g u)" by (auto simp: dinv_def by_link_def)
    with tr have "traced ?g sz s (parent ?g u)" by simp
    with m(1) False show ?thesis by (rule_tac traced.up) simp_all
  qed (simp add: traced.here)
  have bl: "by_link sz ?g v" if "by_link sz g v" for v using that by (auto simp: by_link_def)
  have before: "dcost g v \<le> dcost g u" if "v \<in> {0..<sz}" "perm g v" for v
    using inv that m by (auto simp: dinv_def)
  have "dinv sz s u ?g"
    unfolding dinv_def
  proof (intro conjI ballI impI)
    show "links_fine sz ?g" "s \<in> {0..<sz}" "dcost ?g s = 0" "parent ?g s = NIL" using inv by (auto simp: dinv_def links_fine_def)
    fix v assume v: "v \<in> {0..<sz}"
    show "is_sum (dcost ?g v)" if "dcost ?g v < INFLEN" using that inv v by (auto simp: dinv_def)
    show "by_link sz ?g v" if "dcost ?g v < INFLEN" "v \<noteq> s" using that inv v by (intro bl) (auto simp: dinv_def)
    show "dcost ?g v \<le> INFLEN" using inv v by (auto simp: dinv_def)
    assume p: "perm ?g v"
    show "traced ?g sz s v" using p inv v tr tu by (cases "v = u") (auto simp: dinv_def)
    show "dcost ?g v < INFLEN" using p inv v m by (cases "v = u") (auto simp: dinv_def)
    show "dcost ?g v \<le> dcost ?g w" if "w \<in> {0..<sz}" "\<not> perm ?g w" for w
      using p inv v m that by (cases "v = u") (auto simp: dinv_def split: if_splits)
    show "dcost ?g (ln_dst k) \<le> dadd (dcost ?g v) (ln_cost k)"
      if "v \<noteq> u" "k \<in> set (lh ?g v)" "ln_dst k \<in> {0..<sz}" for k
      using p inv v that by (auto simp: dinv_def)
  qed
  moreover have "\<forall>v \<in> {0..<sz}. perm ?g v \<longrightarrow> dcost ?g v \<le> dcost ?g u" using before by auto
  ultimately obtain g' where g': "relax_links u (lh ?g u) ?g = Some g'" "dinv sz s u g'" "lh g' = lh ?g"
      "perm g' = perm ?g" "\<forall>w. perm ?g w \<longrightarrow> dcost g' w = dcost ?g w"
      "\<forall>l \<in> set (lh ?g u). ln_dst l \<in> {0..<sz} \<longrightarrow> dcost g' (ln_dst l) \<le> dadd (dcost ?g u) (ln_cost l)"
    using relax_links_dinv [of sz s u ?g "lh ?g u"] m(1) by auto
  have "dcost g' u = dcost ?g u" using g'(5) by simp
  with g'(3,6) have "\<forall>l \<in> set (lh g' u). ln_dst l \<in> {0..<sz} \<longrightarrow>
      dcost g' (ln_dst l) \<le> dadd (dcost g' u) (ln_cost l)" by simp
  with g'(2) have "dinv sz s (- 1) g'" by (rule dinv_done)
  with g' show ?thesis by auto
qed

lemma loop_dinv:
  assumes "sz \<le> MAX_NODES"
  shows "dinv sz s (- 1) g \<Longrightarrow> \<exists>g'. dijkstra_loop sz g = Some g' \<and> dinv sz s (- 1) g' \<and> lh g' = lh g \<and>
    (\<forall>u \<in> {0..<sz}. \<not> perm g' u \<longrightarrow> INFLEN \<le> dcost g' u)"
proof (induction "unsettled g sz" arbitrary: g rule: less_induct)
  case less
  show ?case
  proof (cases "extract_min_q g sz = NIL")
    case True
    with less.prems assms extract_min(1) [OF assms, of g] show ?thesis
      by (subst dijkstra_loop.simps) auto
  next
    case False
    define u where "u = extract_min_q g sz"
    from round_dinv [OF less.prems assms u_def [symmetric]] False obtain g1 where
      g1: "relax_links u (lh g u) (g\<lparr>perm := (perm g)(u := True)\<rparr>) = Some g1" "dinv sz s (- 1) g1" "lh g1 = lh g"
      by (auto simp: u_def)
    have "unsettled g1 sz < unsettled g sz" by (rule round_settles) (use g1 assms False u_def in auto)
    from less.hyps [OF this g1(2)] g1 assms False show ?thesis
      by (subst dijkstra_loop.simps) (auto simp: u_def Let_def)
  qed
qed


section \<open>From the start\<close>

lemma clear_labels:
  "fold (\<lambda>v g. g\<lparr>dcost := (dcost g)(v := INFLEN), parent := (parent g)(v := NIL),
       nchild := (nchild g)(v := 0), Lsum := (Lsum g)(v := 0), Tsum := (Tsum g)(v := 0),
       pi_outif := (pi_outif g)(v := NIL), pi_inif := (pi_inif g)(v := NIL),
       perm := (perm g)(v := False)\<rparr>) xs g =
   g\<lparr>dcost := (\<lambda>w. if w \<in> set xs then INFLEN else dcost g w),
     parent := (\<lambda>w. if w \<in> set xs then NIL else parent g w),
     nchild := (\<lambda>w. if w \<in> set xs then 0 else nchild g w),
     Lsum := (\<lambda>w. if w \<in> set xs then 0 else Lsum g w),
     Tsum := (\<lambda>w. if w \<in> set xs then 0 else Tsum g w),
     pi_outif := (\<lambda>w. if w \<in> set xs then NIL else pi_outif g w),
     pi_inif := (\<lambda>w. if w \<in> set xs then NIL else pi_inif g w),
     perm := (\<lambda>w. if w \<in> set xs then False else perm g w)\<rparr>"
  by (induction xs arbitrary: g) (auto simp: fun_eq_iff)

lemma clear_flows:
  "fold (\<lambda>v g. g\<lparr>lh := (lh g)(v := map (\<lambda>l. l\<lparr>ln_flow := 0\<rparr>) (lh g v))\<rparr>) xs g =
   g\<lparr>lh := (\<lambda>w. if w \<in> set xs then map (\<lambda>l. l\<lparr>ln_flow := 0\<rparr>) (lh g w) else lh g w)\<rparr>"
  by (induction xs arbitrary: g) (auto simp: fun_eq_iff)

text \<open>The links after \<^verbatim>\<open>init_single_source\<close>: their flows are 0.\<close>

definition no_flow :: "int \<Rightarrow> Graph \<Rightarrow> int \<Rightarrow> Link list" where
  "no_flow sz g w = (if w \<in> {0..<sz} then map (\<lambda>l. l\<lparr>ln_flow := 0\<rparr>) (lh g w) else lh g w)"

lemma init_single_source_fields:
  assumes "s \<in> {0..<sz}" and "sz \<le> T_NODES"
  shows "\<exists>g'. init_single_source s g sz = Some g' \<and> lh g' = no_flow sz g \<and>
    (\<forall>w \<in> {0..<sz}. dcost g' w = (if w = s then 0 else INFLEN) \<and> \<not> perm g' w \<and> parent g' w = NIL) \<and>
    lvalid g' = lvalid g \<and> gw_flag g' = gw_flag g \<and> dirty g' = dirty g"
  using assms T_NODES_le [of sz]
  by (auto simp: init_single_source_def nodes_loop_def clear_labels clear_flows in_range_def no_flow_def fun_eq_iff)

lemma links_fine_flow: "lh g' = no_flow sz g \<Longrightarrow> links_fine sz g' = links_fine sz g"
  by (auto simp: links_fine_def no_flow_def)

lemma walk_flow:
  assumes "lh g' = no_flow sz g"
  shows "walk g' sz s v c \<longleftrightarrow> walk g sz s v c"
proof
  assume "walk g' sz s v c"
  then show "walk g sz s v c"
  proof induction
    case (link u c l)
    with assms obtain k where "k \<in> set (lh g u)" "ln_dst k = ln_dst l" "ln_cost k = ln_cost l"
      by (auto simp: no_flow_def)
    with walk.link [OF link.IH link.hyps(2), of k] show ?case by simp
  qed (rule walk.start)
next
  assume "walk g sz s v c"
  then show "walk g' sz s v c"
  proof induction
    case (link u c l)
    with assms have "l\<lparr>ln_flow := 0\<rparr> \<in> set (lh g' u)" by (auto simp: no_flow_def)
    from walk.link [OF link.IH link.hyps(2) this] show ?case by simp
  qed (rule walk.start)
qed

lemma dijkstra_dinv:
  assumes "links_fine sz g" and "s \<in> {0..<sz}" and "sz \<le> T_NODES"
  shows "\<exists>g'. dijkstra s g sz = Some g' \<and> dinv sz s (- 1) g' \<and> lh g' = no_flow sz g \<and>
    (\<forall>u \<in> {0..<sz}. perm g' u = (dcost g' u < INFLEN))"
proof -
  from init_single_source_fields [OF assms(2,3), of g] obtain g1 where
    g1: "init_single_source s g sz = Some g1" "lh g1 = no_flow sz g"
      "\<forall>w \<in> {0..<sz}. dcost g1 w = (if w = s then 0 else INFLEN) \<and> \<not> perm g1 w \<and> parent g1 w = NIL" by auto
  have "dinv sz s (- 1) g1"
    using assms(1,2) g1(3) links_fine_flow [OF g1(2)] by (auto simp: dinv_def INFLEN_def)
  from loop_dinv [OF T_NODES_le(1) [OF assms(3)] this] obtain g' where
    g': "dijkstra_loop sz g1 = Some g'" "dinv sz s (- 1) g'" "lh g' = lh g1"
      "\<forall>u \<in> {0..<sz}. \<not> perm g' u \<longrightarrow> INFLEN \<le> dcost g' u" by blast
  moreover have "\<forall>u \<in> {0..<sz}. perm g' u = (dcost g' u < INFLEN)" using g'(2,4) by (auto simp: dinv_def)
  ultimately show ?thesis using g1 by (simp add: dijkstra_def)
qed

lemma relax_links_dirty: "relax_links u ls g = Some g' \<Longrightarrow> dirty g' = dirty g \<and> lvalid g' = lvalid g"
  by (induction ls arbitrary: g) (auto simp: bind_eq_Some_conv relax_def split: if_splits)

lemma loop_dirty: "dijkstra_loop sz g = Some g' \<Longrightarrow> dirty g' = dirty g \<and> lvalid g' = lvalid g"
proof (induction sz g rule: dijkstra_loop.induct)
  case (1 sz g)
  show ?case
  proof (cases "MAX_NODES < sz \<or> extract_min_q g sz = NIL")
    case True
    with 1(2) show ?thesis by (auto simp: dijkstra_loop.simps [of sz g] split: if_splits)
  next
    case False
    with 1(2) obtain g1 where "relax_links (extract_min_q g sz) (lh g (extract_min_q g sz))
        (g\<lparr>perm := (perm g)(extract_min_q g sz := True)\<rparr>) = Some g1" "dijkstra_loop sz g1 = Some g'"
      by (auto simp: dijkstra_loop.simps [of sz g] Let_def bind_eq_Some_conv)
    with 1(1) False relax_links_dirty show ?thesis by fastforce
  qed
qed

lemma traced_walk:
  assumes "dinv sz s x g" and "traced g sz s v"
  shows "walk g sz s v (dcost g v)"
  using assms(2)
proof induction
  case here
  with assms(1) show ?case using walk.start by (simp add: dinv_def)
next
  case (up v)
  with assms(1) have "by_link sz g v" by (auto simp: dinv_def)
  then obtain l where l: "parent g v \<in> {0..<sz}" "l \<in> set (lh g (parent g v))" "ln_dst l = v"
    "dcost g v = dadd (dcost g (parent g v)) (ln_cost l)" by (auto simp: by_link_def is_link_def)
  from walk.link [OF up.IH l(1,2)] l(3,4) show ?case by simp
qed

lemma walk_bounds_label:
  assumes "dinv sz s (- 1) g" and "\<forall>u \<in> {0..<sz}. perm g u = (dcost g u < INFLEN)"
  shows "walk g sz s v c \<Longrightarrow> v \<in> {0..<sz} \<Longrightarrow> c < INFLEN \<Longrightarrow> dcost g v \<le> c"
proof (induction rule: walk.induct)
  case start
  with assms(1) show ?case by (simp add: dinv_def)
next
  case (link u c l)
  from assms(1) have fine: "links_fine sz g" by (simp add: dinv_def)
  with link.hyps have w: "0 \<le> ln_cost l" by (auto simp: links_fine_def)
  have c: "is_sum c" using walk_fine [OF fine link.hyps(1)] .
  have "c \<le> dadd c (ln_cost l)" by (rule dsum.add_grows [OF c w])
  with link have u: "dcost g u \<le> c" "dcost g u < INFLEN" by auto
  with assms link.hyps have p: "perm g u" "is_sum (dcost g u)" by (auto simp: dinv_def)
  with assms(1) link have "dcost g (ln_dst l) \<le> dadd (dcost g u) (ln_cost l)"
    by (auto simp: dinv_def)
  also have "\<dots> \<le> dadd c (ln_cost l)" by (rule dsum.add_mono [OF p(2) u(1) w])
  finally show ?case .
qed

text \<open>C13. \<^verbatim>\<open>dijkstra\<close> with \<^verbatim>\<open>init_single_source\<close>, \<^verbatim>\<open>extract_min_q\<close> and \<^verbatim>\<open>relax\<close>: on a graph with non-negative
  link costs and at most \<open>T_NODES\<close> nodes it returns, and the label of a node is the cost of the cheapest walk to it from the source,
  added up in double arithmetic along the walk; a label of \<^verbatim>\<open>INFLEN\<close> means that no walk is cheaper than
  \<^verbatim>\<open>INFLEN\<close>.\<close>

theorem dijkstra_shortest:
  assumes "links_fine sz g" and "s \<in> {0..<sz}" and "sz \<le> T_NODES"
  shows "\<exists>g'. dijkstra s g sz = Some g' \<and> (\<forall>v \<in> {0..<sz}. dcost g' v \<le> INFLEN \<and>
    (dcost g' v < INFLEN \<longrightarrow> walk g sz s v (dcost g' v)) \<and>
    (\<forall>c. walk g sz s v c \<longrightarrow> dcost g' v \<le> c))"
proof -
  from dijkstra_dinv [OF assms] obtain g' where
    g': "dijkstra s g sz = Some g'" "dinv sz s (- 1) g'" "lh g' = no_flow sz g"
      "\<forall>u \<in> {0..<sz}. perm g' u = (dcost g' u < INFLEN)" by blast
  have "dcost g' v \<le> INFLEN \<and> (dcost g' v < INFLEN \<longrightarrow> walk g sz s v (dcost g' v)) \<and>
      (\<forall>c. walk g sz s v c \<longrightarrow> dcost g' v \<le> c)" if v: "v \<in> {0..<sz}" for v
  proof (intro conjI allI impI)
    show le: "dcost g' v \<le> INFLEN" using g'(2) v by (simp add: dinv_def)
    show "walk g sz s v (dcost g' v)" if "dcost g' v < INFLEN"
    proof -
      from that v g'(2,4) have "traced g' sz s v" by (auto simp: dinv_def)
      from traced_walk [OF g'(2) this] show ?thesis using walk_flow [OF g'(3)] by simp
    qed
    show "dcost g' v \<le> c" if "walk g sz s v c" for c
    proof (cases "c < INFLEN")
      case True
      with walk_bounds_label [OF g'(2,4) _ v] that walk_flow [OF g'(3)] show ?thesis by simp
    qed (use le in simp)
  qed
  with g'(1) show ?thesis by blast
qed

text \<open>A graph of three nodes.\<close>

definition sample_graph :: Graph where
  "sample_graph = \<lparr>lh = (\<lambda>u. if u = 1 then [init_link 2 1 0 0 0] else if u = 2 then [init_link 3 2 0 0 0] else []),
     gw_flag = (\<lambda>_. False), lvalid = (\<lambda>v. v \<in> {1, 2, 3}), dirty = CURRENT_TIME, dcost = (\<lambda>_. 0), nchild = (\<lambda>_. 0),
     Lsum = (\<lambda>_. 0), Tsum = (\<lambda>_. 0), parent = (\<lambda>_. 0), pi_outif = (\<lambda>_. 0), pi_inif = (\<lambda>_. 0), perm = (\<lambda>_. False)\<rparr>"

lemma sample_fine: "links_fine sz sample_graph" "dirty sample_graph = CURRENT_TIME"
  by (auto simp: links_fine_def sample_graph_def init_link_def in_range_def MAX_NODES_def)

theorem dijkstra_shortest_witness:
  "\<exists>g'. dijkstra 1 sample_graph 4 = Some g' \<and> dcost g' 3 \<le> INFLEN \<and>
    (\<forall>c. walk sample_graph 4 1 3 c \<longrightarrow> dcost g' 3 \<le> c)"
  using dijkstra_shortest [of 4 sample_graph 1] sample_fine by (force simp: T_NODES_eq)

end
