(* ===== verification/MeshRoute.thy ===== *)
theory MeshRoute
  imports MeshDijkstra
begin

text \<open>
  \<^verbatim>\<open>rpp.c\<close>: reading a route off the parents Dijkstra's algorithm leaves (\<^verbatim>\<open>get_route\<close>), the operations on
  routes, and the loops of \<^verbatim>\<open>main\<close> that print the routes from one node to the others. A route is an array
  of \<^verbatim>\<open>MAX_SR_LEN\<close> nodes, ended by \<^verbatim>\<open>ANY_DEST\<close>.
\<close>

section \<open>Definitions\<close>

definition MAX_SR_LEN :: nat where "MAX_SR_LEN = 25"

text \<open>\<^verbatim>\<open>0xffffffff\<close>, in an array of \<^verbatim>\<open>int\<close>.\<close>

definition ANY_DEST :: int where "ANY_DEST = - 1"

definition reset_route :: "int list" where
  "reset_route = replicate MAX_SR_LEN ANY_DEST"

text \<open>\<^verbatim>\<open>length\<close> and \<^verbatim>\<open>length_of_array\<close>; no route is \<open>None\<close>.\<close>

fun first_any :: "int list \<Rightarrow> int \<Rightarrow> int option" where
  "first_any [] i = None"
| "first_any (r # rs) i = (if r = ANY_DEST then Some i else first_any rs (i + 1))"

definition route_length :: "int list option \<Rightarrow> int" where
  "route_length route = (case route of None \<Rightarrow> - 1
   | Some r \<Rightarrow> (case first_any r 0 of None \<Rightarrow> - 1 | Some i \<Rightarrow> i - 1))"

definition length_of_array :: "int list option \<Rightarrow> int" where
  "length_of_array route = (case route of None \<Rightarrow> - 1
   | Some r \<Rightarrow> (case first_any r 0 of None \<Rightarrow> - 1 | Some i \<Rightarrow> i))"

text \<open>The loop that goes back from the destination: the nodes it stored in \<^verbatim>\<open>rpath\<close>, and the node it
  ended at. The argument is what is left of \<^verbatim>\<open>MAX_SR_LEN\<close>.\<close>

fun trace_back :: "Graph \<Rightarrow> int \<Rightarrow> int \<Rightarrow> nat \<Rightarrow> int \<Rightarrow> (int list \<times> int) option" where
  "trace_back g sz src n v =
     (if \<not> in_range v then None
      else if \<not> dcost g v < INFLEN then Some ([], v)
      else if \<not> (0 \<le> v \<and> v \<le> sz) then None
      else (case n of
          0 \<Rightarrow> Some ([], v)
        | Suc m \<Rightarrow> if v = src then Some ([v], v)
            else do { (p, w) \<leftarrow> trace_back g sz src m (parent g v); Some (v # p, w) }))"

declare trace_back.simps [simp del]

text \<open>The loop that builds the route from the source on; \<^verbatim>\<open>& 0xff\<close> is \<^verbatim>\<open>mod 256\<close>.\<close>

fun build_route :: "Graph \<Rightarrow> int \<Rightarrow> int list \<Rightarrow> int list option" where
  "build_route g prev [] = Some []"
| "build_route g prev (w # ws) = do {
     found \<leftarrow> find_link (prev mod 256) w (pi_outif g w) (pi_inif g w) g;
     l \<leftarrow> found;
     rest \<leftarrow> build_route g (ln_dst l) ws;
     Some (ln_dst l # rest)
   }"

definition get_route :: "int \<Rightarrow> int \<Rightarrow> Graph \<Rightarrow> int \<Rightarrow> (int list option \<times> Graph) option" where
  "get_route srcAddr destAddr g sz = do {
     g1 \<leftarrow> (if dirty g \<le> CURRENT_TIME then dijkstra srcAddr g sz else Some g);
     (rpath, v) \<leftarrow> trace_back g1 sz srcAddr MAX_SR_LEN destAddr;
     if length rpath < 2 \<or> dcost g1 v = INFLEN \<or> MAX_SR_LEN \<le> length rpath then Some (None, g1)
     else do {
       hops \<leftarrow> build_route g1 srcAddr (tl (rev rpath));
       Some (Some (srcAddr # hops @ replicate (MAX_SR_LEN - 1 - length hops) ANY_DEST), g1)
     }
   }"

text \<open>The \<^verbatim>\<open>do\<close> loop of \<^verbatim>\<open>main\<close> that prints the hops of a route. An index outside the array is \<open>None\<close>.\<close>

fun print_hops :: "int list \<Rightarrow> int \<Rightarrow> int list option" where
  "print_hops [] destination = None"
| "print_hops (next # rs) destination =
     (if next = destination then Some [next]
      else do { out \<leftarrow> print_hops rs destination; Some (next # out) })"

text \<open>What \<^verbatim>\<open>main\<close> prints: for each destination the nodes of its route, or that there is none. The nodes
  that are skipped are the list in the code.\<close>

definition skipped :: "int list" where
  "skipped = [6, 8, 9, 10, 11, 12, 17, 20, 21, 23, 24, 26, 31, 32, 33, 35, 36]"

fun print_routes :: "int \<Rightarrow> int list \<Rightarrow> Graph \<Rightarrow> ((int \<times> int list option) list \<times> Graph) option" where
  "print_routes num_nodes [] g = Some ([], g)"
| "print_routes num_nodes (i # is) g =
     (if i \<in> set skipped then print_routes num_nodes is g
      else do {
        (route, g1) \<leftarrow> get_route 11 i g (num_nodes + 1);
        line \<leftarrow> (case route of None \<Rightarrow> Some None
          | Some r \<Rightarrow> map_option (\<lambda>hops. Some (11 # hops)) (print_hops (tl r) i));
        (out, g2) \<leftarrow> print_routes num_nodes is g1;
        Some ((i, line) # out, g2)
      })"

section \<open>Routes\<close>

text \<open>The nodes of a walk and its cost.\<close>

inductive along :: "Graph \<Rightarrow> int \<Rightarrow> int \<Rightarrow> int list \<Rightarrow> double \<Rightarrow> bool" for g sz s where
  start: "along g sz s [s] 0"
| link: "along g sz s (hs @ [u]) c \<Longrightarrow> u \<in> {0..<sz} \<Longrightarrow> l \<in> set (lh g u) \<Longrightarrow>
    along g sz s (hs @ [u, ln_dst l]) (dadd c (ln_cost l))"

lemma along_nonempty: "along g sz s hs c \<Longrightarrow> hs \<noteq> [] \<and> hd hs = s"
  by (induction rule: along.induct) (auto simp: hd_append split: if_splits)

lemma along_walk: "along g sz s hs c \<Longrightarrow> walk g sz s (last hs) c"
  by (induction rule: along.induct) (auto intro: walk.intros)

text \<open>The chain of parents of a traced node, from the node to the source.\<close>

inductive chain :: "Graph \<Rightarrow> int \<Rightarrow> int \<Rightarrow> int \<Rightarrow> int list \<Rightarrow> bool" for g sz s where
  here: "chain g sz s s [s]"
| up: "v \<in> {0..<sz} \<Longrightarrow> v \<noteq> s \<Longrightarrow> perm g v \<Longrightarrow> chain g sz s (parent g v) p \<Longrightarrow> chain g sz s v (v # p)"

lemma traced_chain: "traced g sz s v \<Longrightarrow> \<exists>p. chain g sz s v p"
  by (induction rule: traced.induct) (blast intro: chain.intros)+

lemma chain_ends: "chain g sz s v p \<Longrightarrow> p \<noteq> [] \<and> hd p = v \<and> last p = s"
  by (induction rule: chain.induct) auto

lemma chain_unique: "chain g sz s v p \<Longrightarrow> chain g sz s v q \<Longrightarrow> p = q"
proof (induction arbitrary: q rule: chain.induct)
  case here
  then show ?case by (cases rule: chain.cases) auto
next
  case (up v p)
  from up.prems up.hyps(2) obtain r where "q = v # r" "chain g sz s (parent g v) r" by (auto elim: chain.cases)
  with up.IH show ?case by simp
qed

lemma chain_suffix: "chain g sz s v p \<Longrightarrow> w \<in> set p \<Longrightarrow> \<exists>q. chain g sz s w q \<and> length q \<le> length p"
proof (induction rule: chain.induct)
  case (up v p)
  show ?case
  proof (cases "w = v")
    case True
    with chain.up [OF up.hyps] show ?thesis by blast
  next
    case False
    with up.IH up.prems show ?thesis by (auto intro: le_SucI)
  qed
qed (auto intro: chain.intros)

lemma chain_distinct: "chain g sz s v p \<Longrightarrow> distinct p"
proof (induction rule: chain.induct)
  case (up v p)
  have "v \<notin> set p"
  proof
    assume "v \<in> set p"
    with chain_suffix [OF up.hyps(4)] obtain q where q: "chain g sz s v q" "length q \<le> length p" by blast
    from chain_unique [OF q(1) chain.up [OF up.hyps(1-4)]] q(2) show False by simp
  qed
  with up.IH show ?case by simp
qed simp

lemma chain_along:
  assumes "dinv sz s x g"
  shows "chain g sz s v p \<Longrightarrow> along g sz s (rev p) (dcost g v)"
proof (induction rule: chain.induct)
  case here
  with assms show ?case using along.start by (simp add: dinv_def)
next
  case (up v p)
  with assms have "by_link sz g v" by (auto simp: dinv_def)
  then obtain l where l: "parent g v \<in> {0..<sz}" "l \<in> set (lh g (parent g v))" "ln_dst l = v"
    "dcost g v = dadd (dcost g (parent g v)) (ln_cost l)" by (auto simp: by_link_def is_link_def)
  from chain_ends [OF up.hyps(4)] obtain q where "p = parent g v # q" by (cases p) auto
  with along.link [of g sz s "rev q" "parent g v" "dcost g (parent g v)" l] up.IH l show ?case by simp
qed

lemma trace_back_chain:
  assumes "dinv sz s x g" and "sz \<le> MAX_NODES"
  shows "chain g sz s v p \<Longrightarrow> \<exists>w. trace_back g sz s n v = Some (take n p, w) \<and> dcost g w < INFLEN"
proof (induction arbitrary: n rule: chain.induct)
  case here
  have "0 \<le> s" "s < sz" "dcost g s < INFLEN" using assms(1) by (auto simp: dinv_def INFLEN_def)
  with assms(2) show ?case by (cases n) (auto simp: trace_back.simps in_range_def)
next
  case (up v p)
  have "0 \<le> v" "v < sz" "dcost g v < INFLEN" using up.hyps assms(1) by (auto simp: dinv_def)
  with assms(2) up.IH up.hyps(2) show ?case
  proof (cases n)
    case (Suc m)
    from up.IH [of m] obtain w where "trace_back g sz s m (parent g v) = Some (take m p, w)" "dcost g w < INFLEN"
      by blast
    with Suc \<open>0 \<le> v\<close> \<open>v < sz\<close> \<open>dcost g v < INFLEN\<close> assms(2) up.hyps(2) show ?thesis
      by (subst trace_back.simps) (simp add: in_range_def)
  qed (subst trace_back.simps, auto simp: in_range_def)
qed

lemma build_chain:
  assumes "dinv sz s x g" and "sz \<le> MAX_NODES" and "chain g sz s v p"
  shows "build_route g s (tl (rev p) @ ws) = map_option (\<lambda>r. tl (rev p) @ r) (build_route g v ws)"
  using assms(3)
proof (induction arbitrary: ws rule: chain.induct)
  case here
  then show ?case by (simp add: option.map_ident)
next
  case (up v p)
  with assms(1) have "by_link sz g v" by (auto simp: dinv_def)
  then obtain l where l: "parent g v \<in> {0..<sz}" "l \<in> set (lh g (parent g v))"
    "is_link v (pi_outif g v) (pi_inif g v) l" by (auto simp: by_link_def)
  then have r: "in_range (parent g v)" "parent g v mod 256 = parent g v"
    using assms(2) by (auto simp: in_range_def MAX_NODES_def)
  obtain k where k: "List.find (is_link v (pi_outif g v) (pi_inif g v)) (lh g (parent g v)) = Some k"
    using l(2,3) by (cases "List.find (is_link v (pi_outif g v) (pi_inif g v)) (lh g (parent g v))")
      (auto simp: find_None_iff)
  then have "ln_dst k = v" by (auto simp: find_Some_iff is_link_def)
  then have b: "build_route g (parent g v) (v # ws) = map_option ((#) v) (build_route g v ws)" for ws
    using r k by (cases "build_route g v ws") (auto simp: find_link_def in_range_def)
  from chain_ends [OF up.hyps(4)] have "rev p \<noteq> []" by simp
  then have "tl (rev (v # p)) @ ws = tl (rev p) @ v # ws" by simp
  with up.IH [of "v # ws"] b [of ws] show ?case by (cases "build_route g v ws") simp_all
qed

lemma along_flow:
  assumes "along g' sz s hs c" and "lh g' = no_flow sz g"
  shows "along g sz s hs c"
  using assms(1)
proof induction
  case (link hs u c l)
  with assms(2) obtain k where "k \<in> set (lh g u)" "ln_dst k = ln_dst l" "ln_cost k = ln_cost l"
    by (auto simp: no_flow_def)
  with along.link [OF link.IH link.hyps(2), of k] show ?case by simp
qed (rule along.start)

text \<open>A cheapest walk without a repeated node, as the array \<open>get_route\<close> fills.\<close>

definition is_route :: "Graph \<Rightarrow> int \<Rightarrow> int \<Rightarrow> int \<Rightarrow> int list \<Rightarrow> bool" where
  "is_route g sz s t r \<longleftrightarrow> (\<exists>hops c. r = hops @ replicate (MAX_SR_LEN - length hops) ANY_DEST \<and>
     2 \<le> length hops \<and> length hops < MAX_SR_LEN \<and> last hops = t \<and> distinct hops \<and> along g sz s hops c \<and>
     (\<forall>c'. walk g sz s t c' \<longrightarrow> c \<le> c'))"

lemma get_route_spec:
  assumes "links_fine sz g" and "s \<in> {0..<sz}" and "t \<in> {0..<sz}" and "s \<noteq> t"
    and "sz \<le> T_NODES" and "dirty g \<le> CURRENT_TIME"
  shows "\<exists>route g1. get_route s t g sz = Some (route, g1) \<and>
    (case route of
       Some r \<Rightarrow> is_route g sz s t r
     | None \<Rightarrow> (\<forall>c. walk g sz s t c \<longrightarrow> INFLEN \<le> c) \<or>
         (\<exists>hops c. along g sz s hops c \<and> last hops = t \<and> MAX_SR_LEN \<le> length hops))"
proof -
  from dijkstra_dinv [OF assms(1,2,5)] obtain g1 where
    g1: "dijkstra s g sz = Some g1" "dinv sz s (- 1) g1" "lh g1 = no_flow sz g"
      "\<forall>u \<in> {0..<sz}. perm g1 u = (dcost g1 u < INFLEN)" by blast
  have bound: "dcost g1 t \<le> c" if "walk g sz s t c" "c < INFLEN" for c
    using walk_bounds_label [OF g1(2,4) _ assms(3)] that walk_flow [OF g1(3)] by simp
  note le = T_NODES_le(1) [OF assms(5)]
  have r: "in_range t" using assms(3) le by (simp add: in_range_def)
  show ?thesis
  proof (cases "dcost g1 t < INFLEN")
    case False
    then have "trace_back g1 sz s MAX_SR_LEN t = Some ([], t)" using r by (simp add: trace_back.simps)
    then have "get_route s t g sz = Some (None, g1)" using g1(1) assms(6) by (simp add: get_route_def)
    moreover have "\<forall>c. walk g sz s t c \<longrightarrow> INFLEN \<le> c" using bound False by (meson not_le order_trans)
    ultimately show ?thesis by simp
  next
    case True
    with g1 assms(3) have "traced g1 sz s t" by (auto simp: dinv_def)
    then obtain p where p: "chain g1 sz s t p" using traced_chain by blast
    have al: "along g sz s (rev p) (dcost g1 t)" by (rule along_flow [OF chain_along [OF g1(2) p] g1(3)])
    from chain_ends [OF p] have ends: "p \<noteq> []" "last (rev p) = t" "hd (rev p) = s"
      by (simp_all add: last_rev hd_rev)
    have long: "2 \<le> length p" using p assms(4) ends by (cases p; cases "tl p") (auto elim: chain.cases)
    from trace_back_chain [OF g1(2) le p, of MAX_SR_LEN] obtain w where
      w: "trace_back g1 sz s MAX_SR_LEN t = Some (take MAX_SR_LEN p, w)" "dcost g1 w < INFLEN" by blast
    show ?thesis
    proof (cases "MAX_SR_LEN \<le> length p")
      case True
      with w g1(1) assms(6) have "get_route s t g sz = Some (None, g1)"
        by (simp add: get_route_def MAX_SR_LEN_def)
      with al ends(2) True show ?thesis by auto
    next
      case False
      have "build_route g1 s (tl (rev p)) = Some (tl (rev p))"
        using build_chain [OF g1(2) le p, of "[]"] by simp
      then have "get_route s t g sz = Some (Some (s # tl (rev p) @ replicate (MAX_SR_LEN - 1 - length (tl (rev p))) ANY_DEST), g1)"
        using False long w g1(1) assms(6) by (simp add: get_route_def)
      moreover have "s # tl (rev p) = rev p" using ends by (cases "rev p") auto
      then have "s # tl (rev p) @ replicate (MAX_SR_LEN - 1 - length (tl (rev p))) ANY_DEST =
          rev p @ replicate (MAX_SR_LEN - length (rev p)) ANY_DEST"
        by (metis append_Cons diff_diff_left length_Cons plus_1_eq_Suc)
      moreover have "\<forall>c'. walk g sz s t c' \<longrightarrow> dcost g1 t \<le> c'"
        using bound True by (meson less_le_trans not_le order_less_imp_le)
      ultimately show ?thesis using al ends(2) long False chain_distinct [OF p]
        by (intro exI [of _ "Some _"] exI [of _ g1]) (auto simp: is_route_def intro!: exI [of _ "rev p"])
    qed
  qed
qed

lemma get_route_returns:
  assumes "links_fine sz g" and "s \<in> {0..<sz}" and "t \<in> {0..<sz}" and "s \<noteq> t"
    and "sz \<le> T_NODES" and "dirty g \<le> CURRENT_TIME"
  shows "\<exists>route g1. get_route s t g sz = Some (route, g1) \<and> (\<forall>r. route = Some r \<longrightarrow> is_route g sz s t r)"
proof -
  obtain route g1 where r: "get_route s t g sz = Some (route, g1)" and
    c: "case route of Some r \<Rightarrow> is_route g sz s t r
     | None \<Rightarrow> (\<forall>c. walk g sz s t c \<longrightarrow> INFLEN \<le> c) \<or>
         (\<exists>hops c. along g sz s hops c \<and> last hops = t \<and> MAX_SR_LEN \<le> length hops)"
    using get_route_spec [OF assms] by blast
  from c have "\<forall>r. route = Some r \<longrightarrow> is_route g sz s t r" by (cases route) simp_all
  with r show ?thesis by blast
qed



section \<open>Printing the routes\<close>

lemma print_hops_reaches:
  "t \<in> set rs \<Longrightarrow> print_hops rs t = Some (takeWhile (\<lambda>x. x \<noteq> t) rs @ [t])"
  by (induction rs) auto

lemma print_hops_all:
  assumes "hops = a # hs" and "hs \<noteq> []" and "distinct hops" and "last hops = t"
  shows "print_hops (hs @ fill) t = Some hs"
proof -
  from assms(2) obtain ys x where hs: "hs = ys @ [x]" using rev_exhaust by blast
  with assms have "x = t" "t \<notin> set ys" by auto
  then have "takeWhile (\<lambda>x. x \<noteq> t) (hs @ fill) = ys" using hs by (induction ys arbitrary: hs) auto
  with hs \<open>x = t\<close> print_hops_reaches [of t "hs @ fill"] show ?thesis by simp
qed

lemma walk_along: "walk g sz s v c \<Longrightarrow> \<exists>hs. along g sz s hs c \<and> last hs = v"
proof (induction rule: walk.induct)
  case start
  then show ?case using along.start by fastforce
next
  case (link u c l)
  then obtain hs where hs: "along g sz s hs c" "last hs = u" by blast
  with along_nonempty obtain ys where "hs = ys @ [u]" by (metis append_butlast_last_id)
  with along.link [of g sz s ys u c l] hs(1) link.hyps(2,3) show ?case by fastforce
qed

lemma get_route_keeps:
  assumes "get_route s t g sz = Some (route, g1)" and "links_fine sz g" and "s \<in> {0..<sz}"
    and "sz \<le> T_NODES" and "dirty g \<le> CURRENT_TIME"
  shows "links_fine sz g1" and "dirty g1 \<le> CURRENT_TIME" and "along g1 sz s hs c = along g sz s hs c"
proof -
  from assms(1,5) have d: "dijkstra s g sz = Some g1"
    by (auto simp: get_route_def bind_eq_Some_conv split: if_splits)
  from dijkstra_dinv [OF assms(2-4)] d have l: "lh g1 = no_flow sz g" by auto
  then show "links_fine sz g1" using links_fine_flow assms(2) by simp
  have "dirty g1 = dirty g"
    using d init_single_source_fields [OF assms(3,4), of g]
    by (auto simp: dijkstra_def bind_eq_Some_conv dest!: loop_dirty)
  then show "dirty g1 \<le> CURRENT_TIME" using assms(5) by simp
  have "along g1 sz s hs c" if "along g sz s hs c"
    using that
  proof induction
    case (link hs u c k)
    with l have "k\<lparr>ln_flow := 0\<rparr> \<in> set (lh g1 u)" by (auto simp: no_flow_def)
    from along.link [OF link.IH link.hyps(2) this] show ?case by simp
  qed (rule along.start)
  with along_flow [OF _ l] show "along g1 sz s hs c = along g sz s hs c" by blast
qed

text \<open>What a printed line means, over the walks \<open>A\<close>.\<close>

definition line_ok :: "(int list \<Rightarrow> double \<Rightarrow> bool) \<Rightarrow> int \<Rightarrow> int list option \<Rightarrow> bool" where
  "line_ok A i line = (case line of
       None \<Rightarrow> (\<forall>hs c. A hs c \<longrightarrow> last hs = i \<longrightarrow> INFLEN \<le> c) \<or> (\<exists>hs c. A hs c \<and> last hs = i \<and> MAX_SR_LEN \<le> length hs)
     | Some hops \<Rightarrow> last hops = i \<and> length hops < MAX_SR_LEN \<and>
         (\<exists>c. A hops c \<and> (\<forall>hs d. A hs d \<longrightarrow> last hs = i \<longrightarrow> c \<le> d)))"

lemma route_line:
  assumes "links_fine sz g" and "s \<in> {0..<sz}" and "t \<in> {0..<sz}" and "s \<noteq> t"
    and "sz \<le> T_NODES" and "dirty g \<le> CURRENT_TIME" and r: "get_route s t g sz = Some (route, g1)"
  shows "\<exists>line. (case route of None \<Rightarrow> Some None
      | Some r \<Rightarrow> map_option (\<lambda>hops. Some (s # hops)) (print_hops (tl r) t)) = Some line \<and>
    line_ok (along g sz s) t line"
proof -
  have spec: "case route of
       Some r \<Rightarrow> is_route g sz s t r
     | None \<Rightarrow> (\<forall>c. walk g sz s t c \<longrightarrow> INFLEN \<le> c) \<or>
         (\<exists>hops c. along g sz s hops c \<and> last hops = t \<and> MAX_SR_LEN \<le> length hops)"
    using get_route_spec [OF assms(1-6)] r by auto
  show ?thesis
  proof (cases route)
    case None
    with spec along_walk show ?thesis by (simp add: line_ok_def) blast
  next
    case (Some r)
    with spec obtain hops c where h: "r = hops @ replicate (MAX_SR_LEN - length hops) ANY_DEST"
      "2 \<le> length hops" "length hops < MAX_SR_LEN" "last hops = t" "distinct hops" "along g sz s hops c"
      "\<forall>c'. walk g sz s t c' \<longrightarrow> c \<le> c'" by (auto simp: is_route_def)
    with along_nonempty [OF h(6)] obtain hs where hs: "hops = s # hs" "hs \<noteq> []" by (cases hops; cases "tl hops") auto
    have "print_hops (tl r) t = Some hs" using print_hops_all [OF hs h(5,4)] h(1) hs by simp
    moreover have "line_ok (along g sz s) t (Some hops)"
    proof -
      have "c \<le> d" if "along g sz s hs d" "last hs = t" for hs d
        using h(7) along_walk [OF that(1)] that(2) by simp
      with h(3,4,6) show ?thesis by (auto simp: line_ok_def)
    qed
    ultimately show ?thesis using Some hs by simp
  qed
qed

lemma print_routes_lines:
  assumes "11 \<le> num_nodes" and "num_nodes + 1 \<le> T_NODES"
  shows "links_fine (num_nodes + 1) g \<Longrightarrow> dirty g \<le> CURRENT_TIME \<Longrightarrow> set is \<subseteq> {1..num_nodes} \<Longrightarrow>
    (\<And>hs c. along g (num_nodes + 1) 11 hs c = A hs c) \<Longrightarrow>
    \<exists>out g1. print_routes num_nodes is g = Some (out, g1) \<and>
      map fst out = filter (\<lambda>i. i \<notin> set skipped) is \<and> (\<forall>(i, line) \<in> set out. line_ok A i line)"
proof (induction "is" arbitrary: g)
  case (Cons i "is")
  show ?case
  proof (cases "i \<in> set skipped")
    case False
    then have i: "11 \<noteq> i" "i \<in> {0..<num_nodes + 1}" using Cons.prems(3) by (auto simp: skipped_def)
    have s: "11 \<in> {0..<num_nodes + 1}" using assms(1) by simp
    have A: "A = along g (num_nodes + 1) 11" using Cons.prems(4) by (simp add: fun_eq_iff)
    obtain route g1 where r: "get_route 11 i g (num_nodes + 1) = Some (route, g1)"
      using get_route_spec [OF Cons.prems(1) s i(2,1) assms(2) Cons.prems(2)] by blast
    note k = get_route_keeps [OF r Cons.prems(1) s assms(2) Cons.prems(2)]
    have "\<exists>out g2. print_routes num_nodes is g1 = Some (out, g2) \<and> map fst out = filter (\<lambda>i. i \<notin> set skipped) is \<and>
        (\<forall>(i, line) \<in> set out. line_ok A i line)"
      by (rule Cons.IH [OF k(1,2)]) (use Cons.prems(3) k(3) A in auto)
    with r route_line [OF Cons.prems(1) s i(2,1) assms(2) Cons.prems(2) r] False A show ?thesis by auto
  qed (use Cons in simp)
qed simp

end
