(* ===== verification/MeshFiles.thy ===== *)
theory MeshFiles
  imports MeshRoute
begin

text \<open>
  \<^verbatim>\<open>rpp.c\<close>: reading the link costs (\<^verbatim>\<open>read_metric_file\<close>), and \<^verbatim>\<open>main\<close> from the file to the printed routes.
  A file is the list of the lines \<^verbatim>\<open>fgets\<close> returns. \<^verbatim>\<open>strtok\<close>, \<^verbatim>\<open>atoi\<close> and \<^verbatim>\<open>atof\<close> are written out; \<^verbatim>\<open>atof\<close> for
  decimal numbers, without \<^verbatim>\<open>inf\<close>, \<^verbatim>\<open>nan\<close> and hexadecimal ones. The conflict and traffic files, which
  do not reach the routes, are not read here.
\<close>

section \<open>Tokens and numbers\<close>

text \<open>\<^verbatim>\<open>strtok(buf, delims)\<close> until it returns no token.\<close>

fun split_tokens :: "string \<Rightarrow> string \<Rightarrow> string \<Rightarrow> string list" where
  "split_tokens delims cur [] = (if cur = [] then [] else [rev cur])"
| "split_tokens delims cur (c # cs) =
     (if c \<in> set delims
      then (if cur = [] then split_tokens delims [] cs else rev cur # split_tokens delims [] cs)
      else split_tokens delims (c # cur) cs)"

text \<open>The array of 100 tokens of 100 bytes: one more token or a longer one is written outside it.\<close>

definition line_tokens :: "string \<Rightarrow> string \<Rightarrow> string list option" where
  "line_tokens delims line = (let ts = split_tokens delims [] line
     in if length ts \<le> 100 \<and> list_all (\<lambda>t. length t < 100) ts then Some ts else None)"

definition blanks :: string where "blanks = [CHR 0x09, CHR '' '']"

definition token_at :: "string list \<Rightarrow> nat \<Rightarrow> string" where
  "token_at ts i = (if i < length ts then ts ! i else [])"

definition is_digit :: "char \<Rightarrow> bool" where
  "is_digit c \<longleftrightarrow> 48 \<le> (of_char c :: nat) \<and> (of_char c :: nat) \<le> 57"

definition digits_value :: "string \<Rightarrow> nat" where
  "digits_value ds = foldl (\<lambda>n c. 10 * n + (of_char c - 48)) 0 ds"

definition is_space :: "char \<Rightarrow> bool" where
  "is_space c \<longleftrightarrow> c = CHR '' '' \<or> 9 \<le> (of_char c :: nat) \<and> (of_char c :: nat) \<le> 13"

text \<open>An optional sign.\<close>

fun signed :: "string \<Rightarrow> int \<times> string" where
  "signed (CHR ''-'' # cs) = (- 1, cs)"
| "signed (CHR ''+'' # cs) = (1, cs)"
| "signed cs = (1, cs)"

definition atoi :: "string \<Rightarrow> int" where
  "atoi s = (let (sg, cs) = signed (dropWhile is_space s) in sg * int (digits_value (takeWhile is_digit cs)))"

definition exponent_part :: "string \<Rightarrow> int" where
  "exponent_part cs = (case cs of
     [] \<Rightarrow> 0
   | c # ds \<Rightarrow> if c = CHR ''e'' \<or> c = CHR ''E''
       then (let (sg, es) = signed ds in sg * int (digits_value (takeWhile is_digit es))) else 0)"

definition atof :: "string \<Rightarrow> double" where
  "atof s = (let (sg, cs) = signed (dropWhile is_space s);
       whole = takeWhile is_digit cs; rest = dropWhile is_digit cs;
       (frac, rest2) = (case rest of
          CHR ''.'' # fs \<Rightarrow> (takeWhile is_digit fs, dropWhile is_digit fs)
        | _ \<Rightarrow> ([], rest));
       m = digits_value (whole @ frac)
     in if whole @ frac = [] then 0
        else dbl (of_int sg * of_nat m * 10 powi (exponent_part rest2 - int (length frac))))"

section \<open>The metric file\<close>

definition metric_line :: "string \<Rightarrow> Graph \<Rightarrow> Graph option" where
  "metric_line line g = do {
     ts \<leftarrow> line_tokens blanks line;
     if token_at ts 0 = ''GRAPHENTRY'' then do {
       (rc, g1) \<leftarrow> add_link (atoi (token_at ts 1)) (atoi (token_at ts 2)) (atof (token_at ts 3)) g 0 0 0;
       Some g1
     }
     else Some g
   }"

fun read_metric_file :: "string list \<Rightarrow> Graph \<Rightarrow> Graph option" where
  "read_metric_file [] g = Some g"
| "read_metric_file (line # lines) g = do { g1 \<leftarrow> metric_line line g; read_metric_file lines g1 }"

text \<open>\<^verbatim>\<open>main\<close> of \<^verbatim>\<open>rpp.c\<close> from the metric file to the routes; \<open>g0\<close> is what \<^verbatim>\<open>malloc\<close> returned.\<close>

definition print_all_routes :: "string list \<Rightarrow> int \<Rightarrow> Graph \<Rightarrow> ((int \<times> int list option) list \<times> Graph) option"
  where
  "print_all_routes metric num_nodes g0 = do {
     g \<leftarrow> read_metric_file metric (init_graph g0);
     print_routes num_nodes [1..num_nodes] g
   }"

section \<open>What a file says\<close>

text \<open>The entries of a file: from, to and cost of its \<^verbatim>\<open>GRAPHENTRY\<close> lines.\<close>

definition entry_of :: "string \<Rightarrow> (int \<times> int \<times> double) option" where
  "entry_of line = (let ts = split_tokens blanks [] line
     in if token_at ts 0 = ''GRAPHENTRY''
        then Some (atoi (token_at ts 1), atoi (token_at ts 2), atof (token_at ts 3)) else None)"

definition entries :: "string list \<Rightarrow> (int \<times> int \<times> double) list" where
  "entries lines = List.map_filter entry_of lines"

text \<open>The cost of the link the program finds.\<close>

definition link_cost :: "Graph \<Rightarrow> int \<Rightarrow> int \<Rightarrow> double option" where
  "link_cost g u v = map_option ln_cost (List.find (is_link v 0 0) (lh g u))"

definition entry_cost :: "(int \<times> int \<times> double) list \<Rightarrow> int \<Rightarrow> int \<Rightarrow> double option" where
  "entry_cost es u v = map_of (rev (map (\<lambda>(a, b, c). ((a, b), c)) es)) (u, v)"

lemma is_link_simps:
  "is_link b i j (l\<lparr>ln_cost := c, ln_channel := ch\<rparr>) = is_link b i j l"
  "is_link b i j l \<Longrightarrow> is_link v i j l = (v = b)"
  by (auto simp: is_link_def)

lemma find_update_first:
  "List.find (is_link v 0 0) (update_first (is_link b 0 0) (\<lambda>l. l\<lparr>ln_cost := c, ln_channel := ch\<rparr>) ls) =
     (if v = b then map_option (\<lambda>l. l\<lparr>ln_cost := c, ln_channel := ch\<rparr>) (List.find (is_link b 0 0) ls)
      else List.find (is_link v 0 0) ls)"
  by (induction ls) (auto simp: is_link_simps)

lemma update_first_set:
  "set (update_first P f ls) \<subseteq> set ls \<union> f ` set ls"
  by (induction ls) auto

lemma add_link_cost:
  assumes "in_range a" and "in_range b"
  shows "\<exists>rc g1. add_link a b c g 0 0 0 = Some (rc, g1) \<and> dirty g1 = CURRENT_TIME \<and>
    (\<forall>u v. link_cost g1 u v = (if (u, v) = (a, b) then Some c else link_cost g u v)) \<and>
    (links_fine sz g \<longrightarrow> 0 \<le> c \<longrightarrow> links_fine sz g1)"
proof -
  from assms have r: "\<not> a > MAX_NODES" "\<not> a < 0" by (auto simp: in_range_def)
  show ?thesis
  proof (cases "List.find (is_link b 0 0) (lh g a)")
    case None
    with assms r show ?thesis
      by (auto simp: add_link_def find_link_def link_cost_def init_link_def is_link_def links_fine_def)
  next
    case (Some l)
    let ?ls = "update_first (is_link b 0 0) (\<lambda>l. l\<lparr>ln_cost := c, ln_channel := 0\<rparr>) (lh g a)"
    let ?g = "g\<lparr>lvalid := (lvalid g)(a := True, b := True), lh := (lh g)(a := ?ls), dirty := CURRENT_TIME\<rparr>"
    have "add_link a b c g 0 0 0 = Some (0, ?g)" using assms r Some by (simp add: add_link_def find_link_def)
    moreover have "link_cost ?g u v = (if (u, v) = (a, b) then Some c else link_cost g u v)" for u v
      using Some by (auto simp: link_cost_def find_update_first)
    moreover have "links_fine sz ?g" if "links_fine sz g" "0 \<le> c"
      using that update_first_set [of "is_link b 0 0" "\<lambda>l. l\<lparr>ln_cost := c, ln_channel := 0\<rparr>" "lh g a"]
      by (fastforce simp: links_fine_def)
    ultimately show ?thesis by auto
  qed
qed

lemma read_metric_entries:
  assumes "list_all (\<lambda>line. line_tokens blanks line \<noteq> None) lines"
    and "\<forall>(a, b, c) \<in> set (entries lines). in_range a \<and> in_range b \<and> 0 \<le> c"
    and "links_fine sz g" and "dirty g \<le> CURRENT_TIME"
  shows "\<exists>g1. read_metric_file lines g = Some g1 \<and> links_fine sz g1 \<and> dirty g1 \<le> CURRENT_TIME \<and>
    (\<forall>u v. link_cost g1 u v = (case entry_cost (entries lines) u v of Some c \<Rightarrow> Some c | None \<Rightarrow> link_cost g u v))"
  using assms
proof (induction lines arbitrary: g)
  case (Cons line lines)
  then obtain ts where ts: "line_tokens blanks line = Some ts" "split_tokens blanks [] line = ts"
    by (auto simp: line_tokens_def Let_def split: if_splits)
  have tail: "list_all (\<lambda>line. line_tokens blanks line \<noteq> None) lines"
      "\<forall>(a, b, c) \<in> set (entries lines). in_range a \<and> in_range b \<and> 0 \<le> c"
    using Cons.prems(1,2) by (auto simp: entries_def List.map_filter_simps split: option.splits)
  show ?case
  proof (cases "token_at ts 0 = ''GRAPHENTRY''")
    case False
    then have "entries (line # lines) = entries lines"
      by (simp add: entries_def List.map_filter_simps entry_of_def ts Let_def)
    moreover have "metric_line line g = Some g" using False ts by (simp add: metric_line_def)
    ultimately show ?thesis using Cons.IH [OF tail Cons.prems(3,4)] by simp
  next
    case True
    let ?a = "atoi (token_at ts 1)" and ?b = "atoi (token_at ts 2)" and ?c = "atof (token_at ts 3)"
    from True have es: "entries (line # lines) = (?a, ?b, ?c) # entries lines"
      by (simp add: entries_def List.map_filter_simps entry_of_def ts Let_def)
    with Cons.prems(2) have r: "in_range ?a" "in_range ?b" "0 \<le> ?c" by auto
    from add_link_cost [OF r(1,2), of ?c g sz] r(3) Cons.prems(3) obtain rc g1 where
      g1: "add_link ?a ?b ?c g 0 0 0 = Some (rc, g1)" "dirty g1 = CURRENT_TIME" "links_fine sz g1"
        "\<forall>u v. link_cost g1 u v = (if (u, v) = (?a, ?b) then Some ?c else link_cost g u v)" by auto
    from Cons.IH [OF tail g1(3)] g1(2) obtain g2 where
      g2: "read_metric_file lines g1 = Some g2" "links_fine sz g2" "dirty g2 \<le> CURRENT_TIME"
        "\<forall>u v. link_cost g2 u v = (case entry_cost (entries lines) u v of Some c \<Rightarrow> Some c | None \<Rightarrow> link_cost g1 u v)"
      by auto
    have "entry_cost ((?a, ?b, ?c) # entries lines) u v =
        (case entry_cost (entries lines) u v of Some c \<Rightarrow> Some c | None \<Rightarrow> if (u, v) = (?a, ?b) then Some ?c else None)"
      for u v
      by (simp add: entry_cost_def map_add_def split: option.split)
    with g2 g1 ts True es show ?thesis by (auto simp: metric_line_def split: option.splits)
  qed
qed (simp add: entries_def List.map_filter_simps entry_cost_def)

lemma init_loop:
  "fold (\<lambda>i g. g\<lparr>lh := (lh g)(i := []), gw_flag := (gw_flag g)(i := False),
     lvalid := (lvalid g)(i := False)\<rparr>) xs g =
   g\<lparr>lh := (\<lambda>u. if u \<in> set xs then [] else lh g u),
     gw_flag := (\<lambda>u. if u \<in> set xs then False else gw_flag g u),
     lvalid := (\<lambda>u. if u \<in> set xs then False else lvalid g u)\<rparr>"
  by (induction xs arbitrary: g) (auto simp: fun_eq_iff)

lemma init_graph_empty:
  "in_range u \<Longrightarrow> lh (init_graph g) u = []" "dirty (init_graph g) = - 1"
  "sz \<le> MAX_NODES \<Longrightarrow> links_fine sz (init_graph g)"
  by (auto simp: init_graph_def init_loop in_range_def links_fine_def)

text \<open>Reading the metric file: when every node number in it is an index of the arrays, the graph has
  exactly the links of the file, each with the cost of its last entry.\<close>

theorem metric_file_links:
  assumes "list_all (\<lambda>line. line_tokens blanks line \<noteq> None) lines"
    and "\<forall>(a, b, c) \<in> set (entries lines). in_range a \<and> in_range b \<and> 0 \<le> c"
  shows "\<exists>g. read_metric_file lines (init_graph g0) = Some g \<and>
    (\<forall>u v. in_range u \<longrightarrow> link_cost g u v = entry_cost (entries lines) u v)"
proof -
  from read_metric_entries [OF assms init_graph_empty(3) [of 0 g0]] obtain g where
    g: "read_metric_file lines (init_graph g0) = Some g"
      "\<forall>u v. link_cost g u v = (case entry_cost (entries lines) u v of Some c \<Rightarrow> Some c
         | None \<Rightarrow> link_cost (init_graph g0) u v)"
    by (auto simp: init_graph_empty(2) CURRENT_TIME_def MAX_NODES_def)
  have "link_cost (init_graph g0) u v = None" if "in_range u" for u v
    using init_graph_empty(1) [OF that] by (simp add: link_cost_def)
  with g show ?thesis by (auto split: option.splits)
qed

section \<open>The printed routes\<close>

text \<open>A path along entries of the file, and its cost.\<close>

inductive file_path :: "(int \<times> int \<times> double) list \<Rightarrow> int \<Rightarrow> int list \<Rightarrow> double \<Rightarrow> bool" for es s where
  start: "file_path es s [s] 0"
| link: "file_path es s (hs @ [u]) c \<Longrightarrow> entry_cost es u v = Some w \<Longrightarrow> file_path es s (hs @ [u, v]) (dadd c w)"

text \<open>A node has one link to each destination, on interfaces 0.\<close>

definition single_links :: "Graph \<Rightarrow> bool" where
  "single_links g \<longleftrightarrow> (\<forall>u. in_range u \<longrightarrow> distinct (map ln_dst (lh g u)) \<and>
     (\<forall>l \<in> set (lh g u). outif l = 0 \<and> inif l = 0))"

lemma add_link_single:
  assumes "add_link a b c g 0 0 0 = Some (rc, g1)" and "single_links g"
  shows "single_links g1"
proof -
  let ?f = "\<lambda>l :: Link. l\<lparr>ln_cost := c, ln_channel := 0\<rparr>"
  from assms(1) have r: "in_range a" "in_range b" "\<not> a > MAX_NODES" "\<not> a < 0"
    by (auto simp: add_link_def in_range_def split: if_splits)
  with assms(2) have s: "distinct (map ln_dst (lh g a))" "\<forall>l \<in> set (lh g a). outif l = 0 \<and> inif l = 0"
    by (auto simp: single_links_def)
  show ?thesis
  proof (cases "List.find (is_link b 0 0) (lh g a)")
    case None
    with s(2) have "b \<notin> ln_dst ` set (lh g a)" by (auto simp: find_None_iff is_link_def)
    with None r s assms show ?thesis
      by (auto simp: add_link_def find_link_def single_links_def init_link_def split: if_splits)
  next
    case (Some l)
    have "map ln_dst (update_first P ?f ls) = map ln_dst ls" for P ls by (induction ls) simp_all
    moreover have "\<forall>l \<in> set (update_first (is_link b 0 0) ?f (lh g a)). outif l = 0 \<and> inif l = 0"
      using s(2) update_first_set [of "is_link b 0 0" ?f "lh g a"] by fastforce
    ultimately show ?thesis using Some r s assms
      by (auto simp: add_link_def find_link_def single_links_def split: if_splits)
  qed
qed

lemma read_metric_single: "read_metric_file lines g = Some g1 \<Longrightarrow> single_links g \<Longrightarrow> single_links g1"
proof (induction lines arbitrary: g)
  case (Cons line lines)
  then obtain g2 where "metric_line line g = Some g2" "read_metric_file lines g2 = Some g1"
    by (auto simp: bind_eq_Some_conv)
  moreover from this(1) Cons.prems(2) have "single_links g2"
    by (auto simp: metric_line_def bind_eq_Some_conv split: if_splits intro: add_link_single)
  ultimately show ?case using Cons.IH by blast
qed simp

lemma single_link_cost:
  assumes "single_links g" and "in_range u"
  shows "(\<exists>l \<in> set (lh g u). ln_dst l = v \<and> ln_cost l = w) \<longleftrightarrow> link_cost g u v = Some w"
proof -
  have "(\<exists>l \<in> set ls. ln_dst l = v \<and> ln_cost l = w) \<longleftrightarrow> map_option ln_cost (List.find (is_link v 0 0) ls) = Some w"
    if "distinct (map ln_dst ls)" "\<forall>l \<in> set ls. outif l = 0 \<and> inif l = 0" for ls
    using that
  proof (induction ls)
    case (Cons a ls)
    then have "is_link v 0 0 a \<longleftrightarrow> ln_dst a = v" by (auto simp: is_link_def)
    moreover have "\<forall>l \<in> set ls. ln_dst l \<noteq> v" if "ln_dst a = v"
      using that Cons.prems(1) by (metis distinct.simps(2) image_eqI list.set_map list.simps(9))
    ultimately show ?case using Cons by (cases "ln_dst a = v") simp_all
  qed simp
  with assms show ?thesis by (simp add: single_links_def link_cost_def)
qed

lemma file_paths:
  assumes "single_links g" and "\<And>u v. in_range u \<Longrightarrow> link_cost g u v = entry_cost es u v" and "sz \<le> MAX_NODES"
    and "\<And>u v w. entry_cost es u v = Some w \<Longrightarrow> u \<in> {0..<sz}"
  shows "along g sz s hs c \<longleftrightarrow> file_path es s hs c"
proof
  have r: "in_range u" if "u \<in> {0..<sz}" for u using that assms(3) by (auto simp: in_range_def)
  show "along g sz s hs c \<Longrightarrow> file_path es s hs c"
  proof (induction rule: along.induct)
    case (link hs u c l)
    then have "entry_cost es u (ln_dst l) = Some (ln_cost l)"
      using single_link_cost [OF assms(1) r] assms(2) [OF r] by metis
    then show ?case by (rule file_path.link [OF link.IH])
  qed (rule file_path.start)
  show "file_path es s hs c \<Longrightarrow> along g sz s hs c"
  proof (induction rule: file_path.induct)
    case (link hs u c v w)
    from assms(4) [OF link.hyps(2)] have u: "u \<in> {0..<sz}" .
    with link.hyps(2) obtain l where l: "l \<in> set (lh g u)" "ln_dst l = v" "ln_cost l = w"
      using single_link_cost [OF assms(1) r] assms(2) [OF r] by metis
    from along.link [OF link.IH u l(1)] l(2,3) show ?case by simp
  qed (rule along.start)
qed


text \<open>The node numbers of a file are used as they are: an entry for node 100 is written behind the array.\<close>

lemma metric_line_overflows:
  assumes "line_tokens blanks line = Some ts" and "token_at ts 0 = ''GRAPHENTRY''"
    and "\<not> in_range (atoi (token_at ts 1)) \<or> \<not> in_range (atoi (token_at ts 2))"
  shows "metric_line line g = None"
  using assms by (auto simp: metric_line_def add_link_def)

lemma find_link_overflows: "find_link MAX_NODES tom i j g = None"
  by (simp add: find_link_def in_range_def MAX_NODES_def)

text \<open>A file with one entry.\<close>

lemma sample_file:
  "list_all (\<lambda>line. line_tokens blanks line \<noteq> None) [''# costs'', ''GRAPHENTRY 11 2 1.5'']"
  "entries [''# costs'', ''GRAPHENTRY 11 2 1.5''] = [(11, 2, atof ''1.5'')]"
  "0 \<le> atof ''1.5''"
  subgoal by code_simp
  subgoal
    by (simp add: entries_def entry_of_def blanks_def List.map_filter_simps token_at_def atoi_def is_space_def is_digit_def
      digits_value_def)
  subgoal by (simp add: atof_def is_space_def is_digit_def Let_def digits_value_def dbl_nonneg)
  done

theorem metric_file_links_witness:
  "\<exists>g. read_metric_file [''# costs'', ''GRAPHENTRY 11 2 1.5''] (init_graph sample_graph) = Some g \<and>
    link_cost g 11 2 = Some (atof ''1.5'') \<and> link_cost g 2 11 = None"
  using metric_file_links [OF sample_file(1), of sample_graph] sample_file(2,3)
  by (force simp: in_range_def MAX_NODES_def entry_cost_def)


end
