(* ===== verification/MeshTree.thy ===== *)
theory MeshTree
  imports MeshRoute
begin

text \<open>
  \<^verbatim>\<open>swarm.c\<close> (and \<^verbatim>\<open>rpp.c\<close>, which has the same code): the tree of a gateway, made of the parents Dijkstra's
  algorithm leaves (\<^verbatim>\<open>make_tree_graph\<close>, \<^verbatim>\<open>disconnected\<close>, \<^verbatim>\<open>construct_tree\<close> with \<^verbatim>\<open>TREE_TYPE\<close> \<^verbatim>\<open>DIJKSTRA\<close>). The
  loop that climbs from a node to the gateway has no bound: not returning is \<open>None\<close>.
\<close>

section \<open>Definitions\<close>

partial_function (option) climb :: "Graph \<Rightarrow> Graph \<Rightarrow> int \<Rightarrow> int \<Rightarrow> int \<Rightarrow> Graph \<Rightarrow> Graph option" where
  "climb metric g gw sz v tree =
     (if \<not> in_range v then None
      else if \<not> dcost g v < INFLEN then Some tree
      else if \<not> (0 \<le> v \<and> v \<le> sz) then None
      else if v = gw then Some tree
      else do {
        found \<leftarrow> find_link (parent g v) v (pi_outif g v) (pi_inif g v) metric;
        l \<leftarrow> found;
        added \<leftarrow> add_link (parent g v) v (ln_cost l) tree (pi_outif g v) (pi_inif g v) (ln_channel l);
        climb metric g gw sz (parent g v) (snd added)
      })"

fun climb_all :: "Graph \<Rightarrow> int \<Rightarrow> int \<Rightarrow> int list \<Rightarrow> Graph \<Rightarrow> Graph \<Rightarrow> (Graph \<times> Graph) option" where
  "climb_all metric gw sz [] g tree = Some (g, tree)"
| "climb_all metric gw sz (i # is) g tree =
     (if i = gw then climb_all metric gw sz is (g\<lparr>dcost := (dcost g)(i := 0)\<rparr>) tree
      else do { tree1 \<leftarrow> climb metric g gw sz i tree; climb_all metric gw sz is g tree1 })"

definition make_tree_graph :: "int \<Rightarrow> Graph \<Rightarrow> Graph \<Rightarrow> int \<Rightarrow> int \<Rightarrow> Graph \<Rightarrow> (Graph \<times> Graph) option" where
  "make_tree_graph num_nodes metric g srcAddr sz tree = do {
     (g1, tree1) \<leftarrow> climb_all metric (srcAddr + 1) sz [1..num_nodes] g tree;
     tree2 \<leftarrow> nodes_loop 1 (sz - 1) (\<lambda>v t. t\<lparr>parent := (parent t)(v := parent g1 v),
       dcost := (dcost t)(v := dcost g1 v), pi_outif := (pi_outif t)(v := pi_outif g1 v),
       pi_inif := (pi_inif t)(v := pi_inif g1 v)\<rparr>) tree1;
     Some (g1, tree2)
   }"

definition disconnected :: "int \<Rightarrow> Graph \<Rightarrow> bool" where
  "disconnected num_nodes g \<longleftrightarrow> list_ex (\<lambda>v. lvalid g v \<and> dcost g v = INFLEN) [1..num_nodes]"

text \<open>The first component is whether a tree is returned (not \<^verbatim>\<open>NULL\<close>).\<close>

definition construct_tree :: "int \<Rightarrow> Graph \<Rightarrow> Graph \<Rightarrow> int \<Rightarrow> Graph \<Rightarrow> (bool \<times> Graph \<times> Graph) option" where
  "construct_tree num_nodes metric g gateway_id tree = do {
     tree1 \<leftarrow> reset_graph num_nodes tree;
     g1 \<leftarrow> dijkstra (gateway_id + 1) g (num_nodes + 1);
     if disconnected num_nodes g1 then Some (False, g1, tree1)
     else do {
       (g2, tree2) \<leftarrow> make_tree_graph num_nodes metric g1 gateway_id (num_nodes + 1) tree1;
       Some (True, g2, tree2)
     }
   }"

section \<open>The links of the tree\<close>

text \<open>The tree has the parent links of the nodes \<open>T\<close>, one for each, without load and with the costs that make
  up the labels; \<open>out\<close> is what lies behind the nodes.\<close>

definition parent_links :: "(int \<Rightarrow> Link list) \<Rightarrow> int \<Rightarrow> Graph \<Rightarrow> int set \<Rightarrow> Graph \<Rightarrow> bool" where
  "parent_links out sz g T tree \<longleftrightarrow> (\<forall>u. u \<notin> {0..<sz} \<longrightarrow> lh tree u = out u) \<and> (\<forall>u \<in> {0..<sz}. distinct (map ln_dst (lh tree u)) \<and>
     ln_dst ` set (lh tree u) = {v \<in> T. parent g v = u} \<and>
     (\<forall>l \<in> set (lh tree u). outif l = pi_outif g (ln_dst l) \<and> inif l = pi_inif g (ln_dst l) \<and>
        dcost g (ln_dst l) = dadd (dcost g u) (ln_cost l) \<and> ln_flow l = 0))"

text \<open>The link of the metric graph that is found for a link of the graph has its cost.\<close>

definition sublinks :: "int \<Rightarrow> Graph \<Rightarrow> Graph \<Rightarrow> bool" where
  "sublinks sz g metric \<longleftrightarrow> (\<forall>u \<in> {0..<sz}. \<forall>l \<in> set (lh g u).
     map_option ln_cost (List.find (is_link (ln_dst l) (outif l) (inif l)) (lh metric u)) = Some (ln_cost l))"

lemma sublink_found:
  assumes "sublinks sz g metric" and "u \<in> {0..<sz}" and "l \<in> set (lh g u)" and "is_link v i j l"
  shows "\<exists>k. List.find (is_link v i j) (lh metric u) = Some k \<and> ln_cost k = ln_cost l"
proof -
  from assms(1-3) have "map_option ln_cost (List.find (is_link (ln_dst l) (outif l) (inif l)) (lh metric u)) = Some (ln_cost l)"
    unfolding sublinks_def by blast
  with assms(4) show ?thesis by (auto simp: is_link_def)
qed

lemma update_first_dsts:
  "(\<And>l. ln_dst (f l) = ln_dst l) \<Longrightarrow> map ln_dst (update_first P f ls) = map ln_dst ls"
  by (induction ls) simp_all

lemma update_first_cases:
  "l \<in> set (update_first P f ls) \<Longrightarrow> l \<in> set ls \<or> (\<exists>k \<in> set ls. P k \<and> l = f k)"
  by (induction ls) (auto split: if_splits)

lemma add_parent_link:
  assumes "parent_links out sz g T tree" and "v \<in> {0..<sz}" and "parent g v \<in> {0..<sz}" and "sz \<le> MAX_NODES"
    and c: "dcost g v = dadd (dcost g (parent g v)) c"
  shows "\<exists>rc tree1. add_link (parent g v) v c tree (pi_outif g v) (pi_inif g v) ch = Some (rc, tree1) \<and>
    parent_links out sz g (insert v T) tree1"
proof -
  let ?u = "parent g v" and ?P = "is_link v (pi_outif g v) (pi_inif g v)"
  have r: "in_range ?u" "in_range v" "\<not> ?u > MAX_NODES" "\<not> ?u < 0" using assms(2-4) by (auto simp: in_range_def)
  from assms(1,3) have p: "distinct (map ln_dst (lh tree ?u))" "ln_dst ` set (lh tree ?u) = {w \<in> T. parent g w = ?u}"
    "\<forall>l \<in> set (lh tree ?u). outif l = pi_outif g (ln_dst l) \<and> inif l = pi_inif g (ln_dst l) \<and>
        dcost g (ln_dst l) = dadd (dcost g ?u) (ln_cost l) \<and> ln_flow l = 0"
    by (auto simp: parent_links_def)
  show ?thesis
  proof (cases "List.find ?P (lh tree ?u)")
    case None
    have n: "v \<notin> ln_dst ` set (lh tree ?u)"
      using None p(3) by (auto simp: find_None_iff is_link_def)
    let ?t = "tree\<lparr>lvalid := (lvalid tree)(?u := True, v := True),
      lh := (lh tree)(?u := init_link v c (pi_outif g v) (pi_inif g v) ch # lh tree ?u), dirty := CURRENT_TIME\<rparr>"
    have "add_link ?u v c tree (pi_outif g v) (pi_inif g v) ch = Some (1, ?t)"
      using r None by (simp add: add_link_def find_link_def)
    moreover have "parent_links out sz g (insert v T) ?t"
      unfolding parent_links_def
    proof (rule conjI; intro allI impI ballI)
      fix w assume "w \<notin> {0..<sz}"
      with assms(1,3) show "lh ?t w = out w" by (auto simp: parent_links_def)
    next
      fix w assume w: "w \<in> {0..<sz}"
      with assms(1) p n c show "distinct (map ln_dst (lh ?t w)) \<and> ln_dst ` set (lh ?t w) = {x \<in> insert v T. parent g x = w} \<and>
         (\<forall>l \<in> set (lh ?t w). outif l = pi_outif g (ln_dst l) \<and> inif l = pi_inif g (ln_dst l) \<and>
           dcost g (ln_dst l) = dadd (dcost g w) (ln_cost l) \<and> ln_flow l = 0)"
        by (cases "w = ?u") (auto simp: parent_links_def init_link_def)
    qed
    ultimately show ?thesis by blast
  next
    case (Some k)
    then have "k \<in> set (lh tree ?u)" "ln_dst k = v"
      by (auto simp: find_Some_iff is_link_def)
    with p(2) have "v \<in> T" by blast
    then have T: "insert v T = T" by blast
    let ?f = "\<lambda>l :: Link. l\<lparr>ln_cost := c, ln_channel := ch\<rparr>"
    let ?ls = "update_first ?P ?f (lh tree ?u)"
    let ?t = "tree\<lparr>lvalid := (lvalid tree)(?u := True, v := True), lh := (lh tree)(?u := ?ls), dirty := CURRENT_TIME\<rparr>"
    have d: "map ln_dst ?ls = map ln_dst (lh tree ?u)" by (rule update_first_dsts) simp
    then have s: "ln_dst ` set ?ls = ln_dst ` set (lh tree ?u)" by (metis list.set_map)
    have k: "outif l = pi_outif g (ln_dst l) \<and> inif l = pi_inif g (ln_dst l) \<and>
        dcost g (ln_dst l) = dadd (dcost g ?u) (ln_cost l) \<and> ln_flow l = 0" if "l \<in> set ?ls" for l
      using update_first_cases [OF that] p(3) c by (auto simp: is_link_def)
    have "add_link ?u v c tree (pi_outif g v) (pi_inif g v) ch = Some (0, ?t)"
      using r Some by (simp add: add_link_def find_link_def)
    moreover have "parent_links out sz g T ?t"
      unfolding parent_links_def
    proof (rule conjI; intro allI impI ballI)
      fix w assume "w \<notin> {0..<sz}"
      with assms(1,3) show "lh ?t w = out w" by (auto simp: parent_links_def)
    next
      fix w assume w: "w \<in> {0..<sz}"
      show "distinct (map ln_dst (lh ?t w)) \<and> ln_dst ` set (lh ?t w) = {x \<in> T. parent g x = w} \<and>
         (\<forall>l \<in> set (lh ?t w). outif l = pi_outif g (ln_dst l) \<and> inif l = pi_inif g (ln_dst l) \<and>
           dcost g (ln_dst l) = dadd (dcost g w) (ln_cost l) \<and> ln_flow l = 0)"
      proof (cases "w = ?u")
        case True
        with d s k p(1,2) show ?thesis by simp
      next
        case False
        with w assms(1) show ?thesis by (auto simp: parent_links_def)
      qed
    qed
    ultimately show ?thesis unfolding T by blast
  qed
qed

section \<open>Climbing\<close>

lemma climb_chain:
  assumes inv: "dinv sz gw x g" and sz: "sz \<le> MAX_NODES" and sub: "sublinks sz g metric"
  shows "chain g sz gw v p \<Longrightarrow> parent_links out sz g T tree \<Longrightarrow>
    \<exists>tree1. climb metric g gw sz v tree = Some tree1 \<and> parent_links out sz g (T \<union> (set p - {gw})) tree1"
proof (induction arbitrary: T tree rule: chain.induct)
  case here
  from inv have "dcost g gw < INFLEN" "gw \<in> {0..<sz}" by (auto simp: dinv_def INFLEN_def)
  with sz here show ?case by (subst climb.simps) (auto simp: in_range_def)
next
  case (up v p)
  from inv up.hyps have d: "dcost g v < INFLEN" and "by_link sz g v" by (auto simp: dinv_def)
  then obtain l where l: "parent g v \<in> {0..<sz}" "l \<in> set (lh g (parent g v))"
    "is_link v (pi_outif g v) (pi_inif g v) l" "dcost g v = dadd (dcost g (parent g v)) (ln_cost l)"
    by (auto simp: by_link_def)
  from sublink_found [OF sub l(1-3)] obtain k where
    k: "List.find (is_link v (pi_outif g v) (pi_inif g v)) (lh metric (parent g v)) = Some k" "ln_cost k = ln_cost l"
    by blast
  have r: "in_range v" "in_range (parent g v)" "\<not> parent g v > MAX_NODES" "\<not> parent g v < 0"
    using up.hyps(1) l(1) sz by (auto simp: in_range_def)
  from add_parent_link [OF up.prems up.hyps(1) l(1) sz, of "ln_cost k" "ln_channel k"] l(4) k(2) obtain rc tree1 where
    t: "add_link (parent g v) v (ln_cost k) tree (pi_outif g v) (pi_inif g v) (ln_channel k) = Some (rc, tree1)"
      "parent_links out sz g (insert v T) tree1" by auto
  from up.IH [OF t(2)] obtain tree2 where
    u: "climb metric g gw sz (parent g v) tree1 = Some tree2"
      "parent_links out sz g (insert v T \<union> (set p - {gw})) tree2" by blast
  have "insert v T \<union> (set p - {gw}) = T \<union> (set (v # p) - {gw})" using up.hyps(2) by auto
  with u d r k t up.hyps show ?case
    by (subst climb.simps) (simp add: find_link_def)
qed

text \<open>The nodes of chains are reached.\<close>

lemma chain_nodes:
  assumes "dinv sz gw x g"
  shows "chain g sz gw v p \<Longrightarrow> set p \<subseteq> {w \<in> {0..<sz}. dcost g w < INFLEN}"
proof (induction rule: chain.induct)
  case here
  with assms show ?case by (auto simp: dinv_def INFLEN_def)
next
  case (up v p)
  with assms show ?case by (auto simp: dinv_def)
qed

definition tree_nodes :: "int \<Rightarrow> int \<Rightarrow> Graph \<Rightarrow> int set \<Rightarrow> int set \<Rightarrow> bool" where
  "tree_nodes sz gw g I T \<longleftrightarrow> T \<subseteq> {v \<in> {0..<sz}. dcost g v < INFLEN \<and> v \<noteq> gw} \<and>
     (\<forall>i \<in> I. dcost g i < INFLEN \<longrightarrow> (\<exists>p. chain g sz gw i p \<and> set p - {gw} \<subseteq> T))"

lemma climb_all_links:
  assumes inv: "dinv sz gw (- 1) g" and sz: "sz \<le> MAX_NODES" and sub: "sublinks sz g metric"
    and perm: "\<forall>u \<in> {0..<sz}. perm g u = (dcost g u < INFLEN)"
  shows "set is \<subseteq> {0..<sz} \<Longrightarrow> parent_links out sz g T tree \<Longrightarrow> tree_nodes sz gw g I T \<Longrightarrow>
    \<exists>T1 tree1. climb_all metric gw sz is g tree = Some (g, tree1) \<and> parent_links out sz g T1 tree1 \<and>
      tree_nodes sz gw g (I \<union> set is) T1"
proof (induction "is" arbitrary: I T tree)
  case (Cons i "is")
  have gw: "dcost g gw = 0" "gw \<in> {0..<sz}" using inv by (auto simp: dinv_def)
  have step: "\<exists>T1 tree1. climb metric g gw sz i tree = Some tree1 \<and> parent_links out sz g T1 tree1 \<and>
      tree_nodes sz gw g (insert i I) T1"
  proof (cases "dcost g i < INFLEN")
    case True
    with Cons.prems(1) inv perm have "traced g sz gw i" by (auto simp: dinv_def)
    then obtain p where p: "chain g sz gw i p" using traced_chain by blast
    from climb_chain [OF inv sz sub p Cons.prems(2)] obtain tree1 where
      "climb metric g gw sz i tree = Some tree1" "parent_links out sz g (T \<union> (set p - {gw})) tree1" by blast
    moreover have "tree_nodes sz gw g (insert i I) (T \<union> (set p - {gw}))"
      using Cons.prems(3) p chain_nodes [OF inv p] unfolding tree_nodes_def by blast
    ultimately show ?thesis by blast
  next
    case False
    moreover have "in_range i" using Cons.prems(1) sz by (auto simp: in_range_def)
    ultimately have "climb metric g gw sz i tree = Some tree" by (subst climb.simps) simp
    with Cons.prems False show ?thesis by (auto simp: tree_nodes_def)
  qed
  show ?case
  proof (cases "i = gw")
    case True
    have "tree_nodes sz gw g (insert i I) T"
      using Cons.prems(3) True chain.here [of g sz gw] by (auto simp: tree_nodes_def intro!: exI [of _ "[gw]"])
    from Cons.IH [OF _ Cons.prems(2) this] Cons.prems(1) True gw(1) show ?thesis
      by (simp add: fun_upd_idem insert_commute)
  next
    case False
    from step obtain T1 tree1 where s: "climb metric g gw sz i tree = Some tree1" "parent_links out sz g T1 tree1"
      "tree_nodes sz gw g (insert i I) T1" by blast
    from Cons.IH [OF _ s(2,3)] Cons.prems(1) False s(1) show ?thesis by simp
  qed
qed auto

section \<open>The tree\<close>

text \<open>The number of links to a node.\<close>

definition in_degree :: "int \<Rightarrow> Graph \<Rightarrow> int \<Rightarrow> nat" where
  "in_degree sz g v = sum_list (map (\<lambda>u. length (filter (\<lambda>l. ln_dst l = v) (lh g u))) [0..sz - 1])"

lemma distinct_dsts:
  "distinct (map ln_dst ls) \<Longrightarrow> length (filter (\<lambda>l. ln_dst l = v) ls) = (if v \<in> ln_dst ` set ls then 1 else 0)"
  by (induction ls) (auto simp: filter_empty_conv)

lemma in_degree_parent_links:
  assumes "parent_links out sz g T tree" and "\<And>v. v \<in> T \<Longrightarrow> parent g v \<in> {0..<sz}"
  shows "in_degree sz tree v = (if v \<in> T then 1 else 0)"
proof -
  have s: "set [0..sz - 1] = {0..<sz}" by auto
  have "length (filter (\<lambda>l. ln_dst l = v) (lh tree u)) = (if u = parent g v then if v \<in> T then 1 else 0 else 0)"
    if u: "u \<in> {0..<sz}" for u
  proof -
    from assms(1) u have d: "distinct (map ln_dst (lh tree u))" "ln_dst ` set (lh tree u) = {w \<in> T. parent g w = u}"
      unfolding parent_links_def by blast+
    show ?thesis unfolding distinct_dsts [OF d(1)] d(2) by auto
  qed
  then have "in_degree sz tree v = (\<Sum>u \<in> {0..<sz}. if u = parent g v then if v \<in> T then 1 else 0 else 0)"
    by (simp add: in_degree_def sum_list_distinct_conv_sum_set s)
  also have "\<dots> = (if v \<in> T then 1 else 0)" using assms(2) by (simp add: sum.delta)
  finally show ?thesis .
qed

lemma tree_walk:
  assumes links: "parent_links out sz g T tree" and inv: "dinv sz gw x g"
  shows "chain g sz gw v p \<Longrightarrow> set p - {gw} \<subseteq> T \<Longrightarrow> walk tree sz gw v (dcost g v)"
proof (induction rule: chain.induct)
  case here
  from inv have "dcost g gw = 0" by (simp add: dinv_def)
  then show ?case using walk.start by simp
next
  case (up v p)
  with inv have u: "parent g v \<in> {0..<sz}" by (auto simp: dinv_def by_link_def)
  from up have "v \<in> T" by auto
  with links u have "v \<in> ln_dst ` set (lh tree (parent g v))" unfolding parent_links_def by blast
  then obtain l where l: "l \<in> set (lh tree (parent g v))" "ln_dst l = v" by blast
  with links u have "dcost g v = dadd (dcost g (parent g v)) (ln_cost l)" unfolding parent_links_def by blast
  have "set p - {gw} \<subseteq> T" using up.prems by auto
  from walk.link [OF up.IH [OF this] u l(1)] l(2) \<open>dcost g v = _\<close> show ?case by simp
qed

text \<open>A tree of cheapest walks from \<open>gw\<close>: one link to each other node that is reached, none to the rest.\<close>

definition shortest_tree :: "int \<Rightarrow> int \<Rightarrow> Graph \<Rightarrow> Graph \<Rightarrow> bool" where
  "shortest_tree sz gw g tree \<longleftrightarrow> (\<forall>v \<in> {1..<sz}.
     (if \<exists>c < INFLEN. walk g sz gw v c
      then (\<exists>c. walk tree sz gw v c \<and> (\<forall>d. walk g sz gw v d \<longrightarrow> c \<le> d)) \<and>
        in_degree sz tree v = (if v = gw then 0 else 1)
      else in_degree sz tree v = 0))"

lemma reset_links:
  "reset_graph n g = Some g' \<Longrightarrow> lh g' u = (if u \<in> {1..n} then [] else lh g u)"
proof -
  assume "reset_graph n g = Some g'"
  moreover have "lh (fold (\<lambda>v g. g\<lparr>lh := (lh g)(v := [])\<rparr>) xs g) = (\<lambda>u. if u \<in> set xs then [] else lh g u)" for xs and g :: Graph
    by (induction xs arbitrary: g) (auto simp: fun_eq_iff)
  moreover have "lh (fold (\<lambda>v g. g\<lparr>dcost := (dcost g)(v := INFLEN), parent := (parent g)(v := NIL),
       nchild := (nchild g)(v := 0), Lsum := (Lsum g)(v := 0), Tsum := (Tsum g)(v := 0),
       pi_outif := (pi_outif g)(v := NIL), pi_inif := (pi_inif g)(v := NIL),
       perm := (perm g)(v := False), gw_flag := (gw_flag g)(v := False),
       lvalid := (lvalid g)(v := False)\<rparr>) xs g) = lh g" for xs and g :: Graph
    by (induction xs arbitrary: g) auto
  ultimately show ?thesis by (auto simp: reset_graph_def nodes_loop_def split: if_splits)
qed

lemma copy_labels:
  "lh (fold (\<lambda>v t. t\<lparr>parent := (parent t)(v := parent g1 v), dcost := (dcost t)(v := dcost g1 v),
     pi_outif := (pi_outif t)(v := pi_outif g1 v), pi_inif := (pi_inif t)(v := pi_inif g1 v)\<rparr>) xs t) = lh t"
  "v \<in> set xs \<Longrightarrow> parent (fold (\<lambda>v t. t\<lparr>parent := (parent t)(v := parent g1 v), dcost := (dcost t)(v := dcost g1 v),
     pi_outif := (pi_outif t)(v := pi_outif g1 v), pi_inif := (pi_inif t)(v := pi_inif g1 v)\<rparr>) xs t) v = parent g1 v"
  subgoal by (induction xs arbitrary: t) auto
  subgoal by (induction xs arbitrary: t rule: rev_induct) auto
  done

lemma sublinks_flow: "lh g' = no_flow sz g \<Longrightarrow> sublinks sz g metric \<Longrightarrow> sublinks sz g' metric"
  by (auto simp: sublinks_def no_flow_def)

lemma same_links_walk:
  assumes "lh g' = lh g"
  shows "walk g' sz s v c = walk g sz s v c"
proof -
  have "walk g2 sz s v c" if "walk g1 sz s v c" "lh g2 = lh g1" for g1 g2
    using that by (induction rule: walk.induct) (auto intro: walk.intros)
  with assms show ?thesis by metis
qed

lemma make_tree:
  assumes inv: "dinv (num_nodes + 1) (gw + 1) (- 1) g" and sz: "num_nodes + 1 \<le> MAX_NODES"
    and sub: "sublinks (num_nodes + 1) g metric" and gw: "0 \<le> gw"  "gw < num_nodes"
    and perm: "\<forall>u \<in> {0..<num_nodes + 1}. perm g u = (dcost g u < INFLEN)"
    and empty: "\<And>u. u \<in> {0..<num_nodes + 1} \<Longrightarrow> lh tree u = []"
  shows "\<exists>tree1. make_tree_graph num_nodes metric g gw (num_nodes + 1) tree = Some (g, tree1) \<and>
    shortest_tree (num_nodes + 1) (gw + 1) g tree1 \<and> (\<forall>v \<in> {1..num_nodes}. parent tree1 v = parent g v) \<and>
    (\<exists>T. parent_links (lh tree) (num_nodes + 1) g T tree1 \<and> tree_nodes (num_nodes + 1) (gw + 1) g {1..num_nodes} T)"
proof -
  let ?sz = "num_nodes + 1" and ?gw = "gw + 1"
  have "parent_links (lh tree) ?sz g {} tree" "tree_nodes ?sz ?gw g {} {}"
    using empty by (auto simp: parent_links_def tree_nodes_def)
  from climb_all_links [OF inv sz sub perm _ this, of "[1..num_nodes]"] gw obtain T t where
    t: "climb_all metric ?gw ?sz [1..num_nodes] g tree = Some (g, t)" "parent_links (lh tree) ?sz g T t"
      "tree_nodes ?sz ?gw g {1..num_nodes} T" by (auto simp: atLeastatMost_subset_iff subset_eq)
  let ?t = "fold (\<lambda>v t. t\<lparr>parent := (parent t)(v := parent g v), dcost := (dcost t)(v := dcost g v),
     pi_outif := (pi_outif t)(v := pi_outif g v), pi_inif := (pi_inif t)(v := pi_inif g v)\<rparr>) [1..num_nodes] t"
  have lh: "lh ?t = lh t" by (rule copy_labels(1))
  have parts: "parent_links (lh tree) ?sz g T ?t" "tree_nodes ?sz ?gw g {1..num_nodes} T"
    using t(2,3) by (simp_all add: parent_links_def lh)
  have par_t: "\<forall>v \<in> {1..num_nodes}. parent ?t v = parent g v"
    using copy_labels(2) [of _ "[1..num_nodes]" g t] by auto
  have m: "make_tree_graph num_nodes metric g gw ?sz tree = Some (g, ?t)"
    using t(1) sz gw by (simp add: make_tree_graph_def nodes_loop_def in_range_def)
  have T: "v \<in> {0..<?sz}" "dcost g v < INFLEN" "v \<noteq> ?gw" if "v \<in> T" for v
    using t(3) that unfolding tree_nodes_def by blast+
  have par: "parent g v \<in> {0..<?sz}" if "v \<in> T" for v
    using T [OF that] inv by (auto simp: dinv_def by_link_def)
  have deg: "in_degree ?sz ?t v = (if v \<in> T then 1 else 0)" for v
    using in_degree_parent_links [OF t(2) par] by (simp add: in_degree_def lh)
  have label: "dcost g v \<le> c" if "walk g ?sz ?gw v c" "v \<in> {1..<?sz}" "dcost g v < INFLEN \<or> c < INFLEN" for v c
    using walk_bounds_label [OF inv perm that(1)] that by fastforce
  have sp: "shortest_tree ?sz ?gw g ?t"
    unfolding shortest_tree_def
  proof (intro ballI)
    fix v assume v: "v \<in> {1..<?sz}"
    show "if \<exists>c < INFLEN. walk g ?sz ?gw v c
      then (\<exists>c. walk ?t ?sz ?gw v c \<and> (\<forall>d. walk g ?sz ?gw v d \<longrightarrow> c \<le> d)) \<and>
        in_degree ?sz ?t v = (if v = ?gw then 0 else 1)
      else in_degree ?sz ?t v = 0"
    proof (cases "dcost g v < INFLEN")
      case True
      then obtain p where p: "chain g ?sz ?gw v p" "set p - {?gw} \<subseteq> T"
        using t(3) v unfolding tree_nodes_def by auto
      from tree_walk [OF t(2) inv p] have "walk ?t ?sz ?gw v (dcost g v)" by (simp add: same_links_walk [OF lh])
      moreover have "v \<in> T \<longleftrightarrow> v \<noteq> ?gw" using T p chain_ends [OF p(1)] by (cases p) auto
      moreover have "traced g ?sz ?gw v" using True v perm inv by (auto simp: dinv_def)
      then have "walk g ?sz ?gw v (dcost g v)" by (rule traced_walk [OF inv])
      ultimately show ?thesis using True label [OF _ v] deg by auto
    next
      case False
      then have "v \<notin> T" using T by blast
      with False label [OF _ v] deg show ?thesis by fastforce
    qed
  qed
  from parts par_t m sp show ?thesis by blast
qed

lemma shortest_tree_flow:
  assumes "lh g' = no_flow sz g"
  shows "shortest_tree sz gw g' tree = shortest_tree sz gw g tree"
  by (simp add: shortest_tree_def walk_flow [OF assms])

lemma construct_tree_parts:
  assumes fine: "links_fine (num_nodes + 1) g" and sub: "sublinks (num_nodes + 1) g metric"
    and gw: "0 \<le> gw" "gw < num_nodes" and sz: "num_nodes + 1 \<le> T_NODES" and t0: "lh tree 0 = []"
  shows "\<exists>g1 tree1 tree2 T. construct_tree num_nodes metric g gw tree =
      Some (if disconnected num_nodes g1 then (False, g1, tree1) else (True, g1, tree2)) \<and>
    dinv (num_nodes + 1) (gw + 1) (- 1) g1 \<and> lh g1 = no_flow (num_nodes + 1) g \<and> lvalid g1 = lvalid g \<and>
    (\<forall>u \<in> {0..<num_nodes + 1}. perm g1 u = (dcost g1 u < INFLEN)) \<and>
    shortest_tree (num_nodes + 1) (gw + 1) g tree2 \<and> (\<forall>v \<in> {1..num_nodes}. parent tree2 v = parent g1 v) \<and>
    parent_links (lh tree) (num_nodes + 1) g1 T tree2 \<and> tree_nodes (num_nodes + 1) (gw + 1) g1 {1..num_nodes} T"
proof -
  let ?sz = "num_nodes + 1" and ?gw = "gw + 1"
  have s: "?gw \<in> {0..<?sz}" using gw by simp
  from dijkstra_dinv [OF fine s sz] obtain g1 where
    g1: "dijkstra ?gw g ?sz = Some g1" "dinv ?sz ?gw (- 1) g1" "lh g1 = no_flow ?sz g"
      "\<forall>u \<in> {0..<?sz}. perm g1 u = (dcost g1 u < INFLEN)" by blast
  from init_single_source_fields [OF s sz, of g] g1(1) have valid: "lvalid g1 = lvalid g"
    by (auto simp: dijkstra_def bind_eq_Some_conv dest!: loop_dirty)
  have "\<exists>tree1. reset_graph num_nodes tree = Some tree1"
    using gw sz T_NODES_le(1) [OF sz] by (auto simp: reset_graph_def nodes_loop_def in_range_def)
  then obtain tree1 where tree1: "reset_graph num_nodes tree = Some tree1" by blast
  have empty: "lh tree1 u = []" if "u \<in> {0..<?sz}" for u
    using reset_links [OF tree1, of u] t0 that by (cases "u = 0") auto
  from make_tree [OF g1(2) T_NODES_le(1) [OF sz] sublinks_flow [OF g1(3) sub] gw g1(4) empty] obtain tree2 T where
    t2: "make_tree_graph num_nodes metric g1 gw ?sz tree1 = Some (g1, tree2)" "shortest_tree ?sz ?gw g1 tree2"
      "\<forall>v \<in> {1..num_nodes}. parent tree2 v = parent g1 v" "parent_links (lh tree1) ?sz g1 T tree2"
      "tree_nodes ?sz ?gw g1 {1..num_nodes} T" by blast
  have "parent_links (lh tree) ?sz g1 T tree2"
    using t2(4) reset_links [OF tree1] unfolding parent_links_def by auto
  moreover have "shortest_tree ?sz ?gw g tree2" using t2(2) shortest_tree_flow [OF g1(3)] by simp
  moreover have "construct_tree num_nodes metric g gw tree =
      Some (if disconnected num_nodes g1 then (False, g1, tree1) else (True, g1, tree2))"
    using tree1 g1(1) t2(1) by (simp add: construct_tree_def)
  ultimately show ?thesis using g1 valid t2 by blast
qed

lemma disconnected_reach:
  assumes "dinv (num_nodes + 1) s (- 1) g1" and "lh g1 = no_flow (num_nodes + 1) g" and "lvalid g1 = lvalid g"
    and "\<forall>u \<in> {0..<num_nodes + 1}. perm g1 u = (dcost g1 u < INFLEN)"
  shows "disconnected num_nodes g1 \<longleftrightarrow> \<not> (\<forall>v \<in> {1..num_nodes}. lvalid g v \<longrightarrow> (\<exists>c < INFLEN. walk g (num_nodes + 1) s v c))"
proof -
  let ?sz = "num_nodes + 1"
  have reach: "dcost g1 v < INFLEN \<longleftrightarrow> (\<exists>c < INFLEN. walk g ?sz s v c)" if v: "v \<in> {0..<?sz}" for v
  proof
    assume "dcost g1 v < INFLEN"
    moreover from this assms(1,4) v have "traced g1 ?sz s v" by (auto simp: dinv_def)
    then have "walk g1 ?sz s v (dcost g1 v)" by (rule traced_walk [OF assms(1)])
    ultimately show "\<exists>c < INFLEN. walk g ?sz s v c" using walk_flow [OF assms(2)] by blast
  next
    assume "\<exists>c < INFLEN. walk g ?sz s v c"
    with walk_bounds_label [OF assms(1,4) _ v] walk_flow [OF assms(2)] show "dcost g1 v < INFLEN"
      using order.strict_trans1 by blast
  qed
  have "dcost g1 v \<le> INFLEN" if "v \<in> {0..<?sz}" for v using assms(1) that by (simp add: dinv_def)
  then have "disconnected num_nodes g1 \<longleftrightarrow> \<not> (\<forall>v \<in> {1..num_nodes}. lvalid g v \<longrightarrow> dcost g1 v < INFLEN)"
    by (force simp: disconnected_def list_ex_iff assms(3) less_le)
  with reach show ?thesis by simp
qed

lemma construct_tree_spec:
  assumes "links_fine (num_nodes + 1) g" and "sublinks (num_nodes + 1) g metric"
    and "0 \<le> gw" and "gw < num_nodes" and "num_nodes + 1 \<le> T_NODES" and "lh tree 0 = []"
  shows "\<exists>ok g1 tree1. construct_tree num_nodes metric g gw tree = Some (ok, g1, tree1) \<and>
    (ok \<longleftrightarrow> (\<forall>v \<in> {1..num_nodes}. lvalid g v \<longrightarrow> (\<exists>c < INFLEN. walk g (num_nodes + 1) (gw + 1) v c))) \<and>
    (ok \<longrightarrow> shortest_tree (num_nodes + 1) (gw + 1) g tree1)"
proof -
  from construct_tree_parts [OF assms] obtain g1 tree1 tree2 where
    t: "construct_tree num_nodes metric g gw tree =
      Some (if disconnected num_nodes g1 then (False, g1, tree1) else (True, g1, tree2))"
      "dinv (num_nodes + 1) (gw + 1) (- 1) g1" "lh g1 = no_flow (num_nodes + 1) g" "lvalid g1 = lvalid g"
      "\<forall>u \<in> {0..<num_nodes + 1}. perm g1 u = (dcost g1 u < INFLEN)" "shortest_tree (num_nodes + 1) (gw + 1) g tree2"
    by blast
  from disconnected_reach [OF t(2-5)] t(1,6) show ?thesis by (cases "disconnected num_nodes g1") auto
qed


lemma sample_sublinks: "sublinks sz sample_graph sample_graph" "lh sample_graph 0 = []"
  by (auto simp: sublinks_def sample_graph_def init_link_def is_link_def)


end
