(* ===== verification/MeshConfig.thy ===== *)
theory MeshConfig
  imports MeshFiles MeshTree
begin

text \<open>
  \<^verbatim>\<open>swarm.c\<close>: a configuration assigns every node that is not a gateway to a gateway; the gateways are the last
  \<^verbatim>\<open>NUM_GATEWAYS\<close> nodes. \<^verbatim>\<open>construct_graph_for_a_subconfiguration\<close> cuts the graph down to the nodes of one
  gateway, and \<^verbatim>\<open>execute_configuration\<close> builds the tree of it. The array \<^verbatim>\<open>configs\<close> is a list of lists; an
  index outside it is \<open>None\<close>.
\<close>

section \<open>Definitions\<close>

definition config_value :: "int list list \<Rightarrow> int \<Rightarrow> int \<Rightarrow> int option" where
  "config_value configs c i =
     (if 0 \<le> c \<and> nat c < length configs \<and> 0 \<le> i \<and> nat i < length (configs ! nat c)
      then Some (configs ! nat c ! nat i) else None)"

text \<open>\<^verbatim>\<open>read_config_file\<close>: a line has the number of the configuration and a gateway index for each node.\<close>

definition set_config_value :: "int list list \<Rightarrow> int \<Rightarrow> int \<Rightarrow> int \<Rightarrow> int list list option" where
  "set_config_value configs c i x =
     (if config_value configs c i = None then None
      else Some (configs[nat c := (configs ! nat c)[nat i := x]]))"

fun config_line_values :: "string list \<Rightarrow> int \<Rightarrow> int list \<Rightarrow> int list list \<Rightarrow> int list list option" where
  "config_line_values ts c [] configs = Some configs"
| "config_line_values ts c (z # zs) configs = do {
     x \<leftarrow> (if z < 100 then Some (atoi (token_at ts (nat z))) else None);
     configs1 \<leftarrow> set_config_value configs c (z - 1) x;
     config_line_values ts c zs configs1
   }"

fun read_config_file :: "int \<Rightarrow> int \<Rightarrow> string list \<Rightarrow> int list list \<Rightarrow> int list list option" where
  "read_config_file num_nodes num_gateways [] configs = Some configs"
| "read_config_file num_nodes num_gateways (line # lines) configs = do {
     ts \<leftarrow> line_tokens blanks line;
     configs1 \<leftarrow> config_line_values ts (atoi (token_at ts 0)) [1..num_nodes - num_gateways] configs;
     read_config_file num_nodes num_gateways lines configs1
   }"

fun del_others :: "int \<Rightarrow> int list list \<Rightarrow> int \<Rightarrow> int \<Rightarrow> int list \<Rightarrow> int \<Rightarrow> Graph \<Rightarrow> (int \<times> Graph) option" where
  "del_others num_nodes configs c gwindex [] n sub = Some (n, sub)"
| "del_others num_nodes configs c gwindex (i # is) n sub = do {
     value \<leftarrow> config_value configs c i;
     if value \<noteq> gwindex then do {
       sub1 \<leftarrow> del_vertex num_nodes (i + 1) sub;
       del_others num_nodes configs c gwindex is n sub1
     }
     else del_others num_nodes configs c gwindex is (n + 1) sub
   }"

fun del_gateways :: "int \<Rightarrow> int \<Rightarrow> int list \<Rightarrow> Graph \<Rightarrow> Graph option" where
  "del_gateways num_nodes gwid [] sub = Some sub"
| "del_gateways num_nodes gwid (i # is) sub =
     (if i \<noteq> gwid then do { sub1 \<leftarrow> del_vertex num_nodes (i + 1) sub; del_gateways num_nodes gwid is sub1 }
      else del_gateways num_nodes gwid is sub)"

definition construct_graph_for_a_subconfiguration ::
  "int \<Rightarrow> int \<Rightarrow> int list list \<Rightarrow> Graph \<Rightarrow> int \<Rightarrow> int \<Rightarrow> Graph \<Rightarrow> (int \<times> Graph) option" where
  "construct_graph_for_a_subconfiguration num_nodes num_gateways configs g config_num gwid subgraph = do {
     sub1 \<leftarrow> reset_graph num_nodes subgraph;
     sub2 \<leftarrow> copy_graph num_nodes g sub1;
     (n, sub3) \<leftarrow> del_others num_nodes configs config_num (gwid - (num_nodes - num_gateways))
       [0..num_nodes - num_gateways - 1] 0 sub2;
     sub4 \<leftarrow> del_gateways num_nodes gwid [num_nodes - num_gateways..num_nodes - 1] sub3;
     Some (n, sub4)
   }"

text \<open>A round of the loop of \<^verbatim>\<open>execute_configuration\<close> up to the tree of the gateway.\<close>

definition subconfiguration_tree ::
  "int \<Rightarrow> int \<Rightarrow> int list list \<Rightarrow> Graph \<Rightarrow> int \<Rightarrow> int \<Rightarrow> Graph \<Rightarrow> Graph \<Rightarrow> (bool \<times> Graph \<times> Graph) option" where
  "subconfiguration_tree num_nodes num_gateways configs g config_num gwid subgraph tree = do {
     (n, sub) \<leftarrow> construct_graph_for_a_subconfiguration num_nodes num_gateways configs g config_num gwid subgraph;
     construct_tree num_nodes g sub gwid tree
   }"

section \<open>Copying a graph\<close>

definition plain_link :: "Link \<Rightarrow> Link" where
  "plain_link l = init_link (ln_dst l) (ln_cost l) 0 0 0"

lemma plain_link_simps [simp]:
  "ln_dst (plain_link l) = ln_dst l" "ln_cost (plain_link l) = ln_cost l" "outif (plain_link l) = 0" "inif (plain_link l) = 0"
  by (simp_all add: plain_link_def init_link_def)

lemma copy_links_all:
  assumes "in_range v"
  shows "distinct (map ln_dst ls) \<Longrightarrow> ln_dst ` set ls \<inter> ln_dst ` set (lh dst v) = {} \<Longrightarrow>
    (\<forall>l \<in> set ls. in_range (ln_dst l)) \<Longrightarrow>
    \<exists>dst1. copy_links v ls dst = Some dst1 \<and> lh dst1 = (lh dst)(v := rev (map plain_link ls) @ lh dst v) \<and>
      lvalid dst1 = (\<lambda>u. lvalid dst u \<or> ls \<noteq> [] \<and> u = v \<or> u \<in> ln_dst ` set ls)"
proof (induction ls arbitrary: dst)
  case (Cons l ls)
  from assms Cons.prems have r: "in_range v" "in_range (ln_dst l)" "\<not> v > MAX_NODES" "\<not> v < 0"
    by (auto simp: in_range_def)
  from Cons.prems(2) have n: "List.find (is_link (ln_dst l) 0 0) (lh dst v) = None"
    by (auto simp: find_None_iff is_link_def image_iff)
  let ?d = "dst\<lparr>lvalid := (lvalid dst)(v := True, ln_dst l := True), lh := (lh dst)(v := plain_link l # lh dst v),
    dirty := CURRENT_TIME\<rparr>"
  have a: "add_link v (ln_dst l) (ln_cost l) dst 0 0 0 = Some (1, ?d)"
    using r n by (simp add: add_link_def find_link_def plain_link_def)
  have "ln_dst ` set ls \<inter> ln_dst ` set (lh ?d v) = {}" using Cons.prems(1,2) by auto
  from Cons.IH [OF _ this] Cons.prems(1,3) a show ?case by (auto simp: fun_eq_iff)
qed (simp add: fun_eq_iff)

text \<open>A graph on the nodes \<open>1..n\<close> with one link on interfaces 0 for each destination, and valid ends.\<close>

definition plain_graph :: "int \<Rightarrow> Graph \<Rightarrow> bool" where
  "plain_graph n g \<longleftrightarrow> (\<forall>u \<in> {1..n}. distinct (map ln_dst (lh g u)) \<and> (\<forall>l \<in> set (lh g u).
     ln_dst l \<in> {1..n} \<and> outif l = 0 \<and> inif l = 0 \<and> lvalid g u \<and> lvalid g (ln_dst l)))"

text \<open>The graph of a metric file whose entries name the nodes \<open>1..n\<close> is of this kind.\<close>

lemma add_link_plain:
  assumes "add_link a b c g 0 0 0 = Some (rc, g1)" and "plain_graph n g" and "a \<in> {1..n}" "b \<in> {1..n}" and "0 \<le> c"
    and "\<forall>u \<in> {1..n}. \<forall>l \<in> set (lh g u). 0 \<le> ln_cost l"
  shows "plain_graph n g1 \<and> (\<forall>u \<in> {1..n}. \<forall>l \<in> set (lh g1 u). 0 \<le> ln_cost l)"
proof -
  let ?f = "\<lambda>l :: Link. l\<lparr>ln_cost := c, ln_channel := 0\<rparr>"
  from assms(1) have r: "in_range a" "in_range b" "\<not> a > MAX_NODES" "\<not> a < 0"
    by (auto simp: add_link_def in_range_def split: if_splits)
  from assms(2,3) have s: "distinct (map ln_dst (lh g a))" "\<forall>l \<in> set (lh g a). outif l = 0 \<and> inif l = 0"
    by (auto simp: plain_graph_def)
  show ?thesis
  proof (cases "List.find (is_link b 0 0) (lh g a)")
    case None
    with s(2) have "b \<notin> ln_dst ` set (lh g a)" by (auto simp: find_None_iff is_link_def)
    with None r s assms show ?thesis
      by (auto simp: add_link_def find_link_def plain_graph_def init_link_def split: if_splits)
  next
    case (Some l)
    let ?ls = "update_first (is_link b 0 0) ?f (lh g a)"
    have "map ln_dst ?ls = map ln_dst (lh g a)" by (rule update_first_dsts) simp
    moreover have "ln_dst m \<in> {1..n} \<and> outif m = 0 \<and> inif m = 0 \<and> lvalid g (ln_dst m) \<and> 0 \<le> ln_cost m"
      if "m \<in> set ?ls" for m
    proof -
      from update_first_cases [OF that] obtain k where "k \<in> set (lh g a)" "ln_dst m = ln_dst k" "outif m = outif k"
        "inif m = inif k" "ln_cost m = ln_cost k \<or> ln_cost m = c" by auto
      with assms(2,3,5,6) show ?thesis by (auto simp: plain_graph_def)
    qed
    moreover have "g1 = g\<lparr>lvalid := (lvalid g)(a := True, b := True), lh := (lh g)(a := ?ls), dirty := CURRENT_TIME\<rparr>"
      using Some r assms(1) by (auto simp: add_link_def find_link_def)
    ultimately show ?thesis using s(1) assms(2,6) by (auto simp: plain_graph_def)
  qed
qed

lemma metric_file_plain:
  assumes "\<forall>(a, b, c) \<in> set (entries lines). a \<in> {1..n} \<and> b \<in> {1..n} \<and> 0 \<le> c"
  shows "read_metric_file lines g = Some g1 \<Longrightarrow> plain_graph n g \<Longrightarrow> \<forall>u \<in> {1..n}. \<forall>l \<in> set (lh g u). 0 \<le> ln_cost l \<Longrightarrow>
    plain_graph n g1 \<and> (\<forall>u \<in> {1..n}. \<forall>l \<in> set (lh g1 u). 0 \<le> ln_cost l)"
  using assms
proof (induction lines arbitrary: g)
  case (Cons line lines)
  then obtain g2 where g2: "metric_line line g = Some g2" "read_metric_file lines g2 = Some g1"
    by (auto simp: bind_eq_Some_conv)
  then obtain ts where ts: "line_tokens blanks line = Some ts" "split_tokens blanks [] line = ts"
    by (auto simp: metric_line_def bind_eq_Some_conv line_tokens_def Let_def split: if_splits)
  have tail: "\<forall>(a, b, c) \<in> set (entries lines). a \<in> {1..n} \<and> b \<in> {1..n} \<and> 0 \<le> c"
    using Cons.prems(4) by (auto simp: entries_def List.map_filter_simps split: option.splits)
  show ?case
  proof (cases "token_at ts 0 = ''GRAPHENTRY''")
    case False
    then have "g2 = g" using g2(1) ts by (simp add: metric_line_def)
    with Cons.IH [OF g2(2) _ _ tail] Cons.prems(2,3) show ?thesis by simp
  next
    case True
    let ?a = "atoi (token_at ts 1)" and ?b = "atoi (token_at ts 2)" and ?c = "atof (token_at ts 3)"
    from True have "entries (line # lines) = (?a, ?b, ?c) # entries lines"
      by (simp add: entries_def List.map_filter_simps entry_of_def ts Let_def)
    with Cons.prems(4) have r: "?a \<in> {1..n}" "?b \<in> {1..n}" "0 \<le> ?c" by auto
    from g2(1) ts True obtain rc where "add_link ?a ?b ?c g 0 0 0 = Some (rc, g2)"
      by (auto simp: metric_line_def bind_eq_Some_conv)
    from add_link_plain [OF this Cons.prems(2) r Cons.prems(3)] Cons.IH [OF g2(2) _ _ tail] show ?thesis by blast
  qed
qed simp

lemma copy_nodes_all:
  assumes g: "plain_graph n g" and n: "n < MAX_NODES"
  shows "distinct vs \<Longrightarrow> set vs \<subseteq> {1..n} \<Longrightarrow> (\<forall>v \<in> set vs. lh dst v = []) \<Longrightarrow>
    \<exists>dst1. copy_nodes g vs dst = Some dst1 \<and>
      lh dst1 = (\<lambda>u. if u \<in> set vs then rev (map plain_link (lh g u)) else lh dst u) \<and>
      (\<forall>u. (lvalid dst1 u \<longrightarrow> lvalid g u \<or> lvalid dst u \<and> u \<notin> set vs) \<and> (u \<in> set vs \<longrightarrow> lvalid g u \<longrightarrow> lvalid dst1 u) \<and>
        (lvalid dst u \<longrightarrow> lvalid g u \<longrightarrow> lvalid dst1 u))"
proof (induction vs arbitrary: dst)
  case (Cons v vs)
  from g Cons.prems(2) have l: "distinct (map ln_dst (lh g v))" "\<forall>l \<in> set (lh g v). ln_dst l \<in> {1..n}"
    "\<forall>l \<in> set (lh g v). lvalid g v \<and> lvalid g (ln_dst l)" by (auto simp: plain_graph_def)
  with n have r: "in_range v" "\<forall>l \<in> set (lh g v). in_range (ln_dst l)" using Cons.prems(2) by (auto simp: in_range_def)
  from copy_links_all [OF r(1) l(1), of dst] r(2) Cons.prems(3) obtain dst1 where
    c: "copy_links v (lh g v) dst = Some dst1" "lh dst1 = (lh dst)(v := rev (map plain_link (lh g v)))"
      "lvalid dst1 = (\<lambda>u. lvalid dst u \<or> lh g v \<noteq> [] \<and> u = v \<or> u \<in> ln_dst ` set (lh g v))" by auto
  let ?d = "dst1\<lparr>dcost := (dcost dst1)(v := dcost g v), parent := (parent dst1)(v := parent g v),
       nchild := (nchild dst1)(v := nchild g v), Lsum := (Lsum dst1)(v := Lsum g v),
       Tsum := (Tsum dst1)(v := Tsum g v), pi_outif := (pi_outif dst1)(v := pi_outif g v),
       pi_inif := (pi_inif dst1)(v := pi_inif g v), perm := (perm dst1)(v := perm g v),
       gw_flag := (gw_flag dst1)(v := gw_flag g v), lvalid := (lvalid dst1)(v := lvalid g v)\<rparr>"
  have "\<forall>w \<in> set vs. lh ?d w = []" using Cons.prems(1,3) c(2) by auto
  from Cons.IH [OF _ _ this] Cons.prems(1,2) obtain dst2 where
    d: "copy_nodes g vs ?d = Some dst2" "lh dst2 = (\<lambda>u. if u \<in> set vs then rev (map plain_link (lh g u)) else lh ?d u)"
      "\<And>u. lvalid dst2 u \<Longrightarrow> lvalid g u \<or> lvalid ?d u \<and> u \<notin> set vs"
      "\<And>u. u \<in> set vs \<Longrightarrow> lvalid g u \<Longrightarrow> lvalid dst2 u" "\<And>u. lvalid ?d u \<Longrightarrow> lvalid g u \<Longrightarrow> lvalid dst2 u" by auto
  have "lh dst2 = (\<lambda>u. if u \<in> set (v # vs) then rev (map plain_link (lh g u)) else lh dst u)"
    using d(2) c(2) by auto
  moreover have "lvalid g u \<or> lvalid dst u \<and> u \<notin> set (v # vs)" if "lvalid dst2 u" for u
    using d(3) [OF that] c(3) l(3) by (cases "u = v") auto
  moreover have "lvalid dst2 u" if "u \<in> set (v # vs)" "lvalid g u" for u
    using d(4,5) that by (cases "u = v") auto
  moreover have "lvalid dst2 u" if "lvalid dst u" "lvalid g u" for u
    using d(5) [of u] that c(3) by (cases "u = v") auto
  ultimately show ?case using c(1) d(1) by auto
qed auto

section \<open>The nodes of a gateway\<close>

text \<open>The copy without the nodes \<open>D\<close>.\<close>

definition cut_graph :: "int \<Rightarrow> int set \<Rightarrow> Graph \<Rightarrow> Graph \<Rightarrow> bool" where
  "cut_graph n D g sub \<longleftrightarrow> lh sub 0 = [] \<and> (\<forall>u \<in> {1..n}.
     lh sub u = (if u \<in> D then [] else filter (\<lambda>l. ln_dst l \<notin> D) (rev (map plain_link (lh g u)))) \<and>
     lvalid sub u = (lvalid g u \<and> u \<notin> D))"

lemma del_fold:
  "lh (fold (\<lambda>v g. if v = x then g\<lparr>lvalid := (lvalid g)(v := False), lh := (lh g)(v := [])\<rparr>
     else g\<lparr>lh := (lh g)(v := filter (\<lambda>l. ln_dst l \<noteq> x) (lh g v))\<rparr>) vs g) =
   (\<lambda>u. if u \<in> set vs then if u = x then [] else filter (\<lambda>l. ln_dst l \<noteq> x) (lh g u) else lh g u)"
  "lvalid (fold (\<lambda>v g. if v = x then g\<lparr>lvalid := (lvalid g)(v := False), lh := (lh g)(v := [])\<rparr>
     else g\<lparr>lh := (lh g)(v := filter (\<lambda>l. ln_dst l \<noteq> x) (lh g v))\<rparr>) vs g) =
   (\<lambda>u. lvalid g u \<and> \<not> (u \<in> set vs \<and> u = x))"
  by (induction vs arbitrary: g) (auto simp: fun_eq_iff)

lemma del_vertex_cut:
  assumes "cut_graph n D g sub" and "x \<in> {1..n}" and "n < MAX_NODES"
  shows "\<exists>sub1. del_vertex n x sub = Some sub1 \<and> cut_graph n (insert x D) g sub1"
proof -
  have r: "in_range 1" "in_range n" using assms(2,3) by (auto simp: in_range_def)
  show ?thesis using assms(1,2) r
    by (auto simp: del_vertex_def nodes_loop_def cut_graph_def del_fold filter_filter intro: filter_cong)
qed

lemma del_others_cut:
  assumes "n < MAX_NODES"
  shows "cut_graph n D g sub \<Longrightarrow> set is \<subseteq> {0..<n} \<Longrightarrow> (\<forall>i \<in> set is. config_value configs c i \<noteq> None) \<Longrightarrow>
    \<exists>sub1. del_others n configs c gwindex is k sub =
        Some (k + int (length (filter (\<lambda>i. config_value configs c i = Some gwindex) is)), sub1) \<and>
      cut_graph n (D \<union> {i + 1 |i. i \<in> set is \<and> config_value configs c i \<noteq> Some gwindex}) g sub1"
proof (induction "is" arbitrary: D sub k)
  case (Cons i "is")
  then obtain a where v: "config_value configs c i = Some a" by auto
  show ?case
  proof (cases "a = gwindex")
    case True
    then have "{j + 1 |j. j \<in> set (i # is) \<and> config_value configs c j \<noteq> Some gwindex} =
        {j + 1 |j. j \<in> set is \<and> config_value configs c j \<noteq> Some gwindex}" using v by auto
    with Cons.IH [OF Cons.prems(1), of "k + 1"] Cons.prems(2,3) v True show ?thesis by auto
  next
    case False
    from del_vertex_cut [OF Cons.prems(1) _ assms, of "i + 1"] Cons.prems(2) obtain sub1 where
      s: "del_vertex n (i + 1) sub = Some sub1" "cut_graph n (insert (i + 1) D) g sub1" by auto
    have "D \<union> {j + 1 |j. j \<in> set (i # is) \<and> config_value configs c j \<noteq> Some gwindex} =
        insert (i + 1) D \<union> {j + 1 |j. j \<in> set is \<and> config_value configs c j \<noteq> Some gwindex}"
      using v False by auto
    with Cons.IH [OF s(2), of k] Cons.prems(2,3) v False s(1) show ?thesis by auto
  qed
qed simp

lemma del_gateways_cut:
  assumes "n < MAX_NODES"
  shows "cut_graph n D g sub \<Longrightarrow> set is \<subseteq> {0..<n} \<Longrightarrow>
    \<exists>sub1. del_gateways n gwid is sub = Some sub1 \<and> cut_graph n (D \<union> {i + 1 |i. i \<in> set is \<and> i \<noteq> gwid}) g sub1"
proof (induction "is" arbitrary: D sub)
  case (Cons i "is")
  show ?case
  proof (cases "i = gwid")
    case True
    then have "{j + 1 |j. j \<in> set (i # is) \<and> j \<noteq> gwid} = {j + 1 |j. j \<in> set is \<and> j \<noteq> gwid}" by auto
    with Cons.IH [OF Cons.prems(1)] Cons.prems(2) True show ?thesis by simp
  next
    case False
    from del_vertex_cut [OF Cons.prems(1) _ assms, of "i + 1"] Cons.prems(2) obtain sub1 where
      s: "del_vertex n (i + 1) sub = Some sub1" "cut_graph n (insert (i + 1) D) g sub1" by auto
    have "D \<union> {j + 1 |j. j \<in> set (i # is) \<and> j \<noteq> gwid} = insert (i + 1) D \<union> {j + 1 |j. j \<in> set is \<and> j \<noteq> gwid}"
      using False by auto
    with Cons.IH [OF s(2)] Cons.prems(2) False s(1) show ?thesis by simp
  qed
qed simp

text \<open>A gateway and the nodes that are assigned to it.\<close>

definition member :: "int \<Rightarrow> int \<Rightarrow> int list list \<Rightarrow> int \<Rightarrow> int \<Rightarrow> int \<Rightarrow> bool" where
  "member n num_gateways configs c gwid u \<longleftrightarrow> u = gwid + 1 \<or>
     u \<in> {1..n - num_gateways} \<and> config_value configs c (u - 1) = Some (gwid - (n - num_gateways))"

text \<open>The part of a graph between nodes \<open>M\<close>.\<close>

definition part_of_graph :: "(int \<Rightarrow> bool) \<Rightarrow> Graph \<Rightarrow> Graph" where
  "part_of_graph M g = g\<lparr>lh := \<lambda>u. if M u then filter (\<lambda>l. M (ln_dst l)) (lh g u) else [],
     lvalid := \<lambda>u. M u \<and> lvalid g u\<rparr>"

lemma subconfiguration_cut:
  assumes g: "plain_graph n g" and n: "n < T_NODES" and gws: "0 \<le> num_gateways" "num_gateways \<le> n"
    and gw: "gwid \<in> {n - num_gateways..<n}" and sub: "lh subgraph 0 = []"
    and configs: "\<forall>i \<in> {0..<n - num_gateways}. config_value configs c i \<noteq> None"
  shows "\<exists>sub. construct_graph_for_a_subconfiguration n num_gateways configs g c gwid subgraph =
      Some (int (length (filter (\<lambda>u. member n num_gateways configs c gwid u) [1..n - num_gateways])), sub) \<and>
    lh sub 0 = [] \<and> (\<forall>u \<in> {1..n}. lh sub u =
        (if member n num_gateways configs c gwid u
         then filter (\<lambda>l. member n num_gateways configs c gwid (ln_dst l)) (rev (map plain_link (lh g u))) else []) \<and>
      lvalid sub u = (lvalid g u \<and> member n num_gateways configs c gwid u))"
proof -
  let ?k = "n - num_gateways"
  note le = T_NODES_le(2) [OF n]
  have "\<exists>sub1. reset_graph n subgraph = Some sub1"
    using gw gws n le by (auto simp: reset_graph_def nodes_loop_def in_range_def)
  then obtain sub1 where s1: "reset_graph n subgraph = Some sub1" by blast
  note r = reset_links [OF s1]
  have ix: "set [0..?k - 1] \<subseteq> {0..<n}" "set [?k..n - 1] \<subseteq> {0..<n}" using gws by auto
  have some: "\<forall>i \<in> set [0..?k - 1]. config_value configs c i \<noteq> None" using configs by auto
  have "\<forall>v \<in> set [1..n]. lh sub1 v = []" using r by simp
  from copy_nodes_all [OF g le _ _ this] obtain sub2 where s2: "copy_nodes g [1..n] sub1 = Some sub2"
    "lh sub2 = (\<lambda>u. if u \<in> {1..n} then rev (map plain_link (lh g u)) else lh sub1 u)"
    "\<And>u. u \<in> {1..n} \<Longrightarrow> lvalid sub2 u = lvalid g u" by auto
  have s2': "copy_graph n g sub1 = Some sub2" using s2(1) n by (simp add: copy_graph_def)
  have "cut_graph n {} g sub2" using s2(2,3) r [of 0] sub by (simp add: cut_graph_def)
  from del_others_cut [OF le this ix(1) some, of "gwid - ?k" 0] obtain sub3 where
    s3: "del_others n configs c (gwid - ?k) [0..?k - 1] 0 sub2 =
        Some (int (length (filter (\<lambda>i. config_value configs c i = Some (gwid - ?k)) [0..?k - 1])), sub3)"
      "cut_graph n ({} \<union> {i + 1 |i. i \<in> set [0..?k - 1] \<and> config_value configs c i \<noteq> Some (gwid - ?k)}) g sub3" by auto
  from del_gateways_cut [OF le s3(2) ix(2), of gwid] obtain sub4 where
    s4: "del_gateways n gwid [?k..n - 1] sub3 = Some sub4"
      "cut_graph n ({} \<union> {i + 1 |i. i \<in> set [0..?k - 1] \<and> config_value configs c i \<noteq> Some (gwid - ?k)} \<union>
        {i + 1 |i. i \<in> set [?k..n - 1] \<and> i \<noteq> gwid}) g sub4" by auto
  let ?D = "{} \<union> {i + 1 |i. i \<in> set [0..?k - 1] \<and> config_value configs c i \<noteq> Some (gwid - ?k)} \<union>
        {i + 1 |i. i \<in> set [?k..n - 1] \<and> i \<noteq> gwid}"
  have D: "u \<notin> ?D \<longleftrightarrow> member n num_gateways configs c gwid u" if u: "u \<in> {1..n}" for u
  proof (cases "u \<le> ?k")
    case True
    have "u \<in> ?D \<longleftrightarrow> config_value configs c (u - 1) \<noteq> Some (gwid - ?k)"
      using True u by (auto intro!: exI [of _ "u - 1"])
    with True u gw show ?thesis by (auto simp: member_def)
  next
    case False
    have "u \<in> ?D \<longleftrightarrow> u \<noteq> gwid + 1" using False u by (auto intro!: exI [of _ "u - 1"])
    with False u show ?thesis by (auto simp: member_def)
  qed
  have dst: "filter (\<lambda>l. ln_dst l \<notin> ?D) (rev (map plain_link (lh g u))) =
      filter (\<lambda>l. member n num_gateways configs c gwid (ln_dst l)) (rev (map plain_link (lh g u)))" if "u \<in> {1..n}" for u
  proof (rule filter_cong [OF refl])
    fix l assume "l \<in> set (rev (map plain_link (lh g u)))"
    with g that have "ln_dst l \<in> {1..n}" by (auto simp: plain_graph_def)
    with D show "(ln_dst l \<notin> ?D) = member n num_gateways configs c gwid (ln_dst l)" by blast
  qed
  have shift: "map (\<lambda>i. i + 1) [0..k - 1] = [1..k]" for k :: int
    by (rule nth_equalityI) (auto simp: nth_upto)
  have "length (filter (\<lambda>u. member n num_gateways configs c gwid u) [1..?k]) =
      length (filter (\<lambda>i. member n num_gateways configs c gwid (i + 1)) [0..?k - 1])"
    by (simp flip: shift add: filter_map comp_def)
  also have "filter (\<lambda>i. member n num_gateways configs c gwid (i + 1)) [0..?k - 1] =
      filter (\<lambda>i. config_value configs c i = Some (gwid - ?k)) [0..?k - 1]"
    using gw by (intro filter_cong) (auto simp: member_def)
  finally have "int (length (filter (\<lambda>i. config_value configs c i = Some (gwid - ?k)) [0..?k - 1])) =
      int (length (filter (\<lambda>u. member n num_gateways configs c gwid u) [1..?k]))" by simp
  then have "construct_graph_for_a_subconfiguration n num_gateways configs g c gwid subgraph =
      Some (int (length (filter (\<lambda>u. member n num_gateways configs c gwid u) [1..?k])), sub4)"
    using s1 s2' s3(1) s4(1) by (simp add: construct_graph_for_a_subconfiguration_def)
  moreover have "lh sub4 0 = []" using s4(2) by (simp add: cut_graph_def)
  moreover have "lh sub4 u = (if member n num_gateways configs c gwid u
         then filter (\<lambda>l. member n num_gateways configs c gwid (ln_dst l)) (rev (map plain_link (lh g u))) else []) \<and>
      lvalid sub4 u = (lvalid g u \<and> member n num_gateways configs c gwid u)" if u: "u \<in> {1..n}" for u
  proof -
    from s4(2) u have "lh sub4 u = (if u \<in> ?D then [] else filter (\<lambda>l. ln_dst l \<notin> ?D) (rev (map plain_link (lh g u))))"
      "lvalid sub4 u = (lvalid g u \<and> u \<notin> ?D)" unfolding cut_graph_def by blast+
    with dst [OF u] D [OF u] show ?thesis by presburger
  qed
  ultimately show ?thesis by blast
qed

section \<open>The configurations of a file\<close>

lemma set_config_value_spec:
  assumes "set_config_value configs c i x = Some configs1"
  shows "map length configs1 = map length configs \<and>
    (\<forall>d j. config_value configs1 d j = (if (d, j) = (c, i) then Some x else config_value configs d j))"
proof (intro conjI allI)
  let ?row = "(configs ! nat c)[nat i := x]"
  from assms have r: "0 \<le> c" "nat c < length configs" "0 \<le> i" "nat i < length (configs ! nat c)"
    and u: "configs1 = configs[nat c := ?row]"
    by (auto simp: set_config_value_def config_value_def split: if_splits)
  have "map length configs1 = (map length configs)[nat c := length (configs ! nat c)]" using u by (simp add: map_update)
  also have "\<dots> = map length configs" using r(2) by (metis list_update_id nth_map)
  finally show "map length configs1 = map length configs" .
  fix d j
  show "config_value configs1 d j = (if (d, j) = (c, i) then Some x else config_value configs d j)"
  proof (cases "nat d = nat c \<and> 0 \<le> d")
    case True
    with r have "d = c" by linarith
    with r u show ?thesis by (auto simp: config_value_def nth_list_update eq_nat_nat_iff)
  next
    case False
    with r u show ?thesis by (auto simp: config_value_def)
  qed
qed

lemma config_line_spec:
  "config_line_values ts c zs configs = Some configs1 \<Longrightarrow> map length configs1 = map length configs \<and>
    (\<forall>d j. config_value configs1 d j = (if d = c \<and> j + 1 \<in> set zs then Some (atoi (token_at ts (nat (j + 1))))
       else config_value configs d j))"
proof (induction zs arbitrary: configs)
  case (Cons z zs)
  then obtain configs2 where c: "set_config_value configs c (z - 1) (atoi (token_at ts (nat z))) = Some configs2"
    "config_line_values ts c zs configs2 = Some configs1" by (auto simp: bind_eq_Some_conv split: if_splits)
  from Cons.IH [OF c(2)] set_config_value_spec [OF c(1)] show ?case by auto
qed simp

text \<open>Reading the file keeps the dimensions of the arrays, so every value that the loops over a configuration
  read exists; and the values of the last line for a configuration are the ones it has.\<close>

lemma read_config_dims:
  "read_config_file n k lines configs = Some configs1 \<Longrightarrow> map length configs1 = map length configs"
proof (induction lines arbitrary: configs)
  case (Cons line lines)
  then obtain ts configs2 where "config_line_values ts (atoi (token_at ts 0)) [1..n - k] configs = Some configs2"
    "read_config_file n k lines configs2 = Some configs1" by (auto simp: bind_eq_Some_conv)
  with Cons.IH config_line_spec show ?case by metis
qed simp

lemma read_config_defined:
  assumes "read_config_file n k lines configs = Some configs1" and "0 \<le> c" and "nat c < length configs"
    and "length (configs ! nat c) = nat (n - k)"
  shows "\<forall>i \<in> {0..<n - k}. config_value configs1 c i \<noteq> None"
proof -
  have m: "map length configs1 = map length configs" by (rule read_config_dims [OF assms(1)])
  then have l: "length configs1 = length configs" by (rule map_eq_imp_length_eq)
  with m assms(3,4) have "length (configs1 ! nat c) = nat (n - k)" by (metis nth_map)
  with l assms(2,3) show ?thesis by (auto simp: config_value_def)
qed

lemma read_config_last:
  assumes "read_config_file n k (lines @ [line]) configs = Some configs1" and "line_tokens blanks line = Some ts"
    and "i \<in> {0..<n - k}"
  shows "config_value configs1 (atoi (token_at ts 0)) i = Some (atoi (token_at ts (nat (i + 1))))"
proof -
  have "\<exists>configs2. config_line_values ts (atoi (token_at ts 0)) [1..n - k] configs2 = Some configs1"
    using assms(1,2) by (induction lines arbitrary: configs) (auto simp: bind_eq_Some_conv)
  with assms(3) config_line_spec show ?thesis by fastforce
qed

section \<open>The tree of a gateway in a configuration\<close>

lemma walk_same_links:
  assumes "\<And>u. u \<in> {0..<sz} \<Longrightarrow> (\<lambda>l. (ln_dst l, ln_cost l)) ` set (lh g u) = (\<lambda>l. (ln_dst l, ln_cost l)) ` set (lh g' u)"
  shows "walk g sz s v c = walk g' sz s v c"
proof -
  have "walk g2 sz s v c" if "walk g1 sz s v c"
    "\<And>u. u \<in> {0..<sz} \<Longrightarrow> (\<lambda>l. (ln_dst l, ln_cost l)) ` set (lh g1 u) = (\<lambda>l. (ln_dst l, ln_cost l)) ` set (lh g2 u)"
    for g1 g2
    using that(1)
  proof (induction rule: walk.induct)
    case (link u c l)
    then have "(ln_dst l, ln_cost l) \<in> (\<lambda>l. (ln_dst l, ln_cost l)) ` set (lh g2 u)" using that(2) by blast
    then obtain k where "k \<in> set (lh g2 u)" "ln_dst k = ln_dst l" "ln_cost k = ln_cost l" by auto
    with walk.link [OF link.IH link.hyps(2), of k] show ?case by simp
  qed (rule walk.start)
  with assms show ?thesis by metis
qed

lemma plain_links:
  "(\<lambda>l. (ln_dst l, ln_cost l)) ` set (filter (\<lambda>l. M (ln_dst l)) (rev (map plain_link ls))) =
   (\<lambda>l. (ln_dst l, ln_cost l)) ` set (filter (\<lambda>l. M (ln_dst l)) ls)"
  by (induction ls) simp_all

lemma find_distinct:
  "distinct (map ln_dst ls) \<Longrightarrow> l \<in> set ls \<Longrightarrow> List.find (is_link (ln_dst l) (outif l) (inif l)) ls = Some l"
proof (induction ls)
  case (Cons k ls)
  then have "is_link (ln_dst l) (outif l) (inif l) k \<longleftrightarrow> k = l"
    by (auto simp: is_link_def image_iff)
  with Cons show ?case by auto
qed simp

lemma subconfiguration_tree_spec:
  assumes g: "plain_graph n g" and cost: "\<forall>u \<in> {1..n}. \<forall>l \<in> set (lh g u). 0 \<le> ln_cost l"
    and n: "n < T_NODES" and gws: "0 \<le> num_gateways" "num_gateways \<le> n"
    and gw: "gwid \<in> {n - num_gateways..<n}" and empty: "lh subgraph 0 = []" "lh tree 0 = []"
    and configs: "\<forall>i \<in> {0..<n - num_gateways}. config_value configs c i \<noteq> None"
    and P: "P = part_of_graph (member n num_gateways configs c gwid) g"
  shows "\<exists>ok sub tree1. subconfiguration_tree n num_gateways configs g c gwid subgraph tree = Some (ok, sub, tree1) \<and>
    (ok \<longleftrightarrow> (\<forall>v \<in> {1..n}. lvalid P v \<longrightarrow> (\<exists>d < INFLEN. walk P (n + 1) (gwid + 1) v d))) \<and>
    (ok \<longrightarrow> shortest_tree (n + 1) (gwid + 1) P tree1)"
proof -
  let ?M = "member n num_gateways configs c gwid"
  note le = T_NODES_le(2) [OF n]
  from subconfiguration_cut [OF g n gws gw empty(1) configs] obtain k sub where
    s: "construct_graph_for_a_subconfiguration n num_gateways configs g c gwid subgraph = Some (k, sub)"
      "lh sub 0 = []" and
    u: "\<And>u. u \<in> {1..n} \<Longrightarrow> lh sub u =
        (if ?M u then filter (\<lambda>l. ?M (ln_dst l)) (rev (map plain_link (lh g u))) else []) \<and>
      lvalid sub u = (lvalid g u \<and> ?M u)" by blast
  have origin: "\<exists>k. k \<in> set (lh g v) \<and> l = plain_link k \<and> v \<in> {1..n}" if "v \<in> {0..<n + 1}" "l \<in> set (lh sub v)" for v l
    using that u [of v] s(2) by (cases "v = 0") (auto split: if_splits)
  have "in_range (ln_dst l) \<and> 0 \<le> ln_cost l" if "v \<in> {0..<n + 1}" "l \<in> set (lh sub v)" for v l
  proof -
    from origin [OF that] obtain k where k: "k \<in> set (lh g v)" "l = plain_link k" "v \<in> {1..n}" by blast
    with g have "ln_dst k \<in> {1..n}" unfolding plain_graph_def by blast
    with k cost le show ?thesis by (auto simp: in_range_def)
  qed
  then have fine: "links_fine (n + 1) sub" by (simp add: links_fine_def)
  have "map_option ln_cost (List.find (is_link (ln_dst l) (outif l) (inif l)) (lh g v)) = Some (ln_cost l)"
    if l: "v \<in> {0..<n + 1}" "l \<in> set (lh sub v)" for v l
  proof -
    from origin [OF l] obtain k where k: "k \<in> set (lh g v)" "l = plain_link k" "v \<in> {1..n}" by blast
    with g have "distinct (map ln_dst (lh g v))" "outif k = 0" "inif k = 0" by (auto simp: plain_graph_def)
    with find_distinct [of "lh g v" k] k show ?thesis by simp
  qed
  then have subl: "sublinks (n + 1) sub g" by (simp add: sublinks_def)
  have "(\<lambda>l. (ln_dst l, ln_cost l)) ` set (lh sub v) = (\<lambda>l. (ln_dst l, ln_cost l)) ` set (lh P v)" if "v \<in> {0..<n + 1}" for v
  proof (cases "v = 0")
    case True
    with s(2) gw gws show ?thesis by (simp add: P part_of_graph_def member_def)
  next
    case False
    with that have "v \<in> {1..n}" by simp
    from u [OF this] show ?thesis
      by (cases "?M v") (simp_all add: P part_of_graph_def plain_links del: set_filter set_rev set_map)
  qed
  then have w: "walk sub (n + 1) a v d = walk P (n + 1) a v d" for a v d by (rule walk_same_links)
  have "shortest_tree (n + 1) (gwid + 1) sub t = shortest_tree (n + 1) (gwid + 1) P t" for t
    by (simp add: shortest_tree_def w)
  moreover have "0 \<le> gwid" "gwid < n" "n + 1 \<le> T_NODES" using gw gws n by auto
  moreover have "lvalid sub v = lvalid P v" if "v \<in> {1..n}" for v
    using u [OF that] by (auto simp: P part_of_graph_def)
  ultimately show ?thesis
    using construct_tree_spec [OF fine subl _ _ _ empty(2), of gwid] s(1)
    by (auto simp: subconfiguration_tree_def w)
qed

text \<open>\<^verbatim>\<open>construct_graph_for_a_subconfiguration\<close> gives exactly the part of the graph between a gateway and the
  nodes the configuration assigns to it, with their number: their links with the costs they have, and no
  link from or to any other node.\<close>

theorem subconfiguration_exact:
  assumes "plain_graph n g" and "n < T_NODES" and "0 \<le> num_gateways" and "num_gateways \<le> n"
    and "gwid \<in> {n - num_gateways..<n}" and "lh subgraph 0 = []"
    and "\<forall>i \<in> {0..<n - num_gateways}. config_value configs c i \<noteq> None"
  shows "\<exists>sub. construct_graph_for_a_subconfiguration n num_gateways configs g c gwid subgraph =
      Some (int (length (filter (\<lambda>u. member n num_gateways configs c gwid u) [1..n - num_gateways])), sub) \<and>
    lh sub 0 = [] \<and> (\<forall>u \<in> {1..n}. lh sub u =
        (if member n num_gateways configs c gwid u
         then filter (\<lambda>l. member n num_gateways configs c gwid (ln_dst l)) (rev (map plain_link (lh g u))) else []) \<and>
      lvalid sub u = (lvalid g u \<and> member n num_gateways configs c gwid u))"
  by (rule subconfiguration_cut [OF assms])


text \<open>Three nodes of which the last two are gateways; node 1 belongs to the first.\<close>

lemma sample_plain:
  "plain_graph 3 sample_graph" "\<forall>u \<in> {1..3}. \<forall>l \<in> set (lh sample_graph u). 0 \<le> ln_cost l"
  "\<forall>i \<in> {0..<3 - 2}. config_value [[0]] 0 i \<noteq> None" "(1 :: int) \<in> {3 - 2..<3}"
  by (auto simp: plain_graph_def sample_graph_def init_link_def config_value_def)

theorem subconfiguration_exact_witness:
  "\<exists>sub. construct_graph_for_a_subconfiguration 3 2 [[0]] sample_graph 0 1 sample_graph = Some (1, sub) \<and>
    map ln_dst (lh sub 1) = [2] \<and> lh sub 2 = []"
proof -
  have m: "member 3 2 [[0]] 0 1 1" "member 3 2 [[0]] 0 1 2" "\<not> member 3 2 [[0]] 0 1 3"
    by (simp_all add: member_def config_value_def)
  have "[1..1 :: int] = [1]" by simp
  with subconfiguration_exact [of 3 sample_graph 2 1 sample_graph "[[0]]" 0] sample_plain sample_sublinks m
  show ?thesis by (auto simp: T_NODES_eq sample_graph_def init_link_def)
qed


end
