(* ===== verification/MeshFlow.thy ===== *)
theory MeshFlow
  imports MeshConfig
begin

text \<open>
  \<^verbatim>\<open>rpp.c\<close> and \<^verbatim>\<open>swarm.c\<close>: the load on a tree. \<^verbatim>\<open>count_children\<close> puts on every link the number of nodes that are
  reached over it, \<^verbatim>\<open>mark_l_and_t\<close> adds up the loads and times of the links of every node. The recursion goes
  down one level with each unit of fuel; a tree of the nodes \<open>1..n\<close> has at most \<open>n\<close> levels.
\<close>

section \<open>Definitions\<close>

fun count_children :: "nat \<Rightarrow> int \<Rightarrow> Graph \<Rightarrow> (int \<times> Graph) option"
  and count_links :: "nat \<Rightarrow> int list \<Rightarrow> Graph \<Rightarrow> (int \<times> Graph) option" where
  "count_children 0 v g = None"
| "count_children (Suc k) v g =
     (if \<not> in_range v then None
      else do {
        (n, g1) \<leftarrow> count_links k (map ln_dst (lh g v)) g;
        let g2 = g1\<lparr>nchild := (nchild g1)(v := n)\<rparr>;
        found \<leftarrow> find_link (parent g2 v) v 0 0 g2;
        Some (n, case found of None \<Rightarrow> g2
          | Some l \<Rightarrow> g2\<lparr>lh := (lh g2)(parent g2 v :=
              update_first (is_link v 0 0) (\<lambda>l. l\<lparr>ln_flow := n + 1\<rparr>) (lh g2 (parent g2 v)))\<rparr>)
      })"
| "count_links k [] g = Some (0, g)"
| "count_links k (d # ds) g = do {
     (m, g1) \<leftarrow> count_children k d g;
     (n, g2) \<leftarrow> count_links k ds g1;
     Some (1 + m + n, g2)
   }"

definition load_of :: "Link list \<Rightarrow> double" where
  "load_of ls = foldl (\<lambda>L l. dadd L (of_int (ln_flow l))) 0 ls"

definition time_of :: "Link list \<Rightarrow> double" where
  "time_of ls = foldl (\<lambda>T l. dadd T (dbl (of_int (ln_flow l) * ln_cost l))) 0 ls"

text \<open>\<^verbatim>\<open>L\<close> is an array of \<^verbatim>\<open>int\<close>s.\<close>

definition trunc :: "double \<Rightarrow> int" where
  "trunc x = (if 0 \<le> x then \<lfloor>x\<rfloor> else \<lceil>x\<rceil>)"

definition mark_l_and_t :: "int \<Rightarrow> Graph \<Rightarrow> Graph option" where
  "mark_l_and_t num_nodes g =
     (if T_NODES \<le> num_nodes then None
      else nodes_loop 1 num_nodes (\<lambda>v g. g\<lparr>Lsum := (Lsum g)(v := trunc (load_of (lh g v))),
        Tsum := (Tsum g)(v := time_of (lh g v))\<rparr>) g)"

section \<open>Trees\<close>

text \<open>A tree on the nodes \<open>1..n\<close> as \<^verbatim>\<open>construct_tree\<close> leaves it: links of no load to nodes one level deeper that
  have the node as parent; the parent of the gateway is not a node.\<close>

definition rooted :: "int \<Rightarrow> int \<Rightarrow> (int \<Rightarrow> nat) \<Rightarrow> Graph \<Rightarrow> bool" where
  "rooted n gw depth tree \<longleftrightarrow> gw \<in> {1..n} \<and> MAX_NODES < parent tree gw \<and>
     (\<forall>u. u \<notin> {1..n} \<longrightarrow> lh tree u = []) \<and> (\<forall>u \<in> {1..n}. depth u < nat n \<and> distinct (map ln_dst (lh tree u))) \<and>
     (\<forall>u. \<forall>l \<in> set (lh tree u). ln_dst l \<in> {1..n} \<and> ln_dst l \<noteq> gw \<and> parent tree (ln_dst l) = u \<and>
        depth (ln_dst l) = Suc (depth u) \<and> outif l = 0 \<and> inif l = 0)"

definition dsts :: "Graph \<Rightarrow> int \<Rightarrow> int set" where
  "dsts tree u = ln_dst ` set (lh tree u)"

inductive below :: "Graph \<Rightarrow> int \<Rightarrow> int \<Rightarrow> bool" for tree v where
  child: "w \<in> dsts tree v \<Longrightarrow> below tree v w"
| deeper: "below tree v u \<Longrightarrow> w \<in> dsts tree u \<Longrightarrow> below tree v w"

lemma rooted_dsts:
  assumes "rooted n gw depth tree" and "w \<in> dsts tree u"
  shows "u \<in> {1..n}" "w \<in> {1..n}" "w \<noteq> gw" "parent tree w = u" "depth w = Suc (depth u)"
proof -
  from assms(2) obtain l where l: "l \<in> set (lh tree u)" "ln_dst l = w" by (auto simp: dsts_def)
  with assms(1) show "u \<in> {1..n}" unfolding rooted_def by fastforce
  from assms(1) l show "w \<in> {1..n}" "w \<noteq> gw" "parent tree w = u" "depth w = Suc (depth u)" unfolding rooted_def by blast+
qed

lemma below_down: "w \<in> dsts tree v \<Longrightarrow> below tree w x \<Longrightarrow> below tree v x"
  by (rotate_tac, induction rule: below.induct) (auto intro: below.intros)

lemma below_split: "below tree v x \<longleftrightarrow> (\<exists>w \<in> dsts tree v. x = w \<or> below tree w x)"
proof
  show "below tree v x \<Longrightarrow> \<exists>w \<in> dsts tree v. x = w \<or> below tree w x"
    by (induction rule: below.induct) (auto intro: below.intros)
qed (auto intro: below.child below_down)

lemma below_ancestor:
  assumes "rooted n gw depth tree"
  shows "below tree v w \<Longrightarrow> w \<in> {1..n} \<and> depth v < depth w \<and> (parent tree ^^ (depth w - depth v)) w = v"
proof (induction rule: below.induct)
  case (child w)
  with rooted_dsts [OF assms child] show ?case by simp
next
  case (deeper u w)
  from rooted_dsts [OF assms deeper.hyps(2)] deeper.IH have
    "w \<in> {1..n}" "depth w - depth v = Suc (depth u - depth v)" "parent tree w = u" "depth v < depth w" by auto
  with deeper.IH show ?case by (simp add: funpow_swap1)
qed

text \<open>What hangs under two nodes of the same level is disjoint.\<close>

lemma below_disjoint:
  assumes "rooted n gw depth tree" and "depth d = depth e"
    and "w = d \<or> below tree d w" and "w = e \<or> below tree e w"
  shows "d = e"
proof -
  have "(parent tree ^^ (depth w - depth x)) w = x" if "w = x \<or> below tree x w" for x
    using that below_ancestor [OF assms(1), of x w] by auto
  with assms(2-4) show ?thesis by metis
qed

definition subtree :: "Graph \<Rightarrow> int \<Rightarrow> int set" where
  "subtree tree v = {w. below tree v w}"

lemma subtree_split: "subtree tree v = (\<Union>d \<in> dsts tree v. insert d (subtree tree d))"
  by (auto simp: subtree_def below_split [of tree v])

lemma subtree_finite:
  assumes "rooted n gw depth tree"
  shows "finite (subtree tree v)"
proof (rule finite_subset)
  show "subtree tree v \<subseteq> {1..n}" using below_ancestor [OF assms, of v] by (auto simp: subtree_def)
qed simp

lemma subtree_self: "rooted n gw depth tree \<Longrightarrow> v \<notin> subtree tree v"
  using below_ancestor [of n gw depth tree v v] by (auto simp: subtree_def)

definition size_below :: "Graph \<Rightarrow> int \<Rightarrow> int" where
  "size_below tree v = int (card (subtree tree v))"

lemma size_below_split:
  assumes r: "rooted n gw depth tree"
  shows "size_below tree v = (\<Sum>d \<in> dsts tree v. 1 + size_below tree d)"
proof -
  have "card (subtree tree v) = (\<Sum>d \<in> dsts tree v. card (insert d (subtree tree d)))"
    unfolding subtree_split [of tree v]
  proof (rule card_UN_disjoint)
    show "finite (dsts tree v)" by (simp add: dsts_def)
    show "\<forall>d \<in> dsts tree v. finite (insert d (subtree tree d))" using subtree_finite [OF r] by simp
    show "\<forall>d \<in> dsts tree v. \<forall>e \<in> dsts tree v. d \<noteq> e \<longrightarrow> insert d (subtree tree d) \<inter> insert e (subtree tree e) = {}"
    proof (intro ballI impI)
      fix d e assume d: "d \<in> dsts tree v" "e \<in> dsts tree v" "d \<noteq> e"
      have "depth d = depth e" using rooted_dsts(5) [OF r] d by metis
      from below_disjoint [OF r this] d(3) show "insert d (subtree tree d) \<inter> insert e (subtree tree e) = {}"
        unfolding subtree_def by blast
    qed
  qed
  also have "\<dots> = (\<Sum>d \<in> dsts tree v. 1 + card (subtree tree d))"
    using subtree_finite [OF r] subtree_self [OF r] by simp
  finally show ?thesis by (simp add: size_below_def)
qed

section \<open>Counting\<close>

text \<open>A tree with loads \<open>F\<close> on the links, by the node they lead to, and numbers \<open>C\<close> at the nodes.\<close>

definition loaded :: "Graph \<Rightarrow> (int \<Rightarrow> int) \<Rightarrow> (int \<Rightarrow> int) \<Rightarrow> Graph" where
  "loaded tree F C = tree\<lparr>lh := \<lambda>u. map (\<lambda>l. l\<lparr>ln_flow := F (ln_dst l)\<rparr>) (lh tree u), nchild := C\<rparr>"

lemma loaded_fields [simp]:
  "parent (loaded tree F C) = parent tree"
  "lh (loaded tree F C) u = map (\<lambda>l. l\<lparr>ln_flow := F (ln_dst l)\<rparr>) (lh tree u)"
  "(loaded tree F C)\<lparr>nchild := C'\<rparr> = loaded tree F C'" "nchild (loaded tree F C) = C"
  by (simp_all add: loaded_def)

lemma find_flow:
  "List.find (is_link v i j) (map (\<lambda>l. l\<lparr>ln_flow := F (ln_dst l)\<rparr>) ls) =
   map_option (\<lambda>l. l\<lparr>ln_flow := F (ln_dst l)\<rparr>) (List.find (is_link v i j) ls)"
  by (induction ls) (simp_all add: is_link_def)

lemma update_flow:
  assumes "distinct (map ln_dst ls)" and "\<forall>l \<in> set ls. outif l = 0 \<and> inif l = 0"
  shows "update_first (is_link v 0 0) (\<lambda>l. l\<lparr>ln_flow := x\<rparr>) (map (\<lambda>l. l\<lparr>ln_flow := F (ln_dst l)\<rparr>) ls) =
    map (\<lambda>l. l\<lparr>ln_flow := (F(v := x)) (ln_dst l)\<rparr>) ls"
  using assms
proof (induction ls)
  case (Cons a ls)
  show ?case
  proof (cases "ln_dst a = v")
    case True
    with Cons.prems have "map (\<lambda>l. l\<lparr>ln_flow := F (ln_dst l)\<rparr>) ls = map (\<lambda>l. l\<lparr>ln_flow := (F(v := x)) (ln_dst l)\<rparr>) ls"
      by (intro map_cong) (auto simp: image_iff)
    with Cons.prems True show ?thesis by (simp add: is_link_def)
  next
    case False
    with Cons show ?thesis by (simp add: is_link_def)
  qed
qed simp

text \<open>The link to a node gets its load.\<close>

lemma set_flow:
  assumes r: "rooted n gw depth tree" and n: "n < MAX_NODES" and v: "v \<in> dsts tree u"
  shows "\<exists>l. find_link (parent tree v) v 0 0 (loaded tree F C) = Some (Some l)"
    and "(loaded tree F C)\<lparr>lh := (lh (loaded tree F C))(parent tree v :=
      update_first (is_link v 0 0) (\<lambda>l. l\<lparr>ln_flow := x\<rparr>) (lh (loaded tree F C) (parent tree v)))\<rparr> = loaded tree (F(v := x)) C"
proof -
  from rooted_dsts [OF r v] have u: "parent tree v = u" "u \<in> {1..n}" by auto
  with n have i: "in_range u" "\<not> u > MAX_NODES" "\<not> u < 0" by (auto simp: in_range_def)
  from r u have l: "distinct (map ln_dst (lh tree u))" "\<forall>l \<in> set (lh tree u). outif l = 0 \<and> inif l = 0"
    unfolding rooted_def by blast+
  have "List.find (is_link v 0 0) (lh tree u) \<noteq> None"
    using v l(2) by (auto simp: find_None_iff is_link_def dsts_def)
  then show "\<exists>l. find_link (parent tree v) v 0 0 (loaded tree F C) = Some (Some l)"
    using u(1) i by (auto simp: find_link_def find_flow)
  have "map (\<lambda>l. l\<lparr>ln_flow := F (ln_dst l)\<rparr>) (lh tree w) = map (\<lambda>l. l\<lparr>ln_flow := (F(v := x)) (ln_dst l)\<rparr>) (lh tree w)"
    if "w \<noteq> u" for w
  proof (rule map_cong [OF refl])
    fix l assume "l \<in> set (lh tree w)"
    then have "parent tree (ln_dst l) = w" using r unfolding rooted_def by blast
    with u(1) that show "l\<lparr>ln_flow := F (ln_dst l)\<rparr> = l\<lparr>ln_flow := (F(v := x)) (ln_dst l)\<rparr>" by auto
  qed
  with update_flow [OF l, of v x F] u(1) show "(loaded tree F C)\<lparr>lh := (lh (loaded tree F C))(parent tree v :=
      update_first (is_link v 0 0) (\<lambda>l. l\<lparr>ln_flow := x\<rparr>) (lh (loaded tree F C) (parent tree v)))\<rparr> = loaded tree (F(v := x)) C"
    by (simp add: loaded_def fun_eq_iff)
qed

text \<open>What counting the nodes \<open>W\<close> leaves.\<close>

definition counted :: "Graph \<Rightarrow> int set \<Rightarrow> (int \<Rightarrow> int) \<Rightarrow> (int \<Rightarrow> int) \<Rightarrow> (int \<Rightarrow> int) \<Rightarrow> (int \<Rightarrow> int) \<Rightarrow> bool" where
  "counted tree W F C F' C' \<longleftrightarrow> (\<forall>w. F' w = (if w \<in> W then size_below tree w + 1 else F w)) \<and>
     (\<forall>w. C' w = (if w \<in> W then size_below tree w else C w))"

lemma count_links_counts:
  assumes "\<And>d F C. d \<in> set ds \<Longrightarrow> \<exists>F' C'. count_children k d (loaded tree F C) = Some (size_below tree d, loaded tree F' C') \<and>
      counted tree (insert d (subtree tree d)) F C F' C'"
  shows "\<exists>F' C'. count_links k ds (loaded tree F C) =
      Some (sum_list (map (\<lambda>d. 1 + size_below tree d) ds), loaded tree F' C') \<and>
    counted tree (\<Union>d \<in> set ds. insert d (subtree tree d)) F C F' C'"
  using assms
proof (induction ds arbitrary: F C)
  case (Cons d ds)
  from Cons.prems [of d F C] obtain F1 C1 where
    c1: "count_children k d (loaded tree F C) = Some (size_below tree d, loaded tree F1 C1)"
      "counted tree (insert d (subtree tree d)) F C F1 C1" by auto
  from Cons.IH [OF Cons.prems, of F1 C1] obtain F2 C2 where
    c2: "count_links k ds (loaded tree F1 C1) = Some (sum_list (map (\<lambda>d. 1 + size_below tree d) ds), loaded tree F2 C2)"
      "counted tree (\<Union>d \<in> set ds. insert d (subtree tree d)) F1 C1 F2 C2" by auto
  from c1(2) c2(2) have "counted tree (\<Union>e \<in> set (d # ds). insert e (subtree tree e)) F C F2 C2"
    by (auto simp: counted_def)
  with c1(1) c2(1) show ?case by auto
qed (auto simp: counted_def)

text \<open>The loop over the links of a node.\<close>

lemma count_node:
  assumes r: "rooted n gw depth tree"
    and IH: "\<And>d F C. d \<in> dsts tree v \<Longrightarrow> \<exists>F' C'. count_children k d (loaded tree F C) =
        Some (size_below tree d, loaded tree F' C') \<and> counted tree (insert d (subtree tree d)) F C F' C'"
  shows "\<exists>F' C'. count_links k (map ln_dst (lh (loaded tree F C) v)) (loaded tree F C) =
      Some (size_below tree v, loaded tree F' C') \<and> counted tree (subtree tree v) F C F' C'"
proof -
  let ?ds = "map ln_dst (lh tree v)"
  have ds: "set ?ds = dsts tree v" by (simp add: dsts_def)
  have "distinct ?ds" using r unfolding rooted_def by (cases "v \<in> {1..n}") auto
  then have "sum_list (map (\<lambda>d. 1 + size_below tree d) ?ds) = size_below tree v"
    unfolding size_below_split [OF r, of v] ds [symmetric] by (rule sum_list_distinct_conv_sum_set)
  moreover have "map ln_dst (lh (loaded tree F C) v) = ?ds" by (simp add: comp_def)
  moreover have "\<exists>F' C'. count_links k ?ds (loaded tree F C) =
      Some (sum_list (map (\<lambda>d. 1 + size_below tree d) ?ds), loaded tree F' C') \<and>
    counted tree (\<Union>d \<in> set ?ds. insert d (subtree tree d)) F C F' C'"
    by (rule count_links_counts) (unfold ds, rule IH)
  ultimately show ?thesis unfolding subtree_split [of tree v] ds by metis
qed

lemma count_children_counts:
  assumes r: "rooted n gw depth tree" and n: "n < MAX_NODES"
  shows "v \<in> dsts tree u \<Longrightarrow> nat n \<le> k + depth v \<Longrightarrow>
    \<exists>F' C'. count_children k v (loaded tree F C) = Some (size_below tree v, loaded tree F' C') \<and>
      counted tree (insert v (subtree tree v)) F C F' C'"
proof (induction k arbitrary: v u F C)
  case 0
  have "v \<in> {1..n}" using rooted_dsts(2) [OF r 0(1)] .
  with r have "depth v < nat n" unfolding rooted_def by blast
  with 0(2) show ?case by simp
next
  case (Suc k)
  have "\<exists>F' C'. count_children k d (loaded tree F C) = Some (size_below tree d, loaded tree F' C') \<and>
      counted tree (insert d (subtree tree d)) F C F' C'" if "d \<in> dsts tree v" for d F C
    by (rule Suc.IH [OF that]) (use rooted_dsts(5) [OF r that] Suc.prems(2) in simp)
  then have "\<exists>F' C'. count_links k (map ln_dst (lh (loaded tree F C) v)) (loaded tree F C) =
      Some (size_below tree v, loaded tree F' C') \<and> counted tree (subtree tree v) F C F' C'"
    by (rule count_node [OF r])
  then obtain F1 C1 where
    c: "count_links k (map ln_dst (lh (loaded tree F C) v)) (loaded tree F C) = Some (size_below tree v, loaded tree F1 C1)"
      "counted tree (subtree tree v) F C F1 C1" by auto
  from set_flow(1) [OF r n Suc.prems(1)] obtain l where
    l: "find_link (parent tree v) v 0 0 (loaded tree F1 (C1(v := size_below tree v))) = Some (Some l)" by blast
  have "in_range v" using rooted_dsts(2) [OF r Suc.prems(1)] n by (simp add: in_range_def)
  with c(1) l have "count_children (Suc k) v (loaded tree F C) =
      Some (size_below tree v, loaded tree (F1(v := size_below tree v + 1)) (C1(v := size_below tree v)))"
    using set_flow(2) [OF r n Suc.prems(1)] by (simp del: loaded_fields(2))
  moreover have "counted tree (insert v (subtree tree v)) F C (F1(v := size_below tree v + 1)) (C1(v := size_below tree v))"
    using c(2) by (auto simp: counted_def)
  ultimately show ?case by blast
qed

lemma count_from_gateway:
  assumes r: "rooted n gw depth tree" and n: "n < MAX_NODES" and k: "nat n \<le> k"
  shows "\<exists>F' C'. count_children (Suc k) gw (loaded tree F C) = Some (size_below tree gw, loaded tree F' C') \<and>
    counted tree (subtree tree gw) F C F' (C'(gw := C gw)) \<and> C' gw = size_below tree gw"
proof -
  from r have gw: "gw \<in> {1..n}" "MAX_NODES < parent tree gw" by (auto simp: rooted_def)
  have "\<exists>F' C'. count_children k d (loaded tree F C) = Some (size_below tree d, loaded tree F' C') \<and>
      counted tree (insert d (subtree tree d)) F C F' C'" if "d \<in> dsts tree gw" for d F C
    by (rule count_children_counts [OF r n that]) (use k in simp)
  then have "\<exists>F' C'. count_links k (map ln_dst (lh (loaded tree F C) gw)) (loaded tree F C) =
      Some (size_below tree gw, loaded tree F' C') \<and> counted tree (subtree tree gw) F C F' C'"
    by (rule count_node [OF r])
  then obtain F1 C1 where
    c: "count_links k (map ln_dst (lh (loaded tree F C) gw)) (loaded tree F C) = Some (size_below tree gw, loaded tree F1 C1)"
      "counted tree (subtree tree gw) F C F1 C1" by auto
  have "in_range gw" using gw(1) n by (simp add: in_range_def)
  with c(1) gw(2) have "count_children (Suc k) gw (loaded tree F C) =
      Some (size_below tree gw, loaded tree F1 (C1(gw := size_below tree gw)))"
    by (simp add: find_link_def del: loaded_fields(2))
  moreover have "counted tree (subtree tree gw) F C F1 (C1(gw := C gw))"
    using c(2) subtree_self [OF r, of gw] by (auto simp: counted_def)
  ultimately show ?thesis by (intro exI [of _ F1] exI [of _ "C1(gw := size_below tree gw)"]) simp
qed

section \<open>Adding up\<close>

lemma dbl_int:
  assumes "0 \<le> k" and "k < 2 ^ 53"
  shows "dbl (of_int k) = of_int k"
proof (cases "k = 0")
  case False
  with assms(1) have k: "0 < (of_int k :: rat)" by simp
  let ?b = "binade (of_int k)"
  have "two_to ?b < two_to 53"
  proof -
    have "(of_int k :: rat) < of_int (2 ^ 53)" using assms(2) by (simp only: of_int_less_iff)
    also have "of_int (2 ^ 53) = two_to 53" by (simp add: two_to_nat)
    finally show ?thesis using binade_bounds(1) [OF k] by simp
  qed
  then have b: "?b \<le> 52" using two_to_mono [of 53 ?b] by linarith
  then have "of_int k * two_to (int 52 - ?b) = of_int (k * 2 ^ nat (52 - ?b))" by (simp add: two_to_nat)
  then have "round_even (of_int k * two_to (int 52 - ?b)) = k * 2 ^ nat (52 - ?b)" by (simp only: round_even_int)
  then have "dbl (of_int k) = of_int k * (two_to (52 - ?b) * two_to (?b - 52))"
    using b by (simp add: dbl_def rnd_pos [OF k] two_to_nat)
  also have "\<dots> = of_int k" by (simp flip: two_to_add) (simp add: two_to_def)
  finally show ?thesis .
qed simp

lemma load_exact:
  "0 \<le> a \<Longrightarrow> (\<And>l. l \<in> set ls \<Longrightarrow> 0 \<le> ln_flow l) \<Longrightarrow> a + sum_list (map ln_flow ls) < 2 ^ 53 \<Longrightarrow>
    foldl (\<lambda>L l. dadd L (of_int (ln_flow l))) (of_int a) ls = of_int (a + sum_list (map ln_flow ls))"
proof (induction ls arbitrary: a)
  case (Cons l ls)
  have f: "0 \<le> ln_flow l" using Cons.prems(2) by simp
  have "0 \<le> sum_list (map ln_flow ls)" using Cons.prems(2) by (intro sum_list_nonneg) auto
  with Cons.prems(1,3) f have "dadd (of_int a) (of_int (ln_flow l)) = of_int (a + ln_flow l)"
    using dbl_int [of "a + ln_flow l"] by (simp add: dadd_def)
  with Cons.IH [of "a + ln_flow l"] Cons.prems f show ?case by (simp add: add.assoc)
qed simp

lemma mark_fold:
  "fold (\<lambda>v g. g\<lparr>Lsum := (Lsum g)(v := trunc (load_of (lh g v))), Tsum := (Tsum g)(v := time_of (lh g v))\<rparr>) vs g =
   g\<lparr>Lsum := \<lambda>v. if v \<in> set vs then trunc (load_of (lh g v)) else Lsum g v,
     Tsum := \<lambda>v. if v \<in> set vs then time_of (lh g v) else Tsum g v\<rparr>"
  by (induction vs arbitrary: g) (auto simp: fun_eq_iff)

lemma loads_of_tree:
  assumes r: "rooted n gw depth tree" and n: "n < T_NODES" and k: "nat n < k"
    and f: "\<forall>u. \<forall>l \<in> set (lh tree u). ln_flow l = 0"
  shows "\<exists>g1 g2. count_children k gw tree = Some (size_below tree gw, g1) \<and> mark_l_and_t n g1 = Some g2 \<and>
    (\<forall>v. v = gw \<or> below tree gw v \<longrightarrow> nchild g2 v = size_below tree v \<and> Lsum g2 v = size_below tree v \<and>
      Tsum g2 v = time_of (lh g2 v) \<and>
      map ln_dst (lh g2 v) = map ln_dst (lh tree v) \<and> (\<forall>l \<in> set (lh g2 v). ln_flow l = size_below tree (ln_dst l) + 1))"
proof -
  note le = T_NODES_le(2) [OF n]
  from k obtain j where j: "k = Suc j" "nat n \<le> j" by (cases k) auto
  have "tree = loaded tree (\<lambda>_. 0) (nchild tree)"
  proof -
    have "map (\<lambda>l. l\<lparr>ln_flow := 0\<rparr>) (lh tree u) = lh tree u" for u using f by (intro map_idI) (metis Link.surjective Link.update_convs(6))
    then show ?thesis by (simp add: loaded_def)
  qed
  with count_from_gateway [OF r le j(2), of "\<lambda>_. 0" "nchild tree"] j(1) obtain F C where
    c: "count_children k gw tree = Some (size_below tree gw, loaded tree F C)"
      "counted tree (subtree tree gw) (\<lambda>_. 0) (nchild tree) F (C(gw := nchild tree gw))" "C gw = size_below tree gw" by metis
  let ?g1 = "loaded tree F C"
  let ?g2 = "?g1\<lparr>Lsum := \<lambda>v. if v \<in> set [1..n] then trunc (load_of (lh ?g1 v)) else Lsum ?g1 v,
     Tsum := \<lambda>v. if v \<in> set [1..n] then time_of (lh ?g1 v) else Tsum ?g1 v\<rparr>"
  from r have gw: "gw \<in> {1..n}" by (simp add: rooted_def)
  have "mark_l_and_t n ?g1 = Some ?g2"
    using n le gw by (simp add: mark_l_and_t_def nodes_loop_def in_range_def mark_fold del: loaded_fields(2))
  moreover have "nchild ?g2 v = size_below tree v \<and> Lsum ?g2 v = size_below tree v \<and>
      Tsum ?g2 v = time_of (lh ?g2 v) \<and>
      map ln_dst (lh ?g2 v) = map ln_dst (lh tree v) \<and> (\<forall>l \<in> set (lh ?g2 v). ln_flow l = size_below tree (ln_dst l) + 1)"
    if v: "v = gw \<or> below tree gw v" for v
  proof -
    have vn: "v \<in> {1..n}" using v gw below_ancestor [OF r] by blast
    have "nchild ?g2 v = size_below tree v"
      using v c(2,3) by (auto simp: counted_def subtree_def fun_upd_def split: if_splits)
    moreover have d: "F d = size_below tree d + 1" if "d \<in> dsts tree v" for d
    proof -
      have "d \<in> subtree tree gw" using v that by (auto simp: subtree_def intro: below.intros)
      with c(2) show ?thesis by (simp add: counted_def)
    qed
    then have links: "\<forall>l \<in> set (lh ?g2 v). ln_flow l = size_below tree (ln_dst l) + 1" by (auto simp: dsts_def)
    moreover have "load_of (lh ?g1 v) = of_int (size_below tree v)"
    proof -
      have pos: "0 \<le> size_below tree w" for w by (simp add: size_below_def)
      have "map ln_flow (lh ?g1 v) = map (\<lambda>d. 1 + size_below tree d) (map ln_dst (lh tree v))"
        using d by (auto simp: dsts_def)
      moreover have "distinct (map ln_dst (lh tree v))" "set (map ln_dst (lh tree v)) = dsts tree v"
        using r vn by (auto simp: rooted_def dsts_def)
      ultimately have s: "sum_list (map ln_flow (lh ?g1 v)) = size_below tree v"
        unfolding size_below_split [OF r, of v] by (simp only: sum_list_distinct_conv_sum_set)
      have "card (subtree tree v) \<le> card {1..n}"
        using below_ancestor [OF r] by (intro card_mono) (auto simp: subtree_def)
      with n have "size_below tree v < 2 ^ 53" using vn by (simp add: size_below_def T_NODES_eq)
      moreover have "0 \<le> ln_flow l" if "l \<in> set (lh ?g1 v)" for l
      proof -
        from that have "l \<in> set (lh ?g2 v)" by simp
        with links have "ln_flow l = size_below tree (ln_dst l) + 1" by blast
        with pos [of "ln_dst l"] show ?thesis by simp
      qed
      ultimately show ?thesis using load_exact [of 0 "lh ?g1 v"] s by (simp add: load_of_def del: loaded_fields(2))
    qed
    then have "Lsum ?g2 v = size_below tree v" using vn by (simp add: trunc_def size_below_def del: loaded_fields(2))
    ultimately show ?thesis using vn by (simp add: comp_def)
  qed
  ultimately show ?thesis using c(1) by blast
qed

section \<open>The trees that are built\<close>

definition level :: "Graph \<Rightarrow> int \<Rightarrow> int \<Rightarrow> int \<Rightarrow> nat" where
  "level g sz s v = (if \<exists>p. chain g sz s v p then length (THE p. chain g sz s v p) - 1 else 0)"

lemma level_chain: "chain g sz s v p \<Longrightarrow> level g sz s v = length p - 1"
  using chain_unique [of g sz s v] by (auto simp: level_def the_equality)

lemma tree_rooted:
  assumes inv: "dinv (n + 1) s (- 1) g" and perm: "\<forall>u \<in> {0..<n + 1}. perm g u = (dcost g u < INFLEN)"
    and s: "s \<in> {1..n}" and g0: "lh g 0 = []"
    and plain: "\<forall>u \<in> {0..<n + 1}. \<forall>l \<in> set (lh g u). ln_dst l \<in> {1..n} \<and> outif l = 0 \<and> inif l = 0"
    and par: "\<forall>v \<in> {1..n}. parent tree v = parent g v" and links: "parent_links out (n + 1) g T tree"
    and T: "tree_nodes (n + 1) s g {1..n} T" and out: "\<forall>u. u \<notin> {1..n} \<longrightarrow> out u = []"
  shows "rooted n s (level g (n + 1) s) tree \<and> (\<forall>u. \<forall>l \<in> set (lh tree u). ln_flow l = 0)"
proof -
  let ?sz = "n + 1"
  have bl: "\<exists>l. l \<in> set (lh g (parent g v)) \<and> parent g v \<in> {1..n} \<and> v \<in> {1..n} \<and> pi_outif g v = 0 \<and> pi_inif g v = 0 \<and>
      perm g v \<and> v \<in> {0..<?sz}" if "v \<in> {0..<?sz}" "dcost g v < INFLEN" "v \<noteq> s" for v
  proof -
    from inv that have "by_link ?sz g v" by (auto simp: dinv_def)
    then obtain l where l: "parent g v \<in> {0..<?sz}" "l \<in> set (lh g (parent g v))" "is_link v (pi_outif g v) (pi_inif g v) l"
      by (auto simp: by_link_def)
    with plain have "ln_dst l \<in> {1..n}" "outif l = 0" "inif l = 0" by blast+
    moreover have "parent g v \<noteq> 0" using l(2) g0 by auto
    ultimately show ?thesis using l that perm by (auto simp: is_link_def)
  qed
  have nodes: "v \<in> {1..n}" if "v \<in> {0..<?sz}" "dcost g v < INFLEN" for v
    using bl [OF that] s by (cases "v = s") auto
  have lev: "level g ?sz s v < nat n" for v
  proof (cases "\<exists>p. chain g ?sz s v p")
    case True
    then obtain p where p: "chain g ?sz s v p" by blast
    have "set p \<subseteq> {1..n}" using chain_nodes [OF inv p] nodes by blast
    then have "card (set p) \<le> card {1..n}" by (intro card_mono) simp_all
    then have "length p \<le> nat n" using distinct_card [OF chain_distinct [OF p]] by simp
    with level_chain [OF p] chain_ends [OF p] s show ?thesis by (cases p) auto
  qed (use s in \<open>simp add: level_def\<close>)
  have in_T: "v \<in> {0..<?sz}" "dcost g v < INFLEN" "v \<noteq> s" if "v \<in> T" for v
    using T that unfolding tree_nodes_def by blast+
  have dst: "ln_dst l \<in> T \<and> parent g (ln_dst l) = u \<and> outif l = pi_outif g (ln_dst l) \<and> inif l = pi_inif g (ln_dst l) \<and> ln_flow l = 0"
    if "u \<in> {0..<?sz}" "l \<in> set (lh tree u)" for u l
  proof -
    from links that(1) have "ln_dst ` set (lh tree u) = {v \<in> T. parent g v = u}" "\<forall>l \<in> set (lh tree u).
      outif l = pi_outif g (ln_dst l) \<and> inif l = pi_inif g (ln_dst l) \<and> dcost g (ln_dst l) = dadd (dcost g u) (ln_cost l) \<and> ln_flow l = 0"
      unfolding parent_links_def by blast+
    with that(2) show ?thesis by blast
  qed
  have outside: "lh tree u = []" if "u \<notin> {1..n}" for u
  proof (cases "u \<in> {0..<?sz}")
    case True
    have "l \<notin> set (lh tree u)" for l
    proof
      assume "l \<in> set (lh tree u)"
      from dst [OF True this] bl [OF in_T] that show False by blast
    qed
    then show ?thesis by (cases "lh tree u") auto
  next
    case False
    with links out that show ?thesis unfolding parent_links_def by metis
  qed
  have step: "ln_dst l \<in> {1..n} \<and> ln_dst l \<noteq> s \<and> parent tree (ln_dst l) = u \<and>
        level g ?sz s (ln_dst l) = Suc (level g ?sz s u) \<and> outif l = 0 \<and> inif l = 0 \<and> ln_flow l = 0"
    if l: "l \<in> set (lh tree u)" for u l
  proof -
    have u: "u \<in> {0..<?sz}" using outside [of u] l by fastforce
    note d = dst [OF u l]
    from d bl [OF in_T] have b: "ln_dst l \<in> {1..n}" "pi_outif g (ln_dst l) = 0" "pi_inif g (ln_dst l) = 0"
      "perm g (ln_dst l)" "ln_dst l \<in> {0..<?sz}" by blast+
    from inv b have "traced g ?sz s (ln_dst l)" by (auto simp: dinv_def)
    then obtain p where p: "chain g ?sz s (ln_dst l) p" using traced_chain by blast
    with d in_T(3) obtain q where q: "p = ln_dst l # q" "chain g ?sz s u q" by (auto elim: chain.cases)
    have "level g ?sz s (ln_dst l) = Suc (level g ?sz s u)"
      using level_chain [OF p] level_chain [OF q(2)] q(1) chain_ends [OF q(2)] by (cases q) auto
    with d b par in_T(3) show ?thesis by simp
  qed
  have "parent tree s = NIL" using par s inv by (simp add: dinv_def)
  moreover have "distinct (map ln_dst (lh tree u))" if "u \<in> {1..n}" for u
    using links that unfolding parent_links_def by auto
  ultimately show ?thesis
    using s outside lev step by (simp add: rooted_def MAX_NODES_def NIL_def)
qed

text \<open>C15. \<^verbatim>\<open>count_children\<close> from the gateway and then \<^verbatim>\<open>mark_l_and_t\<close> (the first two steps of \<^verbatim>\<open>model_tree\<close>), on the tree
  \<^verbatim>\<open>construct_tree\<close> built: both return, and for the gateway and every node under it \<^verbatim>\<open>ch\<close> and \<^verbatim>\<open>L\<close> are the number
  of nodes under it, the flow of each of its links is the number of nodes that are reached over the
  link, and \<^verbatim>\<open>T\<close> is the sum of flow times cost over its links.\<close>

theorem tree_loads:
  assumes "plain_graph n g" and "\<forall>u \<in> {1..n}. \<forall>l \<in> set (lh g u). 0 \<le> ln_cost l" and "lh g 0 = []"
    and "sublinks (n + 1) g metric" and "0 \<le> gw" and "gw < n" and "n < T_NODES" and "nat n < k"
    and "\<forall>u. u \<notin> {1..n} \<longrightarrow> lh tree u = []"
    and built: "construct_tree n metric g gw tree = Some (True, g1, tree1)"
  shows "\<exists>g2 g3. count_children k (gw + 1) tree1 = Some (size_below tree1 (gw + 1), g2) \<and> mark_l_and_t n g2 = Some g3 \<and>
    (\<forall>v. v = gw + 1 \<or> below tree1 (gw + 1) v \<longrightarrow> nchild g3 v = size_below tree1 v \<and> Lsum g3 v = size_below tree1 v \<and>
      Tsum g3 v = time_of (lh g3 v) \<and>
      map ln_dst (lh g3 v) = map ln_dst (lh tree1 v) \<and> (\<forall>l \<in> set (lh g3 v). ln_flow l = size_below tree1 (ln_dst l) + 1))"
proof -
  note le = T_NODES_le(2) [OF assms(7)]
  have plain: "ln_dst l \<in> {1..n} \<and> outif l = 0 \<and> inif l = 0 \<and> 0 \<le> ln_cost l" if "u \<in> {0..<n + 1}" "l \<in> set (lh g u)" for u l
    using that assms(1-3) by (cases "u = 0") (auto simp: plain_graph_def)
  then have fine: "links_fine (n + 1) g" using le by (fastforce simp: links_fine_def in_range_def)
  have "n + 1 \<le> T_NODES" "lh tree 0 = []" using assms(7,9) by auto
  from construct_tree_parts [OF fine assms(4-6) this] built obtain T where
    t: "dinv (n + 1) (gw + 1) (- 1) g1" "lh g1 = no_flow (n + 1) g" "\<forall>u \<in> {0..<n + 1}. perm g1 u = (dcost g1 u < INFLEN)"
      "\<forall>v \<in> {1..n}. parent tree1 v = parent g1 v" "parent_links (lh tree) (n + 1) g1 T tree1"
      "tree_nodes (n + 1) (gw + 1) g1 {1..n} T" by (auto split: if_splits)
  have "lh g1 0 = []" using t(2) assms(3) by (simp add: no_flow_def)
  moreover have "\<forall>u \<in> {0..<n + 1}. \<forall>l \<in> set (lh g1 u). ln_dst l \<in> {1..n} \<and> outif l = 0 \<and> inif l = 0"
    using plain t(2) by (auto simp: no_flow_def)
  moreover have "gw + 1 \<in> {1..n}" using assms(5,6) by simp
  ultimately have "rooted n (gw + 1) (level g1 (n + 1) (gw + 1)) tree1 \<and> (\<forall>u. \<forall>l \<in> set (lh tree1 u). ln_flow l = 0)"
    using tree_rooted [OF t(1,3) _ _ _ t(4-6) assms(9)] by blast
  then show ?thesis using loads_of_tree [OF _ assms(7,8)] by blast
qed

theorem tree_loads_witness:
  "\<exists>g1 tree1 g2 g3. construct_tree 3 sample_graph sample_graph 0 sample_graph = Some (True, g1, tree1) \<and>
    count_children 4 1 tree1 = Some (size_below tree1 1, g2) \<and> mark_l_and_t 3 g2 = Some g3 \<and>
    nchild g3 1 = size_below tree1 1 \<and> Lsum g3 1 = size_below tree1 1"
proof -
  have one: "walk sample_graph 4 1 1 0" by (rule walk.start)
  have links: "init_link 2 1 0 0 0 \<in> set (lh sample_graph 1)" "init_link 3 2 0 0 0 \<in> set (lh sample_graph 2)"
    by (simp_all add: sample_graph_def)
  have "walk sample_graph 4 1 2 (dadd 0 1)" using walk.link [OF one _ links(1)] by (simp add: init_link_def)
  then have two: "walk sample_graph 4 1 2 1" using dbl_int [of 1] by (simp add: dadd_def)
  have "walk sample_graph 4 1 3 (dadd 1 2)" using walk.link [OF two _ links(2)] by (simp add: init_link_def)
  then have three: "walk sample_graph 4 1 3 3" using dbl_int [of 3] by (simp add: dadd_def)
  have "\<exists>c < INFLEN. walk sample_graph 4 1 v c" if "v \<in> {1..3}" for v
  proof -
    from that have "v = 1 \<or> v = 2 \<or> v = 3" by auto
    moreover have "(0 :: double) < INFLEN" "(1 :: double) < INFLEN" "(3 :: double) < INFLEN" by (simp_all add: INFLEN_def)
    ultimately show ?thesis using one two three by blast
  qed
  then obtain g1 tree1 where b: "construct_tree 3 sample_graph sample_graph 0 sample_graph = Some (True, g1, tree1)"
    using construct_tree_spec [of 3 sample_graph sample_graph 0 sample_graph] sample_fine sample_sublinks
    by (auto simp: T_NODES_eq)
  have e: "\<forall>u. u \<notin> {1..3} \<longrightarrow> lh sample_graph u = []" by (auto simp: sample_graph_def)
  from tree_loads [OF sample_plain(1,2) sample_sublinks(2) _ _ _ _ _ e b, of 4] sample_sublinks(1) b show ?thesis
    by (auto simp: T_NODES_eq)
qed

end
