(* ===== verification/Cdfgen.thy ===== *)
theory Cdfgen
  imports MeshFiles
begin

text \<open>
  \<^verbatim>\<open>scripts/parse/cdfgen.cc\<close>: the cumulative distribution of a column of the experiments' output. The tokens and
  numbers are read as in \<^verbatim>\<open>rpp.c\<close>. The result is \<open>None\<close> where the behaviour is undefined: a column that is not
  an index of the token array, a quotient that does not fit an \<^verbatim>\<open>int\<close>, an index before the array. The
  output is a list of rows; rounding them to two places for printing is left out.
\<close>

section \<open>Definitions\<close>

definition MAX_NUM_BINS :: int where "MAX_NUM_BINS = 10000"

record cdf_state =
  tot_value :: double
  num_samples :: int
  CDF :: "int list"

definition ddiv :: "double \<Rightarrow> double \<Rightarrow> double" where
  "ddiv x y = dbl (x / y)"

definition delims :: string where "delims = '' :,'' @ [CHR 0x09]"

text \<open>The conversion to \<^verbatim>\<open>int\<close> cuts off the digits behind the point.\<close>

definition to_int :: "double \<Rightarrow> int option" where
  "to_int q = (let i = (if 0 \<le> q then \<lfloor>q\<rfloor> else \<lceil>q\<rceil>) in if - (2 ^ 31) \<le> i \<and> i < 2 ^ 31 then Some i else None)"

definition bin_index :: "double \<Rightarrow> double \<Rightarrow> int option" where
  "bin_index bin_size value = do {
     index \<leftarrow> (if bin_size = 0 then None else to_int (ddiv value bin_size));
     index1 \<leftarrow> (if ddiv value bin_size = of_int index then Some index
       else if index + 1 < 2 ^ 31 then Some (index + 1) else None);
     Some (if MAX_NUM_BINS \<le> index1 then MAX_NUM_BINS else index1)
   }"

definition parse_value :: "double \<Rightarrow> int \<Rightarrow> string \<Rightarrow> cdf_state \<Rightarrow> cdf_state option" where
  "parse_value bin_size column line st = do {
     ts \<leftarrow> line_tokens delims line;
     value \<leftarrow> (if 0 \<le> column \<and> column < 100 then Some (atof (token_at ts (nat column))) else None);
     if value < 0 then Some st
     else do {
       let st1 = (if 0 < value
         then st\<lparr>tot_value := dadd (tot_value st) value, num_samples := num_samples st + 1\<rparr> else st);
       index \<leftarrow> bin_index bin_size value;
       if 0 \<le> index then Some (st1\<lparr>CDF := (CDF st1)[nat index := CDF st1 ! nat index + 1]\<rparr>) else None
     }
   }"

fun parsefile :: "double \<Rightarrow> int \<Rightarrow> string list \<Rightarrow> cdf_state \<Rightarrow> cdf_state option" where
  "parsefile bin_size column [] st = Some st"
| "parsefile bin_size column (line # lines) st = do {
     st1 \<leftarrow> parse_value bin_size column line st;
     parsefile bin_size column lines st1
   }"

text \<open>The printed rows: the upper end of the bin and the percentage, which is a NaN when there is no sample.
  A \<^verbatim>\<open>float\<close> has 24 binary digits.\<close>

definition percent :: "int \<Rightarrow> int \<Rightarrow> rat option" where
  "percent m cdfvalue = (if cdfvalue = 0 then None
     else Some (rnd 23 (rnd 23 (rnd 23 (of_int m) / rnd 23 (of_int cdfvalue)) * 100)))"

fun cdf_rows :: "double \<Rightarrow> int \<Rightarrow> int \<Rightarrow> int \<Rightarrow> int list \<Rightarrow> (double \<times> rat option) list" where
  "cdf_rows bin_size cdfvalue i m [] = []"
| "cdf_rows bin_size cdfvalue i m (n # ns) =
     (dbl (of_int i * bin_size), percent (m + n) cdfvalue) # cdf_rows bin_size cdfvalue (i + 1) (m + n) ns"

definition cdf_main :: "string \<Rightarrow> string \<Rightarrow> string list \<Rightarrow> (double \<times> rat option) list option" where
  "cdf_main bin_arg column_arg lines = do {
     st \<leftarrow> parsefile (atof bin_arg) (atoi column_arg) lines
       \<lparr>tot_value = 0, num_samples = 0, CDF = replicate (nat MAX_NUM_BINS + 1) 0\<rparr>;
     Some (cdf_rows (atof bin_arg) (sum_list (CDF st)) 0 0 (CDF st))
   }"

section \<open>The rows\<close>

text \<open>The values of a column that count.\<close>

definition samples :: "int \<Rightarrow> string list \<Rightarrow> double list" where
  "samples column lines = filter (\<lambda>v. 0 \<le> v) (map (\<lambda>line. atof (token_at (split_tokens delims [] line) (nat column))) lines)"

definition below :: "double \<Rightarrow> int \<Rightarrow> double list \<Rightarrow> int" where
  "below bin_size i vs = int (length (filter (\<lambda>v. ddiv v bin_size \<le> of_int i) vs))"

text \<open>The bin of a value, and the counts of a list of values.\<close>

definition bin_of :: "double \<Rightarrow> double \<Rightarrow> nat" where
  "bin_of b v = nat (min MAX_NUM_BINS \<lceil>ddiv v b\<rceil>)"

definition hist :: "double \<Rightarrow> double list \<Rightarrow> int list" where
  "hist b vs = map (\<lambda>i. int (length (filter (\<lambda>v. bin_of b v = i) vs))) [0..<nat MAX_NUM_BINS + 1]"

lemma ddiv_nonneg: "0 \<le> v \<Longrightarrow> 0 < b \<Longrightarrow> 0 \<le> ddiv v b"
  by (simp add: ddiv_def dbl_nonneg)

lemma bin_index_of:
  assumes "0 \<le> v" and "0 < b" and "ddiv v b < 2 ^ 31 - 1"
  shows "bin_index b v = Some (int (bin_of b v))"
proof -
  let ?q = "ddiv v b"
  have q: "0 \<le> ?q" using ddiv_nonneg assms by blast
  have f: "0 \<le> \<lfloor>?q\<rfloor>" "\<lfloor>?q\<rfloor> < 2 ^ 31 - 1" using q assms(3) by (simp_all add: floor_less_iff)
  have c: "(if ?q = of_int \<lfloor>?q\<rfloor> then \<lfloor>?q\<rfloor> else \<lfloor>?q\<rfloor> + 1) = \<lceil>?q\<rceil>"
    by (auto simp: ceiling_altdef)
  have "bin_index b v = Some (if MAX_NUM_BINS \<le> \<lceil>?q\<rceil> then MAX_NUM_BINS else \<lceil>?q\<rceil>)"
    by (cases "?q = of_int \<lfloor>?q\<rfloor>") (use f q c assms(2) in \<open>simp_all add: bin_index_def to_int_def Let_def\<close>)
  moreover have "0 \<le> \<lceil>?q\<rceil>" using q by simp
  ultimately show ?thesis by (auto simp: bin_of_def MAX_NUM_BINS_def min_def)
qed

lemma hist_add: "(hist b vs)[bin_of b v := hist b vs ! bin_of b v + 1] = hist b (vs @ [v])"
proof -
  have "bin_of b v < nat MAX_NUM_BINS + 1" by (simp add: bin_of_def MAX_NUM_BINS_def)
  then show ?thesis
    by (intro nth_equalityI) (auto simp: hist_def nth_list_update nth_append simp del: upt_Suc)
qed

lemma parsefile_hist:
  assumes "0 < b" and "0 \<le> column" "column < 100"
  shows "list_all (\<lambda>line. line_tokens delims line \<noteq> None) lines \<Longrightarrow>
    (\<And>v. v \<in> set (samples column lines) \<Longrightarrow> ddiv v b < 2 ^ 31 - 1) \<Longrightarrow> CDF st = hist b vs \<Longrightarrow>
    \<exists>st1. parsefile b column lines st = Some st1 \<and> CDF st1 = hist b (vs @ samples column lines)"
proof (induction lines arbitrary: st vs)
  case (Cons line lines)
  then obtain ts where ts: "line_tokens delims line = Some ts" "split_tokens delims [] line = ts"
    by (auto simp: line_tokens_def Let_def split: if_splits)
  let ?v = "atof (token_at ts (nat column))"
  have rest: "list_all (\<lambda>line. line_tokens delims line \<noteq> None) lines"
    "\<And>v. v \<in> set (samples column lines) \<Longrightarrow> ddiv v b < 2 ^ 31 - 1"
    using Cons.prems(1,2) by (auto simp: samples_def)
  show ?case
  proof (cases "?v < 0")
    case True
    with ts assms have "parse_value b column line st = Some st" by (simp add: parse_value_def)
    moreover have "samples column (line # lines) = samples column lines" using True ts by (simp add: samples_def)
    ultimately show ?thesis using Cons.IH [OF rest Cons.prems(3)] by simp
  next
    case False
    then have s: "samples column (line # lines) = ?v # samples column lines" using ts by (simp add: samples_def)
    with Cons.prems(2) have "ddiv ?v b < 2 ^ 31 - 1" by simp
    with False assms(1) have "bin_index b ?v = Some (int (bin_of b ?v))" by (intro bin_index_of) simp_all
    with False ts assms have "\<exists>st1. parse_value b column line st = Some st1 \<and> CDF st1 = hist b (vs @ [?v])"
      using Cons.prems(3) hist_add [of b vs ?v] by (cases "0 < ?v") (simp_all add: parse_value_def Let_def)
    then obtain st1 where
      st1: "parse_value b column line st = Some st1" "CDF st1 = hist b (vs @ [?v])" by blast
    from Cons.IH [OF rest st1(2)] st1(1) s show ?thesis by simp
  qed
qed (simp add: samples_def)

lemma sum_hist:
  "k \<le> nat MAX_NUM_BINS \<Longrightarrow> sum_list (take (Suc k) (hist b vs)) = int (length (filter (\<lambda>v. bin_of b v \<le> k) vs))"
proof (induction k)
  case 0
  then show ?case by (simp add: hist_def take_map upt_rec [of 0] del: upt_Suc)
next
  case (Suc k)
  have "length (filter (\<lambda>v. bin_of b v \<le> Suc k) vs) =
      length (filter (\<lambda>v. bin_of b v \<le> k) vs) + length (filter (\<lambda>v. bin_of b v = Suc k) vs)"
    by (induction vs) auto
  moreover have "take (Suc (Suc k)) (hist b vs) = take (Suc k) (hist b vs) @ [hist b vs ! Suc k]"
    using Suc.prems by (intro take_Suc_conv_app_nth) (simp add: hist_def)
  moreover have "hist b vs ! Suc k = int (length (filter (\<lambda>v. bin_of b v = Suc k) vs))"
    using Suc.prems by (simp add: hist_def del: upt_Suc)
  ultimately show ?case using Suc by simp
qed

lemma below_bins:
  assumes "0 \<le> i" and "i < MAX_NUM_BINS"
  shows "filter (\<lambda>v. bin_of b v \<le> nat i) vs = filter (\<lambda>v. ddiv v b \<le> of_int i) vs"
  using assms by (intro filter_cong) (auto simp: bin_of_def min_def ceiling_le_iff MAX_NUM_BINS_def nat_le_iff)

lemma sum_all: "sum_list (hist b vs) = int (length vs)"
proof -
  have "take (Suc (nat MAX_NUM_BINS)) (hist b vs) = hist b vs" by (simp add: hist_def del: upt_Suc)
  moreover have "bin_of b v \<le> nat MAX_NUM_BINS" for v by (simp add: bin_of_def)
  ultimately show ?thesis using sum_hist [of "nat MAX_NUM_BINS" b vs] by simp
qed

lemma cdf_rows_length [simp]: "length (cdf_rows b c i m ns) = length ns"
  by (induction ns arbitrary: i m) auto

lemma cdf_rows_nth:
  "k < length ns \<Longrightarrow>
   cdf_rows b c i m ns ! k = (dbl (of_int (i + int k) * b), percent (m + sum_list (take (Suc k) ns)) c)"
proof (induction ns arbitrary: i m k)
  case (Cons n ns)
  then show ?case by (cases k) (simp_all add: add.assoc)
qed simp

section \<open>Percentages\<close>

lemma rnd_powers: "rnd 23 1 = 1" "rnd 23 100 = 100"
proof -
  have "binade 1 = 0" "binade 100 = 6" by (intro binade_unique; simp add: two_to_def)+
  moreover have "(2 :: rat) powi 23 = of_int (2 ^ 23)" "100 * (2 :: rat) powi 17 = of_int (100 * 2 ^ 17)" by simp_all
  then have "round_even (2 powi 23) = 2 ^ 23" "round_even (100 * 2 powi 17) = 100 * 2 ^ 17"
    by (simp_all only: round_even_int)
  ultimately show "rnd 23 1 = 1" "rnd 23 100 = 100" by (simp_all add: rnd_def two_to_def power_int_minus)
qed

lemma percent_all: "0 < c \<Longrightarrow> percent c c = Some 100"
proof -
  assume "0 < c"
  then have "0 < rnd 23 (of_int c)"
    using rnd_range(1) [of "of_int c" 23] two_to_pos by (meson less_le_trans of_int_0_less_iff)
  with \<open>0 < c\<close> show ?thesis by (simp add: percent_def rnd_powers)
qed

lemma percent_mono:
  assumes "0 \<le> m" and "m \<le> n" and "0 < c"
  shows "\<exists>p q. percent m c = Some p \<and> percent n c = Some q \<and> 0 \<le> p \<and> p \<le> q"
proof -
  let ?r = "rnd 23"
  have c: "0 \<le> ?r (of_int c)" using assms(3) by (simp add: rnd_nonneg)
  have "0 \<le> ?r (of_int m)" "?r (of_int m) \<le> ?r (of_int n)" using assms by (simp_all add: rnd_nonneg rnd_mono)
  then have "0 \<le> ?r (of_int m) / ?r (of_int c)" "?r (of_int m) / ?r (of_int c) \<le> ?r (of_int n) / ?r (of_int c)"
    using c by (simp_all add: divide_right_mono)
  then have "0 \<le> ?r (?r (of_int m) / ?r (of_int c)) * 100"
    "?r (?r (of_int m) / ?r (of_int c)) * 100 \<le> ?r (?r (of_int n) / ?r (of_int c)) * 100"
    by (simp_all add: rnd_nonneg rnd_mono)
  then show ?thesis using assms(3) by (simp add: percent_def rnd_nonneg rnd_mono)
qed



end
