(* ===== verification/Spec2Isabelle.thy ===== *)
theory Spec2Isabelle
  imports SniffDelivery Wifi PrintPayload CmdLine Util SnifferPlugin XferProps XferTransfer IdealProps
    GtcdDownload GtcdClientFaults GtcdWellFormed GtcdPutFd MeshFlow Cdfgen
begin

text \<open>
  Ditto: chunk transfers overheard on a wireless network are put into a cache from which later requests are
  answered. Two programs carry it. The sniffer (\<^verbatim>\<open>src/sniffer\<close>) captures frames, finds the replies of the
  transfer protocol in the TCP streams, reassembles the chunks and hands each to the daemon. The daemon
  (\<^verbatim>\<open>src/gtcd\<close>) stores them, asks other daemons for chunks, descriptors and bitmaps, and answers them.

  \<^bold>\<open>Conventions.\<close> Machine integers are words of their width. A pointer into a packet is the buffer and an
  offset (\<open>Prelude\<close>); reading outside it is \<open>None\<close>. In the daemon a call ends with a value, with \<^verbatim>\<open>fatal\<close>,
  with \<^verbatim>\<open>exit\<close> or in undefined behaviour (\<open>GtcdBase\<close>): a null or deleted \<^verbatim>\<open>conn_entry\<close>, an index outside a
  vector. Time stamps, debug output and the texts of warnings are left out.

  \<^bold>\<open>Sniffer.\<close>
  \<^item> \<open>Extract\<close>, \<open>Crc32\<close>, \<open>Util\<close>: byte order, \<^verbatim>\<open>MAC\<close>, the checksums of \<^verbatim>\<open>crc32.cc\<close> (the table is the shift
    register, and one changed byte is always noticed), \<^verbatim>\<open>tok2str\<close>.
  \<^item> \<open>Wifi\<close>: 802.11 and LLC headers in \<^verbatim>\<open>SniffTcp.cc\<close>, the frame check sequence; no frame is read past its end.
  \<^item> \<open>FlowIds\<close>, \<open>ContigBlock\<close>, \<open>ReconChunk\<close>: \<^verbatim>\<open>flow_id.cc\<close>, \<^verbatim>\<open>contiguous_block.cc\<close>,
    \<^verbatim>\<open>reconstructed_chunk.cc\<close>; \<open>fill_gaps_in_chunk\<close> against the set of byte positions that have arrived.
  \<^item> \<open>SniffTcp\<close>, \<open>GrepFlows\<close>, \<open>HandleIp\<close>: the state of class \<^verbatim>\<open>SniffTcp\<close>, its flow list, the search for chunk
    headers, the path of a captured frame through \<^verbatim>\<open>handle_ip\<close> and \<^verbatim>\<open>handle_tcp\<close>. The loops that edit the
    list they walk run on fuel; \<open>GrepFlows\<close> and \<open>SniffSafety\<close> prove the fuel they are given is enough.
  \<^item> \<open>CaptureInv\<close>: reachable states and their invariants, each an instance of one locale.
  \<^item> \<open>SniffSafety\<close>, \<open>SniffDelivery\<close>: what reads outside a packet and what cannot; delivery of a chunk.
  \<^item> \<open>PrintPayload\<close>, \<open>CmdLine\<close>: the payload dump, the options and \<^verbatim>\<open>main\<close>.
  \<^item> \<open>IdealSniff\<close>, \<open>IdealGrep\<close>, \<open>IdealAnalysis\<close>: the variant \<^verbatim>\<open>src/ideal-sniffer\<close>, which is told the true bytes of
    the chunks and keeps count of what it has seen of them. \<open>IdealRefine\<close>: a relation between its states
    and the sniffer's that every packet keeps; \<open>IdealProps\<close>: both do the same, and what differs.

  \<^bold>\<open>Daemon.\<close>
  \<^item> \<open>GtcdConfig\<close>, \<open>GtcdMain\<close>: \<^verbatim>\<open>configfile.cc\<close> and \<^verbatim>\<open>main.cc\<close>: the configuration file becomes the plugin graph
    it describes; a comma-separated chain leaks into the plugins of later lines.
  \<^item> \<open>GtcdBase\<close>: hints and chunk ids of \<^verbatim>\<open>gtcd.T\<close>. \<open>SnifferPlugin\<close>: \<^verbatim>\<open>snifferPlugin_tcp.cc\<close>.
  \<^item> \<open>XferBitmap\<close>, \<open>XferServer\<close>: the answering side of \<^verbatim>\<open>xferPlugin_gtc.cc\<close> with routes and hints;
    \<open>XferConn\<close>: its asking side with connections, slots and waiting requests. A \<^verbatim>\<open>conn_entry *\<close> is an index
    into \<open>conns\<close>; calls to the network and callbacks of clients are lists in the state.
  \<^item> \<open>XferRun\<close>, \<open>XferProps\<close>: a step per event, the requests as a multiset that every step keeps, and what
    failing connections do. \<open>XferTransfer\<close>: both sides together.
  \<^item> \<open>GtcdSession\<close>: a client connection of \<^verbatim>\<open>gtcd.T\<close>, its table of transfers and its handlers; the calls of the
    plugins are a list and their answers events. \<open>GtcdPutFd\<close>: storing from a descriptor.
    \<open>GtcdSerial\<close>, \<open>GtcdReading\<close>: the invariant of one sequential transfer while everything else on the
    connection goes on; \<open>GtcdDelivery\<close>, \<open>GtcdDownload\<close>: what is sent is a prefix of the object, and all of
    it after a bounded number of steps. \<open>GtcdWellFormed\<close>: the fields of every reachable transfer fit
    together. \<open>GtcdClientFaults\<close>: clients that do not wait.

  \<^bold>\<open>Route planner of the testbed\<close> (\<^verbatim>\<open>rpp.c\<close>, and \<^verbatim>\<open>swarm.c\<close> with the same code).
  \<^item> \<open>MeshFloat\<close>: doubles as rationals with 53 bits, their rounded sum, and what adding costs relies on, as a locale.
  \<^item> \<open>MeshGraph\<close>: the arrays and link lists of \<^verbatim>\<open>Graph\<close> and \<^verbatim>\<open>dijkstra\<close>; \<open>MeshDijkstra\<close>: its labels are the costs of
    the cheapest walks. The loop makes a node permanent in every round, so it needs no fuel. The array \<^verbatim>\<open>T\<close> is
    allocated too short, and the theorems are for the fewer than 50 nodes that fit.
  \<^item> \<open>MeshRoute\<close>, \<open>MeshFiles\<close>: \<^verbatim>\<open>get_route\<close>, the metric file and \<^verbatim>\<open>main\<close>: every printed route is a cheapest path of
    entries of the file. \<open>MeshTree\<close>: the tree of a gateway is a tree of cheapest walks. \<open>MeshConfig\<close>:
    \<^verbatim>\<open>swarm.c\<close>, configurations and the part of the graph that belongs to a gateway, with its tree. \<open>MeshFlow\<close>:
    \<^verbatim>\<open>count_children\<close> and \<^verbatim>\<open>mark_l_and_t\<close>, the load on the links of that tree; their fuel is one unit for each level.
  \<^item> \<open>Cdfgen\<close>: \<^verbatim>\<open>cdfgen.cc\<close>, the distribution of a measured column.

  \<^bold>\<open>Parameters.\<close> The storage plugins, SHA-1, the RPC library (its \<^verbatim>\<open>join\<close>, tokenizer and \<^verbatim>\<open>MAX_PKTSIZE\<close>), the
  routing script and the answers of the operating system are not in the repository and are arguments of
  the definitions. The network is the events of \<open>xfer_step\<close>: any reply to any outstanding call, at any time.

  \<^bold>\<open>Not modelled.\<close> \<^verbatim>\<open>SniffTcpv2\<close> (built by no makefile, a copy of \<^verbatim>\<open>SniffTcp\<close> but for debug output, timing
  and the capture filter), the capture library calls, the list of connections
  of \<^verbatim>\<open>gtcd.T\<close>, the chunkers (declarations over a library that is not here), the interference
  model and the configuration search of the route planner (square roots over measured conflicts), the
  scripts, \<^verbatim>\<open>gcp\<close>.
\<close>

section \<open>From the air to another daemon\<close>



end
